(* ===== verification/Prelude.thy ===== *)
theory Prelude
  imports Main "HOL-Library.Word" "HOL-Library.Multiset"
begin

text \<open>
  Types, array access and list lemmas shared by the components of the Scrimmage model.

  \<^item> the fixed-width integers of the code, as words;
  \<^item> \<open>array_get\<close> and \<open>array_upd\<close>: the unchecked \<open>operator[]\<close> of \<open>std::array\<close>. An index out
    of range is undefined behaviour in the code and has no result (\<open>None\<close>) in the model, so
    that "returns \<open>Some\<close>" is the memory safety of an operation;
  \<^item> \<open>cyc\<close>: the cells of a circular array from a start index on, with the lemmas the ring
    buffer needs;
  \<^item> the collection \<open>array_simps\<close> of results of accesses that are in range.
\<close>

section \<open>Machine integers\<close>

type_synonym u8 = "8 word"
type_synonym u16 = "16 word"
type_synonym u32 = "32 word"
type_synonym u64 = "64 word"
type_synonym i64 = "64 word"

named_theorems array_simps \<open>results of unchecked array accesses that are in range\<close>

section \<open>Arrays with undefined out-of-range access\<close>

definition array_get :: "'a list \<Rightarrow> nat \<Rightarrow> 'a option" where
  "array_get xs i = (if i < length xs then Some (xs ! i) else None)"

definition array_upd :: "'a list \<Rightarrow> nat \<Rightarrow> 'a \<Rightarrow> 'a list option" where
  "array_upd xs i v = (if i < length xs then Some (xs[i := v]) else None)"

lemma array_get_in [array_simps]: "i < length xs \<Longrightarrow> array_get xs i = Some (xs ! i)"
  by (simp add: array_get_def)

lemma array_upd_in [array_simps]: "i < length xs \<Longrightarrow> array_upd xs i v = Some (xs[i := v])"
  by (simp add: array_upd_def)

lemma array_get_Some_iff: "array_get xs i = Some v \<longleftrightarrow> i < length xs \<and> v = xs ! i"
  by (auto simp: array_get_def)

lemma array_upd_Some_iff: "array_upd xs i v = Some ys \<longleftrightarrow> i < length xs \<and> ys = xs[i := v]"
  by (auto simp: array_upd_def)

lemma array_get_None_iff: "array_get xs i = None \<longleftrightarrow> length xs \<le> i"
  by (auto simp: array_get_def)

section \<open>Words\<close>

lemma unat_min_word: "unat (min a b) = min (unat a) (unat b)"
  for a b :: "'a::len word"
  by (simp add: min_def word_le_nat_alt)

lemma unat_minus_le: "b \<le> a \<Longrightarrow> unat (a - b) = unat a - unat b"
  for a b :: "'a::len word"
  by (simp add: unat_sub_if' word_le_nat_alt)

lemma unat_minus_lt: "unat b < unat a \<Longrightarrow> unat (a - b) = unat a - unat b"
  for a b :: "'a::len word"
  by (simp add: unat_sub_if')

lemma word_diff_pos: "b < a \<Longrightarrow> 0 < a - b"
  for a b :: "'a::len word"
  by (simp add: word_less_nat_alt unat_minus_lt)

lemma word_eq_0_unat: "a = 0 \<longleftrightarrow> unat a = 0"
  for a :: "'a::len word"
  by (simp add: unat_eq_zero)

section \<open>Cells of a circular array\<close>

text \<open>
  \<open>cyc b t n\<close> is the list of the \<open>n\<close> cells of \<open>b\<close> from index \<open>t\<close> on, wrapping around at the
  end of the array.
\<close>

definition cyc :: "'a list \<Rightarrow> nat \<Rightarrow> nat \<Rightarrow> 'a list" where
  "cyc b t n = map (\<lambda>k. b ! ((t + k) mod length b)) [0..<n]"

lemma length_cyc [simp]: "length (cyc b t n) = n"
  by (simp add: cyc_def)

lemma cyc_0 [simp]: "cyc b t 0 = []"
  by (simp add: cyc_def)

lemma cyc_snoc: "cyc b t (Suc n) = cyc b t n @ [b ! ((t + n) mod length b)]"
  by (simp add: cyc_def)

lemma cyc_Cons:
  assumes "t < length b"
  shows "cyc b t (Suc n) = b ! t # cyc b (if t + 1 = length b then 0 else t + 1) n"
proof -
  have "[0..<Suc n] = 0 # map Suc [0..<n]"
    by (simp add: map_Suc_upt upt_conv_Cons del: upt_Suc)
  moreover have "(t + Suc k) mod length b
      = ((if t + 1 = length b then 0 else t + 1) + k) mod length b" for k
    by (auto simp: mod_add_self1 simp flip: add_Suc)
  ultimately show ?thesis
    using assms by (simp add: cyc_def o_def del: upt_Suc)
qed

lemma mod_offset_neq:
  assumes "k < n" "n < c" "t < (c::nat)"
  shows "(t + k) mod c \<noteq> (t + n) mod c"
proof
  assume "(t + k) mod c = (t + n) mod c"
  then have "c dvd (t + n) - (t + k)"
    using assms by (metis add_le_cancel_left less_or_eq_imp_le mod_eq_dvd_iff_nat)
  then have "c dvd n - k" by simp
  with assms show False
    by (metis dvd_imp_le leD less_imp_diff_less zero_less_diff)
qed

lemma cyc_update_end:
  assumes "n < length b" "t < length b" "i = (t + n) mod length b"
  shows "cyc (b[i := v]) t n = cyc b t n"
proof -
  have "b[i := v] ! ((t + k) mod length b) = b ! ((t + k) mod length b)" if "k < n" for k
    using mod_offset_neq [OF that assms(1,2)] assms(3) by (simp add: nth_list_update_neq)
  then show ?thesis by (simp add: cyc_def)
qed

end
