(* ===== verification/SpScRing.thy ===== *)
theory SpScRing
  imports Prelude
begin

text \<open>
  The single-producer single-consumer ring buffer of
  \<^verbatim>\<open>libs/common/SpScRingBuffer/SpScRingBuffer.h\<close>, each operation run to its end without the
  other thread between its steps (the interleaved model is the theory \<open>SpScConc\<close>).
  \<open>Capacity\<close> is the length of \<open>rb_buffer\<close>. The indices are \<open>size_t\<close> in the code; they stay
  below \<open>Capacity\<close>, so they are \<open>nat\<close> here, while the drop counter, which can wrap, is a
  64-bit word.

  The interface the clients of the buffer rely on is the locale \<open>bounded_fifo\<close>: a queue of
  bounded length with its contents as a list. The model of the buffer interprets it.
\<close>

section \<open>State and operations\<close>

record 'a ring =
  rb_buffer :: "'a list"
  rb_head :: nat
  rb_tail :: nat
  rb_dropped :: u64
  rb_highWaterMark :: nat

definition capacity :: "'a ring \<Rightarrow> nat" where
  "capacity r = length (rb_buffer r)"

text \<open>The constructor; \<open>b\<close> is what the array holds before anything is stored in it.\<close>

definition ring_new :: "'a list \<Rightarrow> 'a ring" where
  "ring_new b = \<lparr>rb_buffer = b, rb_head = 0, rb_tail = 0, rb_dropped = 0, rb_highWaterMark = 0\<rparr>"

definition increment :: "nat \<Rightarrow> nat \<Rightarrow> nat" where
  "increment cap i = (if i + 1 = cap then 0 else i + 1)"

text \<open>
  The compare-exchange loop of \<open>updateHighWaterMark\<close>. Only the producer writes the mark, so
  \<open>compare_exchange_weak\<close> can only fail spuriously, and then reloads the value it had;
  \<open>spurious\<close> says of each attempt whether it does.
\<close>

fun hwm_cas :: "bool list \<Rightarrow> nat \<Rightarrow> nat \<Rightarrow> nat" where
  "hwm_cas [] high used = (if used > high then used else high)"
| "hwm_cas (fails # spurious) high used =
     (if used > high then (if fails then hwm_cas spurious high used else used) else high)"

definition updateHighWaterMark :: "bool list \<Rightarrow> nat \<Rightarrow> 'a ring \<Rightarrow> 'a ring" where
  "updateHighWaterMark spurious currentHead r =
     (let used = (currentHead + capacity r - rb_tail r) mod capacity r
      in r\<lparr>rb_highWaterMark := hwm_cas spurious (rb_highWaterMark r) used\<rparr>)"

definition tryPush :: "'a \<Rightarrow> 'a ring \<Rightarrow> bool \<times> 'a ring" where
  "tryPush item r =
     (let currentHead = rb_head r; nextHead = increment (capacity r) currentHead
      in if nextHead = rb_tail r then (False, r\<lparr>rb_dropped := rb_dropped r + 1\<rparr>)
         else (True, updateHighWaterMark [] nextHead
                       (r\<lparr>rb_buffer := (rb_buffer r)[currentHead := item], rb_head := nextHead\<rparr>)))"

text \<open>\<open>tryPop\<close> writes its out-parameter and returns true, or changes nothing and returns false.\<close>

definition tryPop :: "'a ring \<Rightarrow> ('a \<times> 'a ring) option" where
  "tryPop r =
     (let currentTail = rb_tail r
      in if currentTail = rb_head r then None
         else Some (rb_buffer r ! currentTail, r\<lparr>rb_tail := increment (capacity r) currentTail\<rparr>))"

definition dropped :: "'a ring \<Rightarrow> u64" where
  "dropped r = rb_dropped r"

definition highWaterMark :: "'a ring \<Rightarrow> nat" where
  "highWaterMark r = rb_highWaterMark r"

lemma hwm_cas_max: "hwm_cas spurious high used = max high used"
  by (induction spurious high used rule: hwm_cas.induct) auto

text \<open>Spurious failures do not show in the result.\<close>

lemma updateHighWaterMark_spurious:
  "updateHighWaterMark spurious h r = updateHighWaterMark [] h r"
  by (simp add: updateHighWaterMark_def hwm_cas_max)

section \<open>The contents as a list\<close>

definition ring_used :: "'a ring \<Rightarrow> nat" where
  "ring_used r = (rb_head r + capacity r - rb_tail r) mod capacity r"

definition ring_items :: "'a ring \<Rightarrow> 'a list" where
  "ring_items r = cyc (rb_buffer r) (rb_tail r) (ring_used r)"

text \<open>One cell is always free, so a buffer holds at most \<open>Capacity - 1\<close> items.\<close>

definition ring_limit :: "'a ring \<Rightarrow> nat" where
  "ring_limit r = capacity r - 1"

definition ring_wf :: "'a ring \<Rightarrow> bool" where
  "ring_wf r \<longleftrightarrow> rb_head r < capacity r \<and> rb_tail r < capacity r
     \<and> rb_highWaterMark r < capacity r \<and> ring_used r \<le> rb_highWaterMark r"

lemma used_arith:
  assumes "h < c" "t < (c::nat)"
  shows "(h + c - t) mod c = (if t \<le> h then h - t else h + c - t)"
proof (cases "t \<le> h")
  case True
  then have "(h + c - t) mod c = (h - t + c) mod c" by simp
  also have "\<dots> = h - t" using assms(1) by simp
  finally show ?thesis using True by simp
qed (use assms in simp)

lemma increment_less: "i < c \<Longrightarrow> increment c i < c"
  by (auto simp: increment_def)

lemma used_push:
  assumes "h < c" "t < (c::nat)" "increment c h \<noteq> t"
  shows "(increment c h + c - t) mod c = Suc ((h + c - t) mod c)"
  using assms used_arith [OF increment_less [OF assms(1)] assms(2)]
  by (auto simp: used_arith increment_def split: if_splits)

lemma used_pop:
  assumes "h < c" "t < (c::nat)" "t \<noteq> h"
  shows "Suc ((h + c - increment c t) mod c) = (h + c - t) mod c"
  using assms used_arith [OF assms(1) increment_less [OF assms(2)]]
  by (auto simp: used_arith increment_def split: if_splits)

lemma used_full:
  assumes "h < c" "t < (c::nat)"
  shows "increment c h = t \<longleftrightarrow> (h + c - t) mod c = c - 1"
  using assms by (auto simp: used_arith increment_def split: if_splits)

lemma used_empty:
  assumes "h < c" "t < (c::nat)"
  shows "t = h \<longleftrightarrow> (h + c - t) mod c = 0"
  unfolding used_arith [OF assms] using assms by auto

lemma used_head:
  assumes "h < c" "t < (c::nat)"
  shows "(t + (h + c - t) mod c) mod c = h"
  unfolding used_arith [OF assms] using assms by auto

lemmas ring_defs = ring_wf_def ring_used_def ring_items_def ring_limit_def capacity_def

lemma length_ring_items: "length (ring_items r) = ring_used r"
  by (simp add: ring_items_def)

lemma ring_wf_new: "b \<noteq> [] \<Longrightarrow> ring_wf (ring_new b)"
  by (simp add: ring_defs ring_new_def)

lemma ring_items_new: "ring_items (ring_new b) = []"
  by (simp add: ring_defs ring_new_def)

lemma ring_items_bound: "ring_wf r \<Longrightarrow> length (ring_items r) \<le> ring_limit r"
  using mod_less_divisor [of "capacity r" "rb_head r + capacity r - rb_tail r"]
  by (auto simp: length_ring_items ring_used_def ring_limit_def ring_wf_def simp del: mod_less_divisor)

lemma dropped_update_simps [simp]:
  "ring_wf (r\<lparr>rb_dropped := d\<rparr>) = ring_wf r"
  "ring_items (r\<lparr>rb_dropped := d\<rparr>) = ring_items r"
  "capacity (r\<lparr>rb_dropped := d\<rparr>) = capacity r"
  by (simp_all add: ring_defs)

section \<open>What each operation does to the contents\<close>

lemma tryPush_full_iff:
  assumes "ring_wf r"
  shows "fst (tryPush x r) \<longleftrightarrow> length (ring_items r) < ring_limit r"
  using assms used_full [of "rb_head r" "capacity r" "rb_tail r"] ring_items_bound [OF assms]
  by (auto simp: tryPush_def Let_def length_ring_items ring_used_def ring_limit_def ring_wf_def)

lemma tryPush_fail:
  "\<not> fst (tryPush x r) \<Longrightarrow> snd (tryPush x r) = r\<lparr>rb_dropped := rb_dropped r + 1\<rparr>"
  by (auto simp: tryPush_def Let_def split: if_splits)

lemma tryPush_ok:
  assumes "ring_wf r" "fst (tryPush x r)"
  shows "ring_wf (snd (tryPush x r)) \<and> ring_items (snd (tryPush x r)) = ring_items r @ [x]
    \<and> capacity (snd (tryPush x r)) = capacity r \<and> rb_dropped (snd (tryPush x r)) = rb_dropped r
    \<and> rb_highWaterMark (snd (tryPush x r)) = max (rb_highWaterMark r) (Suc (ring_used r))"
proof -
  let ?c = "capacity r" and ?h = "rb_head r" and ?t = "rb_tail r"
  have b: "?h < ?c" "?t < ?c" "rb_highWaterMark r < ?c" "ring_used r \<le> rb_highWaterMark r"
    using assms(1) by (auto simp: ring_wf_def)
  have room: "increment ?c ?h \<noteq> ?t"
    using assms(2) by (auto simp: tryPush_def Let_def)
  let ?r = "snd (tryPush x r)"
  have used: "(increment ?c ?h + ?c - ?t) mod ?c = Suc (ring_used r)"
    using used_push [OF b(1,2) room] by (simp add: ring_used_def)
  have r': "?r = r\<lparr>rb_buffer := (rb_buffer r)[?h := x], rb_head := increment ?c ?h,
      rb_highWaterMark := max (rb_highWaterMark r) (Suc (ring_used r))\<rparr>"
    using room used
    by (simp add: tryPush_def Let_def updateHighWaterMark_def capacity_def hwm_cas_max)
  have lt: "Suc (ring_used r) < ?c"
    using mod_less_divisor [of ?c "increment ?c ?h + ?c - ?t"] b used by simp
  have "(?t + ring_used r) mod ?c = ?h"
    using used_head [OF b(1,2)] by (simp add: ring_used_def)
  moreover have "ring_used r < ?c" using lt by simp
  ultimately have "cyc ((rb_buffer r)[?h := x]) ?t (Suc (ring_used r)) = ring_items r @ [x]"
    using b cyc_update_end [of "ring_used r" "rb_buffer r" ?t ?h x]
    by (simp add: cyc_snoc ring_items_def capacity_def)
  then show ?thesis
    using b used lt increment_less [OF b(1)] by (simp add: r' ring_defs)
qed

lemma tryPop_None_iff: "ring_wf r \<Longrightarrow> tryPop r = None \<longleftrightarrow> ring_items r = []"
  using used_empty [of "rb_head r" "capacity r" "rb_tail r"] length_ring_items [of r]
  by (auto simp: tryPop_def Let_def ring_wf_def ring_used_def)

lemma tryPop_ok:
  assumes "ring_wf r" "tryPop r = Some (x, r')"
  shows "ring_items r = x # ring_items r' \<and> ring_wf r' \<and> capacity r' = capacity r
    \<and> rb_dropped r' = rb_dropped r \<and> rb_highWaterMark r' = rb_highWaterMark r"
proof -
  let ?c = "capacity r" and ?h = "rb_head r" and ?t = "rb_tail r"
  have b: "?h < ?c" "?t < ?c" "ring_used r \<le> rb_highWaterMark r"
    using assms(1) by (auto simp: ring_wf_def)
  have ne: "?t \<noteq> ?h" and x: "x = rb_buffer r ! ?t"
    and r': "r' = r\<lparr>rb_tail := increment ?c ?t\<rparr>"
    using assms(2) by (auto simp: tryPop_def Let_def split: if_splits)
  have used: "ring_used r = Suc (ring_used r')"
    using used_pop [OF b(1,2) ne] by (simp add: ring_used_def r' capacity_def)
  have "ring_items r = x # ring_items r'"
    using cyc_Cons [of ?t "rb_buffer r" "ring_used r'"] b
    by (simp add: ring_items_def used) (simp add: x r' increment_def capacity_def)
  moreover have "ring_wf r'"
    using assms(1) used increment_less [OF b(2)] by (simp add: ring_wf_def r' capacity_def)
  ultimately show ?thesis by (simp add: r' capacity_def)
qed


section \<open>The interface of a bounded queue\<close>

text \<open>
  What the clients of the buffer call and rely on: a push that reports whether it stored the
  item, a pop that returns the oldest item, and the contents in order.
\<close>

locale bounded_fifo =
  fixes push :: "'a \<Rightarrow> 'q \<Rightarrow> bool \<times> 'q"
    and pop :: "'q \<Rightarrow> ('a \<times> 'q) option"
    and items :: "'q \<Rightarrow> 'a list"
    and wf :: "'q \<Rightarrow> bool"
    and limit :: "'q \<Rightarrow> nat"
  assumes limit_items: "wf q \<Longrightarrow> length (items q) \<le> limit q"
    and push_stores: "wf q \<Longrightarrow> fst (push x q) \<longleftrightarrow> length (items q) < limit q"
    and push_items: "wf q \<Longrightarrow> items (snd (push x q)) = (if fst (push x q) then items q @ [x] else items q)"
    and push_wf: "wf q \<Longrightarrow> wf (snd (push x q))"
    and push_limit: "wf q \<Longrightarrow> limit (snd (push x q)) = limit q"
    and pop_empty: "wf q \<Longrightarrow> pop q = None \<longleftrightarrow> items q = []"
    and pop_first: "wf q \<Longrightarrow> pop q = Some (x, q') \<Longrightarrow> items q = x # items q'"
    and pop_wf: "wf q \<Longrightarrow> pop q = Some (x, q') \<Longrightarrow> wf q'"
    and pop_limit: "wf q \<Longrightarrow> pop q = Some (x, q') \<Longrightarrow> limit q' = limit q"

text \<open>A sequence of calls, with the items a push accepted and the items a pop returned.\<close>

datatype 'a fifo_op = Push 'a | Pop

fun run_ops :: "('a \<Rightarrow> 'q \<Rightarrow> bool \<times> 'q) \<Rightarrow> ('q \<Rightarrow> ('a \<times> 'q) option) \<Rightarrow> 'a fifo_op list
    \<Rightarrow> 'q \<Rightarrow> 'a list \<times> 'a list \<times> 'q" where
  "run_ops push pop [] q = ([], [], q)"
| "run_ops push pop (Push x # ops) q =
     (let (ok, q1) = push x q; (acc, out, q2) = run_ops push pop ops q1
      in (if ok then x # acc else acc, out, q2))"
| "run_ops push pop (Pop # ops) q =
     (case pop q of
        None \<Rightarrow> run_ops push pop ops q
      | Some (x, q1) \<Rightarrow> let (acc, out, q2) = run_ops push pop ops q1 in (acc, x # out, q2))"

context bounded_fifo
begin

lemmas fifo_specs = limit_items push_stores push_items push_wf push_limit pop_empty
  pop_first pop_wf pop_limit

lemma pop_nonempty:
  assumes "wf q" "items q = x # xs"
  obtains q' where "pop q = Some (x, q')" "items q' = xs" "wf q'" "limit q' = limit q"
proof -
  have "pop q \<noteq> None" using assms by (simp add: pop_empty)
  then obtain y q' where y: "pop q = Some (y, q')" by auto
  with assms pop_first [OF assms(1) y] have "y = x" "items q' = xs" by auto
  with y that show ?thesis by (simp add: pop_wf [OF assms(1) y] pop_limit [OF assms(1) y])
qed

text \<open>Exactly once and in order: what was in the queue and what went in is what came out and
  what is left.\<close>

lemma run_in_order:
  assumes "wf q" "run_ops push pop ops q = (acc, out, q')"
  shows "items q @ acc = out @ items q' \<and> wf q' \<and> limit q' = limit q"
  using assms
proof (induction ops arbitrary: q acc out q')
  case Nil
  then show ?case by simp
next
  case (Cons op ops)
  show ?case
  proof (cases op)
    case (Push x)
    obtain ok q1 where p: "push x q = (ok, q1)" by fastforce
    obtain acc1 out1 q2 where r: "run_ops push pop ops q1 = (acc1, out1, q2)" by (metis prod_cases3)
    have "wf q1" "limit q1 = limit q" "items q1 = (if ok then items q @ [x] else items q)"
      using push_wf [of q x] push_limit [of q x] push_items [of q x] Cons.prems(1) p by auto
    moreover from this have "items q1 @ acc1 = out1 @ items q2 \<and> wf q2 \<and> limit q2 = limit q1"
      using Cons.IH r by blast
    ultimately show ?thesis using Cons.prems(2) Push p r by auto
  next
    case Pop
    show ?thesis
    proof (cases "pop q")
      case None
      with Cons Pop show ?thesis by simp
    next
      case (Some res)
      then obtain x q1 where res: "pop q = Some (x, q1)" by (cases res) auto
      obtain acc1 out1 q2 where r: "run_ops push pop ops q1 = (acc1, out1, q2)"
        by (metis prod_cases3)
      have "items q = x # items q1" "wf q1" "limit q1 = limit q"
        using res Cons.prems(1) by (auto dest: pop_first pop_wf pop_limit)
      moreover from this have "items q1 @ acc1 = out1 @ items q2 \<and> wf q2 \<and> limit q2 = limit q1"
        using Cons.IH r by blast
      ultimately show ?thesis using Cons.prems(2) Pop res r by auto
    qed
  qed
qed

end

lemma tryPush_wf: "ring_wf r \<Longrightarrow> ring_wf (snd (tryPush x r))"
  by (cases "fst (tryPush x r)") (auto dest: tryPush_ok tryPush_fail)

lemma tryPush_items:
  "ring_wf r \<Longrightarrow>
    ring_items (snd (tryPush x r)) = (if fst (tryPush x r) then ring_items r @ [x] else ring_items r)"
  by (cases "fst (tryPush x r)") (auto dest: tryPush_ok tryPush_fail)

lemma tryPush_limit: "ring_wf r \<Longrightarrow> ring_limit (snd (tryPush x r)) = ring_limit r"
  by (cases "fst (tryPush x r)") (auto dest: tryPush_ok tryPush_fail simp: ring_limit_def)

interpretation ringq: bounded_fifo tryPush tryPop ring_items ring_wf ring_limit
proof unfold_locales
  fix q q' :: "'a ring" and x :: 'a
  assume wf: "ring_wf q"
  show "length (ring_items q) \<le> ring_limit q" by (rule ring_items_bound [OF wf])
  show "fst (tryPush x q) \<longleftrightarrow> length (ring_items q) < ring_limit q" by (rule tryPush_full_iff [OF wf])
  show "ring_items (snd (tryPush x q)) = (if fst (tryPush x q) then ring_items q @ [x] else ring_items q)"
    by (rule tryPush_items [OF wf])
  show "ring_wf (snd (tryPush x q))" by (rule tryPush_wf [OF wf])
  show "ring_limit (snd (tryPush x q)) = ring_limit q" by (rule tryPush_limit [OF wf])
  show "tryPop q = None \<longleftrightarrow> ring_items q = []" by (rule tryPop_None_iff [OF wf])
  assume pop: "tryPop q = Some (x, q')"
  show "ring_items q = x # ring_items q'" "ring_wf q'" "ring_limit q' = ring_limit q"
    using tryPop_ok [OF wf pop] by (auto simp: ring_limit_def)
qed

end
