(* ===== verification/SpScPush.thy ===== *)
theory SpScPush
  imports SpScRing
begin

text \<open>
  The blocking \<open>push\<close> of \<^verbatim>\<open>SpScRingBuffer.h\<close>: a spin loop that retries until the
  consumer has made room or the timeout has passed. The loop depends on two things outside the
  producer: how many items the consumer pops before iteration \<open>i\<close> (\<open>consumed i\<close>), and the time
  since the start that \<open>steady_clock\<close> shows at iteration \<open>i\<close> (\<open>elapsed i\<close>, in nanoseconds).
  Both are parameters. The loop need not end, so it is a \<^theory_text>\<open>partial_function\<close>, and
  that it returns is a theorem.
\<close>

fun consumer_pops :: "nat \<Rightarrow> 'a ring \<Rightarrow> 'a ring" where
  "consumer_pops 0 r = r"
| "consumer_pops (Suc n) r =
     (case tryPop r of None \<Rightarrow> r | Some (_, r') \<Rightarrow> consumer_pops n r')"

text \<open>
  \<open>spinCount\<close> is the 64-bit counter of the code, \<open>i\<close> the number of the iteration. The clock
  is read only every 1000 spins.
\<close>

partial_function (option) push_loop ::
  "(nat \<Rightarrow> nat) \<Rightarrow> (nat \<Rightarrow> nat) \<Rightarrow> 'a \<Rightarrow> nat \<Rightarrow> u64 \<Rightarrow> nat \<Rightarrow> 'a ring \<Rightarrow> (bool \<times> 'a ring) option"
where
  "push_loop elapsed consumed item timeoutNs spinCount i r0 =
     (let r = consumer_pops (consumed i) r0;
          currentHead = rb_head r;
          nextHead = increment (capacity r) currentHead
      in if nextHead \<noteq> rb_tail r
         then Some (True, updateHighWaterMark [] nextHead
                (r\<lparr>rb_buffer := (rb_buffer r)[currentHead := item], rb_head := nextHead\<rparr>))
         else if spinCount mod 1000 = 0 \<and> elapsed i \<ge> timeoutNs then Some (False, r)
         else push_loop elapsed consumed item timeoutNs (spinCount + 1) (Suc i) r)"

definition push :: "(nat \<Rightarrow> nat) \<Rightarrow> (nat \<Rightarrow> nat) \<Rightarrow> 'a \<Rightarrow> u32 \<Rightarrow> 'a ring \<Rightarrow> (bool \<times> 'a ring) option" where
  "push elapsed consumed item timeoutMs r =
     push_loop elapsed consumed item (unat timeoutMs * 1000000) 0 0 r"

definition pushWithTimeout ::
  "(nat \<Rightarrow> nat) \<Rightarrow> (nat \<Rightarrow> nat) \<Rightarrow> 'a \<Rightarrow> u32 \<Rightarrow> 'a ring \<Rightarrow> (bool \<times> 'a ring) option" where
  "pushWithTimeout elapsed consumed item timeoutMs r = push elapsed consumed item timeoutMs r"

section \<open>The loop body in terms of the queue\<close>

lemma consumer_pops_spec:
  "ring_wf r \<Longrightarrow> ring_wf (consumer_pops n r) \<and> ring_items (consumer_pops n r) = drop n (ring_items r)
     \<and> ring_limit (consumer_pops n r) = ring_limit r \<and> rb_dropped (consumer_pops n r) = rb_dropped r"
proof (induction n arbitrary: r)
  case (Suc n)
  then show ?case
  proof (cases "tryPop r")
    case None
    then show ?thesis using Suc.prems tryPop_None_iff [OF Suc.prems] by simp
  next
    case (Some res)
    then obtain x r' where "tryPop r = Some (x, r')" by (cases res) auto
    then show ?thesis
      using Suc.IH [of r'] tryPop_ok [OF Suc.prems] by (auto simp: ring_limit_def)
  qed
qed simp

text \<open>One iteration, with \<open>k\<close> for what follows it and \<open>timeup\<close> for the clock check.\<close>

lemma push_body:
  assumes "ring_wf r0"
  shows "(let r = consumer_pops n r0; currentHead = rb_head r; nextHead = increment (capacity r) currentHead
      in if nextHead \<noteq> rb_tail r
         then Some (True, updateHighWaterMark [] nextHead
                (r\<lparr>rb_buffer := (rb_buffer r)[currentHead := item], rb_head := nextHead\<rparr>))
         else if timeup then Some (False, r) else k r)
    = (let r = consumer_pops n r0
       in if length (ring_items r) < ring_limit r0 then Some (True, snd (tryPush item r))
          else if timeup then Some (False, r) else k r)"
proof -
  let ?r = "consumer_pops n r0"
  have "fst (tryPush item ?r) \<longleftrightarrow> length (ring_items ?r) < ring_limit r0"
    using consumer_pops_spec [OF assms, of n] tryPush_full_iff [of ?r item] by simp
  then show ?thesis
    by (auto simp: tryPush_def Let_def split: if_splits)
qed

lemma push_loop_step:
  assumes "ring_wf r0"
  shows "push_loop elapsed consumed item tmo spin i r0
    = (let r = consumer_pops (consumed i) r0
       in if length (ring_items r) < ring_limit r0 then Some (True, snd (tryPush item r))
          else if spin mod 1000 = 0 \<and> elapsed i \<ge> tmo then Some (False, r)
          else push_loop elapsed consumed item tmo (spin + 1) (Suc i) r)"
  by (subst push_loop.simps) (rule push_body [OF assms])

section \<open>Termination and result\<close>

lemma push_loop_returns:
  assumes "ring_wf r" "spin = of_nat i" "elapsed (i + d) \<ge> tmo" "(of_nat (i + d) :: u64) mod 1000 = 0"
  shows "push_loop elapsed consumed item tmo spin i r \<noteq> None"
  using assms
proof (induction d arbitrary: i r spin)
  case 0
  then show ?case by (auto simp: push_loop_step Let_def)
next
  case (Suc d)
  let ?r = "consumer_pops (consumed i) r"
  have "push_loop elapsed consumed item tmo (spin + 1) (Suc i) ?r \<noteq> None"
    using Suc.prems consumer_pops_spec [OF Suc.prems(1)] by (intro Suc.IH) (auto simp: add.commute)
  then show ?case
    by (auto simp: push_loop_step [OF Suc.prems(1)] Let_def)
qed

text \<open>
  The clock is read when \<open>spinCount\<close> is a multiple of 1000, in particular each time the 64-bit
  counter is back at 0, so a clock that passes the timeout for good is noticed.
\<close>

lemma push_returns:
  assumes "ring_wf r" "\<And>i. N \<le> i \<Longrightarrow> unat timeoutMs * 1000000 \<le> elapsed i"
  shows "\<exists>ok r'. push elapsed consumed item timeoutMs r = Some (ok, r')"
proof -
  have "(of_nat (2 ^ 64 * N) :: u64) = 0"
    by (simp only: word_of_nat_eq_0_iff) simp
  then have "push_loop elapsed consumed item (unat timeoutMs * 1000000) 0 0 r \<noteq> None"
    using assms by (intro push_loop_returns [where d = "2 ^ 64 * N"]) auto
  then show ?thesis by (auto simp: push_def)
qed

definition push_post :: "(nat \<Rightarrow> nat) \<Rightarrow> 'a \<Rightarrow> nat \<Rightarrow> nat \<Rightarrow> 'a ring \<Rightarrow> bool \<times> 'a ring \<Rightarrow> bool" where
  "push_post elapsed item tmo i r res \<longleftrightarrow> (case res of (ok, r') \<Rightarrow>
     (\<exists>k. ring_items r' = drop k (ring_items r) @ (if ok then [item] else []))
     \<and> ring_wf r' \<and> ring_limit r' = ring_limit r \<and> rb_dropped r' = rb_dropped r
     \<and> (\<not> ok \<longrightarrow> length (ring_items r') = ring_limit r \<and> (\<exists>j\<ge>i. tmo \<le> elapsed j)))"

lemma push_post_now:
  assumes "ring_wf r0" "length (ring_items (consumer_pops n r0)) < ring_limit r0"
  shows "push_post elapsed item tmo i r0 (True, snd (tryPush item (consumer_pops n r0)))"
proof -
  let ?r = "consumer_pops n r0"
  have "fst (tryPush item ?r)" "ring_wf ?r"
    using consumer_pops_spec [OF assms(1), of n] assms(2) tryPush_full_iff [of ?r item] by auto
  then show ?thesis
    using tryPush_ok consumer_pops_spec [OF assms(1), of n]
    by (fastforce simp: push_post_def tryPush_limit)
qed

lemma push_post_later:
  assumes "ring_wf r0" "push_post elapsed item tmo (Suc i) (consumer_pops n r0) res"
  shows "push_post elapsed item tmo i r0 res"
  using assms consumer_pops_spec [OF assms(1), of n]
  by (auto simp: push_post_def) (metis Suc_leD drop_drop)+

lemma push_post_timeout:
  assumes "ring_wf r0" "\<not> length (ring_items (consumer_pops n r0)) < ring_limit r0" "tmo \<le> elapsed i"
  shows "push_post elapsed item tmo i r0 (False, consumer_pops n r0)"
  using assms consumer_pops_spec [OF assms(1), of n] ring_items_bound [of "consumer_pops n r0"]
  by (auto simp: push_post_def)

lemma push_loop_post:
  assumes ret: "push_loop elapsed consumed item tmo spin i r = Some res" and wf: "ring_wf r"
  shows "push_post elapsed item tmo i r res"
proof -
  have "ring_wf r \<longrightarrow> push_post elapsed item tmo i r res"
  proof (rule push_loop.raw_induct [where
        P = "\<lambda>elapsed consumed item tmo spin i r res. ring_wf r \<longrightarrow> push_post elapsed item tmo i r res",
        OF _ ret])
    fix f :: "(nat \<Rightarrow> nat) \<Rightarrow> (nat \<Rightarrow> nat) \<Rightarrow> 'a \<Rightarrow> nat \<Rightarrow> u64 \<Rightarrow> nat \<Rightarrow> 'a ring \<Rightarrow> (bool \<times> 'a ring) option"
    fix elapsed consumed item tmo spin i r0 res
    assume IH: "\<And>elapsed consumed item tmo spin i r res.
        f elapsed consumed item tmo spin i r = Some res
        \<Longrightarrow> ring_wf r \<longrightarrow> push_post elapsed item tmo i r res"
      and body: "(let r = consumer_pops (consumed i) r0; currentHead = rb_head r;
            nextHead = increment (capacity r) currentHead
          in if nextHead \<noteq> rb_tail r
             then Some (True, updateHighWaterMark [] nextHead
                    (r\<lparr>rb_buffer := (rb_buffer r)[currentHead := item], rb_head := nextHead\<rparr>))
             else if spin mod 1000 = 0 \<and> elapsed i \<ge> tmo then Some (False, r)
             else f elapsed consumed item tmo (spin + 1) (Suc i) r) = Some res"
    show "ring_wf r0 \<longrightarrow> push_post elapsed item tmo i r0 res"
    proof
      assume wf0: "ring_wf r0"
      let ?r = "consumer_pops (consumed i) r0"
      have "(if length (ring_items ?r) < ring_limit r0 then Some (True, snd (tryPush item ?r))
          else if spin mod 1000 = 0 \<and> elapsed i \<ge> tmo then Some (False, ?r)
          else f elapsed consumed item tmo (spin + 1) (Suc i) ?r) = Some res"
        by (rule trans [OF _ body], subst push_body [OF wf0]) (simp add: Let_def)
      then consider "length (ring_items ?r) < ring_limit r0" "res = (True, snd (tryPush item ?r))"
        | "\<not> length (ring_items ?r) < ring_limit r0" "elapsed i \<ge> tmo" "res = (False, ?r)"
        | "f elapsed consumed item tmo (spin + 1) (Suc i) ?r = Some res"
        by (metis option.inject)
      then show "push_post elapsed item tmo i r0 res"
      proof cases
        case 1
        then show ?thesis using push_post_now [OF wf0] by simp
      next
        case 2
        then show ?thesis using push_post_timeout [OF wf0] by simp
      next
        case 3
        have "ring_wf ?r" using consumer_pops_spec [OF wf0] by blast
        with IH [OF 3] have "push_post elapsed item tmo (Suc i) ?r res" by blast
        then show ?thesis by (rule push_post_later [OF wf0])
      qed
    qed
  qed
  with wf show ?thesis by blast
qed

end
