(* ===== verification/SpScConc.thy ===== *)
theory SpScConc
  imports SpScRing
begin

text \<open>
  The ring buffer of \<^verbatim>\<open>SpScRingBuffer.h\<close> with one producer and one consumer thread
  interleaved. Every atomic load, store and read-modify-write and every access to a cell of the
  array is a step of its own; a thread's position between two accesses, with the values of its
  local variables, is its program counter. Shared memory is the record \<open>ring\<close>, with the accesses
  in the order of the program text (the acquire and release pairs on \<open>_head\<close> and \<open>_tail\<close>
  publish a cell before its index). The values published by the producer (\<open>pushed\<close>) and
  returned by the consumer (\<open>popped\<close>) are recorded as histories.
\<close>

section \<open>Program counters\<close>

text \<open>
  The producer in \<open>tryPush\<close> and \<open>push\<close>: before \<open>_head.load\<close> (idle), before \<open>_tail.load\<close>, before
  \<open>_dropped.fetch_add\<close>, before the cell is written, before \<open>_head.store\<close>, and the three accesses of
  \<open>updateHighWaterMark\<close>.
\<close>

datatype 'a producer_pc =
  P_Idle
| P_LoadTail 'a nat
| P_Drop
| P_Write 'a nat nat
| P_StoreHead 'a nat
| P_LoadHwm nat
| P_LoadUsed nat nat
| P_Cas nat nat

text \<open>The consumer in \<open>tryPop\<close>.\<close>

datatype 'a consumer_pc =
  C_Idle
| C_LoadHead nat
| C_Read nat
| C_StoreTail nat 'a

record 'a spsc =
  shared :: "'a ring"
  ppc :: "'a producer_pc"
  cpc :: "'a consumer_pc"
  pushed :: "'a list"
  popped :: "'a list"

definition spsc_init :: "'a list \<Rightarrow> 'a spsc" where
  "spsc_init b = \<lparr>shared = ring_new b, ppc = P_Idle, cpc = C_Idle, pushed = [], popped = []\<rparr>"

section \<open>Steps\<close>

text \<open>
  The producer's steps. From \<open>P_LoadTail\<close> with a full buffer \<open>tryPush\<close> counts a drop, while
  \<open>push\<close> either starts over (\<open>p_retry\<close>) or gives up at its timeout (\<open>p_timeout\<close>).
  \<open>compare_exchange_weak\<close> may fail at any time, and then reloads the mark.
\<close>

inductive producer_step :: "'a spsc \<Rightarrow> 'a spsc \<Rightarrow> bool" where
  p_load_head: "ppc s = P_Idle \<Longrightarrow>
    producer_step s (s\<lparr>ppc := P_LoadTail item (rb_head (shared s))\<rparr>)"
| p_full: "ppc s = P_LoadTail item currentHead \<Longrightarrow>
    increment (capacity (shared s)) currentHead = rb_tail (shared s) \<Longrightarrow>
    producer_step s (s\<lparr>ppc := P_Drop\<rparr>)"
| p_retry: "ppc s = P_LoadTail item currentHead \<Longrightarrow>
    increment (capacity (shared s)) currentHead = rb_tail (shared s) \<Longrightarrow>
    producer_step s (s\<lparr>ppc := P_LoadTail item (rb_head (shared s))\<rparr>)"
| p_timeout: "ppc s = P_LoadTail item currentHead \<Longrightarrow>
    increment (capacity (shared s)) currentHead = rb_tail (shared s) \<Longrightarrow>
    producer_step s (s\<lparr>ppc := P_Idle\<rparr>)"
| p_room: "ppc s = P_LoadTail item currentHead \<Longrightarrow>
    increment (capacity (shared s)) currentHead \<noteq> rb_tail (shared s) \<Longrightarrow>
    producer_step s (s\<lparr>ppc := P_Write item currentHead (increment (capacity (shared s)) currentHead)\<rparr>)"
| p_drop: "ppc s = P_Drop \<Longrightarrow>
    producer_step s (s\<lparr>shared := (shared s)\<lparr>rb_dropped := rb_dropped (shared s) + 1\<rparr>, ppc := P_Idle\<rparr>)"
| p_write: "ppc s = P_Write item currentHead nextHead \<Longrightarrow>
    producer_step s (s\<lparr>shared := (shared s)\<lparr>rb_buffer := (rb_buffer (shared s))[currentHead := item]\<rparr>,
      ppc := P_StoreHead item nextHead\<rparr>)"
| p_store_head: "ppc s = P_StoreHead item nextHead \<Longrightarrow>
    producer_step s (s\<lparr>shared := (shared s)\<lparr>rb_head := nextHead\<rparr>, ppc := P_LoadHwm nextHead,
      pushed := pushed s @ [item]\<rparr>)"
| p_load_hwm: "ppc s = P_LoadHwm nextHead \<Longrightarrow>
    producer_step s (s\<lparr>ppc := P_LoadUsed nextHead (rb_highWaterMark (shared s))\<rparr>)"
| p_load_used: "ppc s = P_LoadUsed nextHead currentHigh \<Longrightarrow>
    producer_step s (s\<lparr>ppc := P_Cas currentHigh
      ((nextHead + capacity (shared s) - rb_tail (shared s)) mod capacity (shared s))\<rparr>)"
| p_cas_done: "ppc s = P_Cas currentHigh used \<Longrightarrow> \<not> used > currentHigh \<Longrightarrow>
    producer_step s (s\<lparr>ppc := P_Idle\<rparr>)"
| p_cas_ok: "ppc s = P_Cas currentHigh used \<Longrightarrow> used > currentHigh \<Longrightarrow>
    rb_highWaterMark (shared s) = currentHigh \<Longrightarrow>
    producer_step s (s\<lparr>shared := (shared s)\<lparr>rb_highWaterMark := used\<rparr>, ppc := P_Idle\<rparr>)"
| p_cas_fail: "ppc s = P_Cas currentHigh used \<Longrightarrow> used > currentHigh \<Longrightarrow>
    producer_step s (s\<lparr>ppc := P_Cas (rb_highWaterMark (shared s)) used\<rparr>)"

inductive consumer_step :: "'a spsc \<Rightarrow> 'a spsc \<Rightarrow> bool" where
  c_load_tail: "cpc s = C_Idle \<Longrightarrow>
    consumer_step s (s\<lparr>cpc := C_LoadHead (rb_tail (shared s))\<rparr>)"
| c_empty: "cpc s = C_LoadHead currentTail \<Longrightarrow> currentTail = rb_head (shared s) \<Longrightarrow>
    consumer_step s (s\<lparr>cpc := C_Idle\<rparr>)"
| c_some: "cpc s = C_LoadHead currentTail \<Longrightarrow> currentTail \<noteq> rb_head (shared s) \<Longrightarrow>
    consumer_step s (s\<lparr>cpc := C_Read currentTail\<rparr>)"
| c_read: "cpc s = C_Read currentTail \<Longrightarrow>
    consumer_step s (s\<lparr>cpc := C_StoreTail currentTail (rb_buffer (shared s) ! currentTail)\<rparr>)"
| c_store_tail: "cpc s = C_StoreTail currentTail item \<Longrightarrow>
    consumer_step s (s\<lparr>shared := (shared s)\<lparr>rb_tail := increment (capacity (shared s)) currentTail\<rparr>,
      cpc := C_Idle, popped := popped s @ [item]\<rparr>)"

definition spsc_step :: "'a spsc \<Rightarrow> 'a spsc \<Rightarrow> bool" where
  "spsc_step s s' \<longleftrightarrow> producer_step s s' \<or> consumer_step s s'"

inductive spsc_reachable :: "'a list \<Rightarrow> 'a spsc \<Rightarrow> bool" for b where
  start: "spsc_reachable b (spsc_init b)"
| step: "spsc_reachable b s \<Longrightarrow> spsc_step s s' \<Longrightarrow> spsc_reachable b s'"

section \<open>The invariant\<close>

text \<open>
  What each thread's local variables say about shared memory. The other thread's steps keep it:
  the consumer can move \<open>_tail\<close> towards \<open>_head\<close> but not past it, the producer never moves
  \<open>_head\<close> onto \<open>_tail\<close>.
\<close>

definition producer_inv :: "'a ring \<Rightarrow> 'a producer_pc \<Rightarrow> bool" where
  "producer_inv r pc \<longleftrightarrow> (case pc of
     P_Idle \<Rightarrow> True
   | P_LoadTail item h \<Rightarrow> h = rb_head r
   | P_Drop \<Rightarrow> True
   | P_Write item h n \<Rightarrow> h = rb_head r \<and> n = increment (capacity r) h \<and> n \<noteq> rb_tail r
   | P_StoreHead item n \<Rightarrow> n = increment (capacity r) (rb_head r) \<and> n \<noteq> rb_tail r
       \<and> rb_buffer r ! rb_head r = item
   | P_LoadHwm n \<Rightarrow> n = rb_head r
   | P_LoadUsed n high \<Rightarrow> n = rb_head r \<and> high = rb_highWaterMark r
   | P_Cas high used \<Rightarrow> used < capacity r \<and> high = rb_highWaterMark r)"

definition consumer_inv :: "'a ring \<Rightarrow> 'a consumer_pc \<Rightarrow> bool" where
  "consumer_inv r pc \<longleftrightarrow> (case pc of
     C_Idle \<Rightarrow> True
   | C_LoadHead t \<Rightarrow> t = rb_tail r
   | C_Read t \<Rightarrow> t = rb_tail r \<and> t \<noteq> rb_head r
   | C_StoreTail t item \<Rightarrow> t = rb_tail r \<and> t \<noteq> rb_head r \<and> item = rb_buffer r ! t)"

definition ring_bounds :: "'a ring \<Rightarrow> bool" where
  "ring_bounds r \<longleftrightarrow> rb_head r < capacity r \<and> rb_tail r < capacity r \<and> rb_highWaterMark r < capacity r"

definition spsc_inv :: "nat \<Rightarrow> 'a spsc \<Rightarrow> bool" where
  "spsc_inv c s \<longleftrightarrow> capacity (shared s) = c \<and> ring_bounds (shared s)
     \<and> producer_inv (shared s) (ppc s) \<and> consumer_inv (shared s) (cpc s)
     \<and> pushed s = popped s @ ring_items (shared s)"

lemmas spsc_inv_defs = spsc_inv_def producer_inv_def consumer_inv_def ring_bounds_def

lemma capacity_update_simps [simp]:
  "capacity (r\<lparr>rb_head := h\<rparr>) = capacity r"
  "capacity (r\<lparr>rb_tail := t\<rparr>) = capacity r"
  "capacity (r\<lparr>rb_highWaterMark := w\<rparr>) = capacity r"
  "capacity (r\<lparr>rb_buffer := (rb_buffer r)[i := x]\<rparr>) = capacity r"
  by (simp_all add: capacity_def)

lemma ring_items_hwm [simp]: "ring_items (r\<lparr>rb_highWaterMark := w\<rparr>) = ring_items r"
  by (simp add: ring_defs)

lemma ring_items_write:
  assumes "ring_bounds r"
  shows "ring_items (r\<lparr>rb_buffer := (rb_buffer r)[rb_head r := x]\<rparr>) = ring_items r"
proof -
  have b: "rb_head r < capacity r" "rb_tail r < capacity r"
    using assms by (auto simp: ring_bounds_def)
  have "ring_used r < capacity r" "(rb_tail r + ring_used r) mod capacity r = rb_head r"
    using b used_head [OF b] by (auto simp: ring_used_def)
  then have "cyc ((rb_buffer r)[rb_head r := x]) (rb_tail r) (ring_used r)
      = cyc (rb_buffer r) (rb_tail r) (ring_used r)"
    using b by (intro cyc_update_end) (simp_all add: capacity_def)
  then show ?thesis by (simp add: ring_items_def ring_used_def)
qed

lemma ring_items_store_head:
  assumes "ring_bounds r" "n = increment (capacity r) (rb_head r)" "n \<noteq> rb_tail r"
  shows "ring_items (r\<lparr>rb_head := n\<rparr>) = ring_items r @ [rb_buffer r ! rb_head r]"
proof -
  have b: "rb_head r < capacity r" "rb_tail r < capacity r"
    using assms by (auto simp: ring_bounds_def)
  have "ring_used (r\<lparr>rb_head := n\<rparr>) = Suc (ring_used r)"
    using used_push [OF b] assms(2,3) by (simp add: ring_used_def)
  then show ?thesis
    using used_head [OF b] by (simp add: ring_items_def cyc_snoc ring_used_def capacity_def)
qed

lemma ring_items_store_tail:
  assumes "ring_bounds r" "rb_tail r \<noteq> rb_head r"
  shows "ring_items r
    = rb_buffer r ! rb_tail r # ring_items (r\<lparr>rb_tail := increment (capacity r) (rb_tail r)\<rparr>)"
proof -
  let ?r = "r\<lparr>rb_tail := increment (capacity r) (rb_tail r)\<rparr>"
  have b: "rb_head r < capacity r" "rb_tail r < capacity r"
    using assms by (auto simp: ring_bounds_def)
  have "ring_used r = Suc (ring_used ?r)"
    using used_pop [OF b assms(2)] by (simp add: ring_used_def)
  then show ?thesis
    using cyc_Cons [of "rb_tail r" "rb_buffer r" "ring_used ?r"] b
    by (simp add: ring_items_def increment_def capacity_def)
qed

lemma nth_write_same [simp]:
  "i < capacity r \<Longrightarrow> (rb_buffer r)[i := x] ! i = x"
  by (simp add: capacity_def)

lemma increment_inj: "i < c \<Longrightarrow> j < c \<Longrightarrow> increment c i = increment c j \<longleftrightarrow> i = j"
  by (auto simp: increment_def split: if_splits)

lemma producer_step_inv: "producer_step s s' \<Longrightarrow> spsc_inv c s \<Longrightarrow> spsc_inv c s'"
  by (induction rule: producer_step.induct)
    (auto simp: spsc_inv_defs increment_less ring_items_write ring_items_store_head nth_list_update
      split: consumer_pc.splits)

lemma consumer_step_inv: "consumer_step s s' \<Longrightarrow> spsc_inv c s \<Longrightarrow> spsc_inv c s'"
  by (induction rule: consumer_step.induct)
    (auto simp: spsc_inv_defs increment_less increment_inj ring_items_store_tail
      split: producer_pc.splits)


lemma spsc_step_inv: "spsc_step s s' \<Longrightarrow> spsc_inv c s \<Longrightarrow> spsc_inv c s'"
  unfolding spsc_step_def by (auto intro: producer_step_inv consumer_step_inv)

lemma spsc_inv_init: "b \<noteq> [] \<Longrightarrow> spsc_inv (length b) (spsc_init b)"
  by (simp add: spsc_inv_defs spsc_init_def ring_new_def ring_defs)

lemma spsc_reachable_inv: "spsc_reachable b s \<Longrightarrow> b \<noteq> [] \<Longrightarrow> spsc_inv (length b) s"
  by (induction rule: spsc_reachable.induct) (auto intro: spsc_inv_init spsc_step_inv)

section \<open>Consequences\<close>

text \<open>The two threads never access the same cell at the same time.\<close>

definition cell_race :: "'a spsc \<Rightarrow> bool" where
  "cell_race s \<longleftrightarrow> (case (ppc s, cpc s) of (P_Write _ h _, C_Read t) \<Rightarrow> h = t | _ \<Rightarrow> False)"

lemma spsc_inv_no_race: "spsc_inv c s \<Longrightarrow> \<not> cell_race s"
  by (auto simp: spsc_inv_defs cell_race_def split: producer_pc.splits consumer_pc.splits)

lemma spsc_inv_items: "spsc_inv c s \<Longrightarrow> pushed s = popped s @ ring_items (shared s)"
  by (simp add: spsc_inv_def)

lemma spsc_inv_bound: "spsc_inv c s \<Longrightarrow> length (ring_items (shared s)) < c"
  by (auto simp: spsc_inv_defs length_ring_items ring_used_def)

text \<open>
  The abstract queue behind the interleaving: each step leaves it alone, appends one item when
  there is room, or removes the first.
\<close>

definition queue_step :: "nat \<Rightarrow> 'a list \<Rightarrow> 'a list \<Rightarrow> bool" where
  "queue_step limit q q' \<longleftrightarrow> q' = q \<or> (length q < limit \<and> (\<exists>x. q' = q @ [x])) \<or> (\<exists>x. q = x # q')"

lemma producer_step_queue:
  assumes "producer_step s s'" "spsc_inv c s"
  shows "queue_step (c - 1) (ring_items (shared s)) (ring_items (shared s'))"
proof -
  have "spsc_inv c s'" using producer_step_inv assms by blast
  from assms spsc_inv_bound [OF this] show ?thesis
    by (induction rule: producer_step.induct)
      (auto simp: spsc_inv_defs queue_step_def ring_items_write ring_items_store_head)
qed

lemma consumer_step_queue:
  "consumer_step s s' \<Longrightarrow> spsc_inv c s
    \<Longrightarrow> queue_step (c - 1) (ring_items (shared s)) (ring_items (shared s'))"
  by (induction rule: consumer_step.induct)
    (auto simp: spsc_inv_defs queue_step_def ring_items_store_tail)

lemma spsc_step_queue:
  "spsc_step s s' \<Longrightarrow> spsc_inv c s
    \<Longrightarrow> queue_step (c - 1) (ring_items (shared s)) (ring_items (shared s'))"
  unfolding spsc_step_def using producer_step_queue consumer_step_queue by blast

end
