(* ===== verification/OrderData.thy ===== *)
theory OrderData
  imports Prelude
begin

text \<open>
  The data of \<^verbatim>\<open>libs/match\<close>: the sentinel values of \<^verbatim>\<open>Constants.h\<close>, the order of
  \<^verbatim>\<open>Order.h\<close> with its fixed-length symbol, and the pool entry of \<^verbatim>\<open>OrderBookEntry.h\<close>. A
  \<open>char\<close> is a byte; where the code leaves bytes of the symbol array uninitialised they are an
  argument (\<open>raw\<close>) of the model.
\<close>

section \<open>Constants\<close>

definition PRICE_EMPTY :: i64 where "PRICE_EMPTY = -1"
definition ORDERID_EMPTY :: u64 where "ORDERID_EMPTY = 0"
definition QUANTITY_EMPTY :: u64 where "QUANTITY_EMPTY = 0"
definition MAX_SYMBOL_LENGTH :: nat where "MAX_SYMBOL_LENGTH = 16"
definition MAX_ORDERS_PER_BOOK :: nat where "MAX_ORDERS_PER_BOOK = 1024 * 64"

section \<open>Orders\<close>

record order_rec =
  o_symbol :: "u8 list"
  o_orderId :: u64
  o_price :: i64
  o_quantity :: u64
  o_isBuy :: bool

definition order_new :: "u8 list \<Rightarrow> order_rec" where
  "order_new raw = \<lparr>o_symbol = raw[0 := 0], o_orderId = ORDERID_EMPTY, o_price = PRICE_EMPTY,
     o_quantity = QUANTITY_EMPTY, o_isBuy = True\<rparr>"

text \<open>\<open>memcpy\<close> of the first \<open>n\<close> bytes of \<open>src\<close> to the start of \<open>dst\<close>.\<close>

definition memcpy_prefix :: "'a list \<Rightarrow> 'a list \<Rightarrow> nat \<Rightarrow> 'a list" where
  "memcpy_prefix dst src n = take n src @ drop n dst"

definition setSymbol :: "u8 list \<Rightarrow> order_rec \<Rightarrow> order_rec" where
  "setSymbol s ord =
     (let copyLen = (if length s < MAX_SYMBOL_LENGTH - 1 then length s else MAX_SYMBOL_LENGTH - 1)
      in ord\<lparr>o_symbol := (memcpy_prefix (o_symbol ord) s copyLen)[copyLen := 0]\<rparr>)"

definition order_isEmpty :: "order_rec \<Rightarrow> bool" where
  "order_isEmpty ord \<longleftrightarrow> o_orderId ord = ORDERID_EMPTY"

text \<open>The string a C reader sees in a character array: the bytes before the first NUL.\<close>

definition c_string :: "u8 list \<Rightarrow> u8 list" where
  "c_string bs = takeWhile (\<lambda>c. c \<noteq> 0) bs"

definition symbol_wf :: "u8 list \<Rightarrow> bool" where
  "symbol_wf bs \<longleftrightarrow> length bs = MAX_SYMBOL_LENGTH \<and> 0 \<in> set bs"

lemma takeWhile_update_stop:
  "n < length xs \<Longrightarrow> \<not> P v \<Longrightarrow> takeWhile P (xs[n := v]) = takeWhile P (take n xs)"
  by (subst upd_conv_take_nth_drop) (auto simp: takeWhile_append takeWhile_eq_all_conv [THEN iffD2])

lemma setSymbol_bytes:
  assumes "length (o_symbol ord) = MAX_SYMBOL_LENGTH"
  shows "c_string (o_symbol (setSymbol s ord)) = c_string (take (MAX_SYMBOL_LENGTH - 1) s)
    \<and> symbol_wf (o_symbol (setSymbol s ord))"
proof -
  define n where "n = (if length s < MAX_SYMBOL_LENGTH - 1 then length s else MAX_SYMBOL_LENGTH - 1)"
  have n: "n < MAX_SYMBOL_LENGTH" "n \<le> length s" "take n s = take (MAX_SYMBOL_LENGTH - 1) s"
    by (auto simp: n_def MAX_SYMBOL_LENGTH_def)
  let ?m = "memcpy_prefix (o_symbol ord) s n"
  have m: "length ?m = MAX_SYMBOL_LENGTH" "take n ?m = take n s"
    using assms n(1,2) by (auto simp: memcpy_prefix_def)
  have "o_symbol (setSymbol s ord) = ?m[n := 0]"
    by (simp add: setSymbol_def n_def Let_def)
  moreover have "c_string (?m[n := 0]) = c_string (take n s)"
    using takeWhile_update_stop [of n ?m "\<lambda>c. c \<noteq> 0" 0] m n by (simp add: c_string_def)
  moreover have "0 \<in> set (?m[n := 0])"
    using m n by (simp add: set_update_memI)
  ultimately show ?thesis using m n by (simp add: symbol_wf_def)
qed

section \<open>Pool entries\<close>

record entry_rec =
  e_order :: order_rec
  e_nextFreeIndex :: nat

definition entry_new :: "u8 list \<Rightarrow> entry_rec" where
  "entry_new raw = \<lparr>e_order = order_new raw, e_nextFreeIndex = 0\<rparr>"

definition entry_isEmpty :: "entry_rec \<Rightarrow> bool" where
  "entry_isEmpty e \<longleftrightarrow> order_isEmpty (e_order e)"

definition entry_reset :: "u8 list \<Rightarrow> entry_rec \<Rightarrow> entry_rec" where
  "entry_reset raw e = e\<lparr>e_order := order_new raw, e_nextFreeIndex := 0\<rparr>"

lemma entry_reset_isEmpty: "entry_isEmpty (entry_reset raw e)"
  by (simp add: entry_isEmpty_def entry_reset_def order_isEmpty_def order_new_def)

end
