(* ===== verification/OrderPool.thy ===== *)
theory OrderPool
  imports OrderData
begin

text \<open>
  The free-list pool \<open>OrderBookPool\<close> of \<^verbatim>\<open>libs/match/OrderPool.h\<close>. The links of the free list are
  the \<open>nextFreeIndex\<close> members of the entries. \<open>MaxOrders\<close> is the length of \<open>p_entries\<close>. An index
  is a \<open>size_t\<close>, here a \<open>nat\<close>, with \<open>SIZE_MAX\<close> for "none". An access to an entry out of range
  is undefined and makes the operation \<open>None\<close>.
\<close>

section \<open>State and operations\<close>

record pool =
  p_entries :: "entry_rec list"
  p_freeIndex :: nat

definition NO_FREE_INDEX :: nat where
  "NO_FREE_INDEX = 18446744073709551615"

definition pool_new :: "u8 list \<Rightarrow> nat \<Rightarrow> pool" where
  "pool_new raw maxOrders =
     \<lparr>p_entries = map (\<lambda>i. (entry_new raw)\<lparr>e_nextFreeIndex :=
        (if i < maxOrders - 1 then i + 1 else NO_FREE_INDEX)\<rparr>) [0..<maxOrders],
      p_freeIndex = 0\<rparr>"

definition allocate :: "pool \<Rightarrow> (nat \<times> pool) option" where
  "allocate p =
     (let current = p_freeIndex p
      in if current = NO_FREE_INDEX then Some (NO_FREE_INDEX, p)
         else case array_get (p_entries p) current of
             None \<Rightarrow> None
           | Some e \<Rightarrow> Some (current, p\<lparr>p_freeIndex := e_nextFreeIndex e\<rparr>))"

text \<open>
  \<open>free\<close> links the entry in front of the free list and then resets it, which stores 0 in the
  link that was just written.
\<close>

definition free_entry :: "u8 list \<Rightarrow> nat \<Rightarrow> pool \<Rightarrow> pool option" where
  "free_entry raw idx p =
     (case array_get (p_entries p) idx of
        None \<Rightarrow> None
      | Some e \<Rightarrow>
          (let linked = e\<lparr>e_nextFreeIndex := p_freeIndex p\<rparr>
           in Some \<lparr>p_entries = (p_entries p)[idx := entry_reset raw linked], p_freeIndex = idx\<rparr>))"

definition pool_entry :: "nat \<Rightarrow> pool \<Rightarrow> entry_rec option" where
  "pool_entry idx p = array_get (p_entries p) idx"

text \<open>\<open>n\<close> calls of \<open>allocate\<close> and what they return.\<close>

fun allocate_many :: "nat \<Rightarrow> pool \<Rightarrow> (nat list \<times> pool) option" where
  "allocate_many 0 p = Some ([], p)"
| "allocate_many (Suc n) p =
     (case allocate p of
        None \<Rightarrow> None
      | Some (i, p1) \<Rightarrow>
          (case allocate_many n p1 of None \<Rightarrow> None | Some (is, p2) \<Rightarrow> Some (i # is, p2)))"

section \<open>Allocation from a fresh pool\<close>

text \<open>After the first \<open>k\<close> allocations the free list is \<open>k, k + 1, \<dots>\<close>.\<close>

definition pool_after :: "u8 list \<Rightarrow> nat \<Rightarrow> nat \<Rightarrow> pool" where
  "pool_after raw n k = (pool_new raw n)\<lparr>p_freeIndex := (if k < n then k else NO_FREE_INDEX)\<rparr>"

lemma pool_new_after: "0 < n \<Longrightarrow> pool_new raw n = pool_after raw n 0"
  by (simp add: pool_after_def pool_new_def)

lemma allocate_after:
  assumes "n < NO_FREE_INDEX" "k \<le> n"
  shows "allocate (pool_after raw n k)
    = Some (if k < n then (k, pool_after raw n (Suc k)) else (NO_FREE_INDEX, pool_after raw n n))"
  using assms by (auto simp: allocate_def pool_after_def pool_new_def array_get_def)

lemma allocate_many_after:
  assumes "n < NO_FREE_INDEX" "k \<le> n"
  shows "allocate_many m (pool_after raw n k)
    = Some ([k..<min (k + m) n] @ replicate (m - (n - k)) NO_FREE_INDEX,
            pool_after raw n (min (k + m) n))"
  using assms(2)
proof (induction m arbitrary: k)
  case 0
  then show ?case by simp
next
  case (Suc m)
  show ?case
  proof (cases "k < n")
    case True
    then have "[k..<min (Suc (k + m)) n] = k # [Suc k..<min (Suc (k + m)) n]"
      by (intro upt_conv_Cons) simp
    with True Suc.IH [of "Suc k"] show ?thesis
      by (simp add: allocate_after [OF assms(1)])
  next
    case False
    with Suc.prems have "k = n" by simp
    with Suc.IH [of n] show ?thesis
      by (simp add: allocate_after [OF assms(1)])
  qed
qed

section \<open>After a free\<close>

text \<open>
  The freed entry is the next one handed out, and the one after it is entry 0, whatever the
  free list was before and whoever owns entry 0.
\<close>

lemma free_then_allocate:
  assumes "idx < length (p_entries p)" "length (p_entries p) < NO_FREE_INDEX"
  obtains p0 p1 where "free_entry raw idx p = Some p0" "allocate p0 = Some (idx, p1)"
    "p_freeIndex p1 = 0" "p_entries p1 = p_entries p0" "length (p_entries p1) = length (p_entries p)"
proof -
  define p0 where "p0 = \<lparr>p_entries = (p_entries p)[idx := entry_reset raw
    ((p_entries p ! idx)\<lparr>e_nextFreeIndex := p_freeIndex p\<rparr>)], p_freeIndex = idx\<rparr>"
  have "free_entry raw idx p = Some p0"
    using assms by (simp add: free_entry_def p0_def array_get_def)
  moreover have "allocate p0 = Some (idx, p0\<lparr>p_freeIndex := 0\<rparr>)"
    using assms by (simp add: allocate_def p0_def array_get_def entry_reset_def)
  moreover have "length (p_entries p0) = length (p_entries p)" by (simp add: p0_def)
  ultimately show ?thesis using that [of p0 "p0\<lparr>p_freeIndex := 0\<rparr>"] by simp
qed

lemma allocate_at_0:
  assumes "p_freeIndex p = 0" "p_entries p \<noteq> []"
  obtains p' where "allocate p = Some (0, p')"
  using assms by (auto simp: allocate_def array_get_def NO_FREE_INDEX_def)

lemma free_0_loops:
  assumes "p_entries p \<noteq> []" "length (p_entries p) < NO_FREE_INDEX"
  obtains p0 where "free_entry raw 0 p = Some p0" "\<And>n. allocate_many n p0 = Some (replicate n 0, p0)"
proof -
  define p0 where "p0 = \<lparr>p_entries = (p_entries p)[0 := entry_reset raw
    ((p_entries p ! 0)\<lparr>e_nextFreeIndex := p_freeIndex p\<rparr>)], p_freeIndex = 0\<rparr>"
  have "free_entry raw 0 p = Some p0"
    using assms by (simp add: free_entry_def p0_def array_get_def)
  moreover have "allocate p0 = Some (0, p0)"
    using assms by (simp add: allocate_def p0_def array_get_def entry_reset_def NO_FREE_INDEX_def)
  then have "allocate_many n p0 = Some (replicate n 0, p0)" for n
    by (induction n) simp_all
  ultimately show ?thesis using that by blast
qed

end
