(* ===== verification/Machines.thy ===== *)
theory Machines
  imports Prelude
begin

text \<open>
  The interface of the multi-threaded components: a step relation on a state, where one step is
  one access of one thread. \<open>machine\<close> is a relation with an inductive invariant; its clients get
  the invariant in every state a run can reach. \<open>ending_machine\<close> adds a measure that every step
  decreases and the law that an unfinished state can step: a run cannot go on for ever, and
  wherever it has got to it can be completed.
\<close>

locale machine =
  fixes step :: "'s \<Rightarrow> 's \<Rightarrow> bool" and start :: "'s \<Rightarrow> bool" and inv :: "'s \<Rightarrow> bool"
  assumes inv_start: "start s \<Longrightarrow> inv s"
    and inv_step: "inv s \<Longrightarrow> step s s' \<Longrightarrow> inv s'"
begin

lemma inv_steps: "step\<^sup>*\<^sup>* s s' \<Longrightarrow> inv s \<Longrightarrow> inv s'"
  by (induction rule: rtranclp_induct) (auto intro: inv_step)

lemma reachable_inv: "start s \<Longrightarrow> step\<^sup>*\<^sup>* s s' \<Longrightarrow> inv s'"
  using inv_start inv_steps by blast

end

locale ending_machine = machine +
  fixes measure_of :: "'s \<Rightarrow> nat" and final :: "'s \<Rightarrow> bool"
  assumes decreases: "inv s \<Longrightarrow> step s s' \<Longrightarrow> measure_of s' < measure_of s"
    and progress: "inv s \<Longrightarrow> \<not> final s \<Longrightarrow> \<exists>s'. step s s'"
begin

lemma can_finish: "inv s \<Longrightarrow> \<exists>s'. step\<^sup>*\<^sup>* s s' \<and> final s'"
proof (induction s rule: measure_induct_rule [of measure_of])
  case (less s)
  show ?case
  proof (cases "final s")
    case False
    then obtain s1 where s1: "step s s1" using progress [OF less.prems] by blast
    from less.IH [OF decreases [OF less.prems s1] inv_step [OF less.prems s1]]
    obtain s' where "step\<^sup>*\<^sup>* s1 s'" "final s'" by blast
    with s1 show ?thesis by (meson converse_rtranclp_into_rtranclp)
  qed blast
qed

text \<open>The length of a run is bounded by the measure of the state it starts in.\<close>

lemma run_bounded: "(step ^^ n) s s' \<Longrightarrow> inv s \<Longrightarrow> n + measure_of s' \<le> measure_of s"
proof (induction n arbitrary: s')
  case (Suc n)
  then obtain s1 where s1: "(step ^^ n) s s1" "step s1 s'" by auto
  then have "inv s1" using inv_steps relpowp_imp_rtranclp Suc.prems(2) by metis
  with decreases [OF this s1(2)] Suc.IH [OF s1(1) Suc.prems(2)] show ?case by simp
qed simp

end

end
