(* ===== verification/PoolRace.thy ===== *)
theory PoolRace
  imports OrderPool Machines
begin

text \<open>
  \<open>OrderBookPool::allocate\<close> of \<^verbatim>\<open>libs/match/OrderPool.h\<close> called by several threads. The head of the
  free list and the links are atomics, but \<open>allocate\<close> loads the head, loads the link and stores the
  head in three separate accesses. One step is one access of one thread.
\<close>

datatype alloc_pc = A_Outside | A_LoadNext nat | A_StoreFree nat nat

record pool_threads =
  pa_pool :: pool
  pa_pc :: "nat \<Rightarrow> alloc_pc"
  pa_got :: "(nat \<times> nat) list"

definition pool_threads_start :: "pool \<Rightarrow> pool_threads" where
  "pool_threads_start p = \<lparr>pa_pool = p, pa_pc = (\<lambda>_. A_Outside), pa_got = []\<rparr>"

text \<open>\<open>None\<close>: the entry is out of range, which is undefined.\<close>

definition alloc_next :: "nat \<Rightarrow> 'a pool_threads_scheme \<Rightarrow> 'a pool_threads_scheme option" where
  "alloc_next t s =
     (case pa_pc s t of
        A_Outside \<Rightarrow>
          (let current = p_freeIndex (pa_pool s)
           in Some (if current = NO_FREE_INDEX then s\<lparr>pa_got := pa_got s @ [(t, NO_FREE_INDEX)]\<rparr>
                    else s\<lparr>pa_pc := (pa_pc s)(t := A_LoadNext current)\<rparr>))
      | A_LoadNext current \<Rightarrow>
          (case array_get (p_entries (pa_pool s)) current of
             None \<Rightarrow> None
           | Some e \<Rightarrow> Some (s\<lparr>pa_pc := (pa_pc s)(t := A_StoreFree current (e_nextFreeIndex e))\<rparr>))
      | A_StoreFree current next_free \<Rightarrow>
          Some (s\<lparr>pa_pool := (pa_pool s)\<lparr>p_freeIndex := next_free\<rparr>, pa_pc := (pa_pc s)(t := A_Outside),
                  pa_got := pa_got s @ [(t, current)]\<rparr>))"

fun alloc_run :: "nat list \<Rightarrow> 'a pool_threads_scheme \<Rightarrow> 'a pool_threads_scheme option" where
  "alloc_run [] s = Some s"
| "alloc_run (t # ts) s = Option.bind (alloc_next t s) (alloc_run ts)"

lemma alloc_run_append: "alloc_run (ts @ us) s = Option.bind (alloc_run ts s) (alloc_run us)"
  by (induction ts arbitrary: s) (auto split: bind_splits)

section \<open>One thread at a time\<close>

text \<open>A thread that runs alone does what the sequential \<open>allocate\<close> does.\<close>

lemma alloc_alone:
  assumes "pa_pc s t = A_Outside" "allocate (pa_pool s) = Some (i, p)"
  shows "alloc_run (if i = NO_FREE_INDEX then [t] else [t, t, t]) s
    = Some (s\<lparr>pa_pool := p, pa_got := pa_got s @ [(t, i)]\<rparr>)"
proof (cases "p_freeIndex (pa_pool s) = NO_FREE_INDEX")
  case True
  then show ?thesis using assms by (simp add: alloc_next_def allocate_def)
next
  case False
  then obtain e where e: "array_get (p_entries (pa_pool s)) (p_freeIndex (pa_pool s)) = Some e"
    "i = p_freeIndex (pa_pool s)" "p = (pa_pool s)\<lparr>p_freeIndex := e_nextFreeIndex e\<rparr>"
    using assms(2) by (auto simp: allocate_def Let_def split: option.splits)
  have "(pa_pc s)(t := A_Outside) = pa_pc s" using assms(1) by auto
  then have "s\<lparr>pa_pool := p, pa_pc := (pa_pc s)(t := A_Outside), pa_got := pa_got s @ [(t, i)]\<rparr>
      = s\<lparr>pa_pool := p, pa_got := pa_got s @ [(t, i)]\<rparr>" by simp
  with False e assms(1) show ?thesis by (simp add: alloc_next_def)
qed

section \<open>Calls that do not overlap\<close>

text \<open>A schedule in which a thread moves only while no other thread is inside \<open>allocate\<close>.\<close>

fun calls_apart :: "nat list \<Rightarrow> 'a pool_threads_scheme \<Rightarrow> bool" where
  "calls_apart [] s = True"
| "calls_apart (t # ts) s =
     ((\<forall>u. u \<noteq> t \<longrightarrow> pa_pc s u = A_Outside)
      \<and> (case alloc_next t s of None \<Rightarrow> True | Some s' \<Rightarrow> calls_apart ts s'))"

lemma allocate_many_Suc:
  "allocate_many (Suc n) p = Option.bind (allocate_many n p)
     (\<lambda>(is, q). map_option (\<lambda>(i, q'). (is @ [i], q')) (allocate q))"
proof (induction n arbitrary: p)
  case 0
  then show ?case by (simp split: option.split prod.split)
next
  case (Suc n)
  show ?case
    by (subst allocate_many.simps(2), subst (2) allocate_many.simps(2), subst Suc.IH)
      (auto split: option.splits prod.splits bind_splits)
qed

text \<open>The calls that have returned are the sequential ones, and a thread inside one is half way through it.\<close>

fun half_way :: "pool \<Rightarrow> alloc_pc \<Rightarrow> bool" where
  "half_way q A_Outside = True"
| "half_way q (A_LoadNext c) \<longleftrightarrow> p_freeIndex q = c \<and> c \<noteq> NO_FREE_INDEX"
| "half_way q (A_StoreFree c next_free) \<longleftrightarrow> allocate q = Some (c, q\<lparr>p_freeIndex := next_free\<rparr>)"

definition apart_inv :: "pool \<Rightarrow> 'a pool_threads_scheme \<Rightarrow> bool" where
  "apart_inv p s \<longleftrightarrow> allocate_many (length (pa_got s)) p = Some (map snd (pa_got s), pa_pool s)
     \<and> (\<forall>u. half_way (pa_pool s) (pa_pc s u))"

lemma apart_next:
  assumes "apart_inv p s" "\<And>u. u \<noteq> t \<Longrightarrow> pa_pc s u = A_Outside" "\<And>n. allocate_many n p \<noteq> None"
  shows "\<exists>s'. alloc_next t s = Some s' \<and> apart_inv p s'"
proof -
  note many = assms(1) [unfolded apart_inv_def, THEN conjunct1]
  have here: "half_way (pa_pool s) (pa_pc s t)" using assms(1) by (simp add: apart_inv_def)
  have "allocate (pa_pool s) \<noteq> None"
    using assms(3) [of "Suc (length (pa_got s))"] unfolding allocate_many_Suc many by auto
  then obtain i q where a: "allocate (pa_pool s) = Some (i, q)" by auto
  then have more: "allocate_many (Suc (length (pa_got s))) p = Some (map snd (pa_got s) @ [i], q)"
    unfolding allocate_many_Suc many by simp
  show ?thesis
  proof (cases "pa_pc s t")
    case A_Outside
    show ?thesis
    proof (cases "p_freeIndex (pa_pool s) = NO_FREE_INDEX")
      case True
      then have "i = NO_FREE_INDEX" "q = pa_pool s" using a by (simp_all add: allocate_def)
      with True A_Outside assms(1) more show ?thesis
        by (simp add: alloc_next_def apart_inv_def del: allocate_many.simps)
    next
      case False
      with A_Outside assms(1) show ?thesis by (simp add: alloc_next_def apart_inv_def Let_def)
    qed
  next
    case (A_LoadNext c)
    then have "p_freeIndex (pa_pool s) = c" "c \<noteq> NO_FREE_INDEX" using here by simp_all
    then obtain e where "array_get (p_entries (pa_pool s)) c = Some e"
      "q = (pa_pool s)\<lparr>p_freeIndex := e_nextFreeIndex e\<rparr>" "i = c"
      using a by (auto simp: allocate_def Let_def split: option.splits)
    with a A_LoadNext assms(1) show ?thesis by (simp add: alloc_next_def apart_inv_def)
  next
    case (A_StoreFree c next_free)
    then have "i = c" "q = (pa_pool s)\<lparr>p_freeIndex := next_free\<rparr>" using here a by simp_all
    with A_StoreFree more assms(2) show ?thesis
      by (simp add: alloc_next_def apart_inv_def del: allocate_many.simps)
  qed
qed

lemma apart_run:
  assumes "apart_inv p s" "calls_apart sched s" "\<And>n. allocate_many n p \<noteq> None"
  shows "\<exists>s'. alloc_run sched s = Some s' \<and> apart_inv p s'"
  using assms(1,2)
proof (induction sched arbitrary: s)
  case (Cons t ts)
  obtain s1 where "alloc_next t s = Some s1" "apart_inv p s1"
    using apart_next [OF Cons.prems(1) _ assms(3)] Cons.prems(2) by auto
  with Cons.IH [of s1] Cons.prems(2) show ?case by simp
qed simp

lemma apart_start: "apart_inv p (pool_threads_start p)"
  by (simp add: apart_inv_def pool_threads_start_def)

text \<open>
  So what threads get whose calls do not overlap is, in the order of the returns, what one call after
  the other gets: from a new pool \<open>0, 1, ..., n - 1\<close>, then that it is empty.
\<close>

lemma apart_fresh:
  assumes "0 < n" "n < NO_FREE_INDEX" "calls_apart sched (pool_threads_start (pool_new raw n))"
  shows "\<exists>s'. alloc_run sched (pool_threads_start (pool_new raw n)) = Some s'
    \<and> (let k = length (pa_got s')
       in map snd (pa_got s') = [0..<min k n] @ replicate (k - n) NO_FREE_INDEX
        \<and> allocate_many k (pool_new raw n) = Some (map snd (pa_got s'), pa_pool s'))"
proof -
  have many: "allocate_many k (pool_new raw n)
      = Some ([0..<min k n] @ replicate (k - n) NO_FREE_INDEX, pool_after raw n (min k n))" for k
    using allocate_many_after [OF assms(2), of 0 k raw] pool_new_after [OF assms(1), of raw] by simp
  then have "allocate_many k (pool_new raw n) \<noteq> None" for k by simp
  from apart_run [OF apart_start assms(3) this] many show ?thesis
    by (auto simp: apart_inv_def Let_def)
qed

section \<open>Two threads at once\<close>

text \<open>Two threads that are both in \<open>allocate\<close> can be given one entry.\<close>

lemma alloc_race:
  assumes "t \<noteq> u" "pa_pc s t = A_Outside" "pa_pc s u = A_Outside"
    and "p_freeIndex (pa_pool s) = c" "c < length (p_entries (pa_pool s))" "c \<noteq> NO_FREE_INDEX"
  shows "\<exists>s'. alloc_run [t, u, t, t, u, u] s = Some s' \<and> pa_got s' = pa_got s @ [(t, c), (u, c)]"
  using assms by (simp add: alloc_next_def array_get_in Let_def)

end
