(* ===== verification/PoolFree.thy ===== *)
theory PoolFree
  imports PoolRace
begin

text \<open>
  The whole of \<^verbatim>\<open>libs/match/OrderPool.h\<close> used by several threads: \<open>allocate\<close> as in \<open>PoolRace\<close>, \<open>free\<close>
  with each of its accesses a step, and the users of the entries, who write the order of an entry
  through the reference \<open>entry\<close> gives. A thread is in one call at a time.

  Whatever the threads do, no access is out of range. But \<open>free\<close> makes the entry available before it
  resets it, so the reset hits whoever was given the entry in between.
\<close>

section \<open>State and steps\<close>

text \<open>
  \<open>PF_ResetOrder\<close> and \<open>PF_ResetNext\<close> are the two assignments of \<open>OrderBookEntry::reset\<close>.
\<close>

datatype free_pc = PF_Outside | PF_StoreNext nat nat | PF_StoreHead nat | PF_ResetOrder nat | PF_ResetNext nat

record pool_users = pool_threads +
  pf_pc :: "nat \<Rightarrow> free_pc"

definition pool_users_start :: "pool \<Rightarrow> pool_users" where
  "pool_users_start p = \<lparr>pa_pool = p, pa_pc = (\<lambda>_. A_Outside), pa_got = [], pf_pc = (\<lambda>_. PF_Outside)\<rparr>"

definition set_entry :: "nat \<Rightarrow> (entry_rec \<Rightarrow> entry_rec) \<Rightarrow> pool \<Rightarrow> pool option" where
  "set_entry idx f p =
     map_option (\<lambda>e. p\<lparr>p_entries := (p_entries p)[idx := f e]\<rparr>) (array_get (p_entries p) idx)"

text \<open>\<open>free(idx)\<close>; when the thread is outside, the step is the load with which the call begins.\<close>

definition free_next :: "u8 list \<Rightarrow> nat \<Rightarrow> nat \<Rightarrow> pool_users \<Rightarrow> pool_users option" where
  "free_next raw t idx s =
     (let goto = (\<lambda>pc p. s\<lparr>pa_pool := p, pf_pc := (pf_pc s)(t := pc)\<rparr>)
      in case pf_pc s t of
        PF_Outside \<Rightarrow> Some (goto (PF_StoreNext idx (p_freeIndex (pa_pool s))) (pa_pool s))
      | PF_StoreNext i head \<Rightarrow>
          map_option (goto (PF_StoreHead i)) (set_entry i (\<lambda>e. e\<lparr>e_nextFreeIndex := head\<rparr>) (pa_pool s))
      | PF_StoreHead i \<Rightarrow> Some (goto (PF_ResetOrder i) ((pa_pool s)\<lparr>p_freeIndex := i\<rparr>))
      | PF_ResetOrder i \<Rightarrow>
          map_option (goto (PF_ResetNext i)) (set_entry i (\<lambda>e. e\<lparr>e_order := order_new raw\<rparr>) (pa_pool s))
      | PF_ResetNext i \<Rightarrow>
          map_option (goto PF_Outside) (set_entry i (\<lambda>e. e\<lparr>e_nextFreeIndex := 0\<rparr>) (pa_pool s)))"

text \<open>A user of the pool writes the order of entry \<open>idx\<close>.\<close>

definition write_order :: "nat \<Rightarrow> order_rec \<Rightarrow> pool \<Rightarrow> pool option" where
  "write_order idx ord p = set_entry idx (\<lambda>e. e\<lparr>e_order := ord\<rparr>) p"

datatype pool_move = Allocate_Step nat | Free_Step nat nat | Write_Order nat order_rec

text \<open>\<open>None\<close>: an access out of range. \<open>can_move\<close> says which thread can take a step of which call.\<close>

fun can_move :: "pool_move \<Rightarrow> pool_users \<Rightarrow> bool" where
  "can_move (Allocate_Step t) s \<longleftrightarrow> pf_pc s t = PF_Outside"
| "can_move (Free_Step t idx) s \<longleftrightarrow> pa_pc s t = A_Outside"
| "can_move (Write_Order idx ord) s \<longleftrightarrow> True"

fun pool_next :: "u8 list \<Rightarrow> pool_move \<Rightarrow> pool_users \<Rightarrow> pool_users option" where
  "pool_next raw (Allocate_Step t) s = alloc_next t s"
| "pool_next raw (Free_Step t idx) s = free_next raw t idx s"
| "pool_next raw (Write_Order idx ord) s =
     map_option (\<lambda>p. s\<lparr>pa_pool := p\<rparr>) (write_order idx ord (pa_pool s))"

fun pool_run :: "u8 list \<Rightarrow> pool_move list \<Rightarrow> pool_users \<Rightarrow> pool_users option" where
  "pool_run raw [] s = Some s"
| "pool_run raw (m # ms) s =
     (if can_move m s then Option.bind (pool_next raw m s) (pool_run raw ms) else None)"

lemma pool_run_append:
  "pool_run raw (ms @ ms') s = Option.bind (pool_run raw ms s) (pool_run raw ms')"
  by (induction ms arbitrary: s) (auto split: bind_splits)

section \<open>No access out of range\<close>

text \<open>
  An index is sound when it is that of an entry or the end marker. The heads and links that threads
  have read are sound, and so is what the pool holds and has handed out.
\<close>

definition sound :: "nat \<Rightarrow> nat \<Rightarrow> bool" where
  "sound n i \<longleftrightarrow> i < n \<or> i = NO_FREE_INDEX"

fun sound_alloc :: "nat \<Rightarrow> alloc_pc \<Rightarrow> bool" where
  "sound_alloc n A_Outside \<longleftrightarrow> True"
| "sound_alloc n (A_LoadNext i) \<longleftrightarrow> i < n"
| "sound_alloc n (A_StoreFree i j) \<longleftrightarrow> i < n \<and> sound n j"

fun sound_free :: "nat \<Rightarrow> free_pc \<Rightarrow> bool" where
  "sound_free n PF_Outside \<longleftrightarrow> True"
| "sound_free n (PF_StoreNext i head) \<longleftrightarrow> i < n \<and> sound n head"
| "sound_free n (PF_StoreHead i) \<longleftrightarrow> i < n"
| "sound_free n (PF_ResetOrder i) \<longleftrightarrow> i < n"
| "sound_free n (PF_ResetNext i) \<longleftrightarrow> i < n"

definition sound_pool :: "nat \<Rightarrow> pool \<Rightarrow> bool" where
  "sound_pool n p \<longleftrightarrow> length (p_entries p) = n \<and> sound n (p_freeIndex p)
     \<and> (\<forall>e \<in> set (p_entries p). sound n (e_nextFreeIndex e))"

definition users_inv :: "nat \<Rightarrow> pool_users \<Rightarrow> bool" where
  "users_inv n s \<longleftrightarrow> sound_pool n (pa_pool s) \<and> (\<forall>t. sound_alloc n (pa_pc s t)) \<and> (\<forall>t. sound_free n (pf_pc s t))
     \<and> (\<forall>(t, i) \<in> set (pa_got s). sound n i)"

text \<open>What the users owe: they free, and write to, entries of the pool.\<close>

fun move_ok :: "nat \<Rightarrow> pool_move \<Rightarrow> bool" where
  "move_ok n (Allocate_Step t) \<longleftrightarrow> True"
| "move_ok n (Free_Step t idx) \<longleftrightarrow> idx < n"
| "move_ok n (Write_Order idx ord) \<longleftrightarrow> idx < n"

lemma sound_pool_new: "0 < n \<Longrightarrow> sound_pool n (pool_new raw n)"
  by (auto simp: sound_pool_def pool_new_def sound_def)

lemma users_inv_start: "0 < n \<Longrightarrow> users_inv n (pool_users_start (pool_new raw n))"
  by (simp add: users_inv_def pool_users_start_def sound_pool_new)

lemma set_entry_sound:
  assumes "sound_pool n p" "idx < n" "\<And>e. sound n (e_nextFreeIndex e) \<Longrightarrow> sound n (e_nextFreeIndex (f e))"
  shows "\<exists>p'. set_entry idx f p = Some p' \<and> sound_pool n p'"
proof -
  have "sound n (e_nextFreeIndex (f (p_entries p ! idx)))"
    using assms by (auto simp: sound_pool_def)
  then show ?thesis
    using assms(1,2) by (auto simp: set_entry_def sound_pool_def array_get_in dest: set_update_subset_insert [THEN subsetD])
qed

lemma sound_pool_head: "sound_pool n p \<Longrightarrow> sound n i \<Longrightarrow> sound_pool n (p\<lparr>p_freeIndex := i\<rparr>)"
  by (simp add: sound_pool_def)

lemma sound_alloc_next:
  assumes "users_inv n s"
  shows "\<exists>s'. alloc_next t s = Some s' \<and> users_inv n s'"
proof (cases "pa_pc s t")
  case A_Outside
  have "sound n (p_freeIndex (pa_pool s))" using assms by (simp add: users_inv_def sound_pool_def)
  then show ?thesis
    using A_Outside assms by (auto simp: alloc_next_def Let_def users_inv_def sound_def)
next
  case (A_LoadNext i)
  then have i: "i < length (p_entries (pa_pool s))" "i < n" and "sound_pool n (pa_pool s)"
    using assms by (auto simp: users_inv_def sound_pool_def dest: spec [of _ t])
  then have "sound n (e_nextFreeIndex (p_entries (pa_pool s) ! i))" by (simp add: sound_pool_def)
  then show ?thesis using A_LoadNext assms i by (auto simp: alloc_next_def array_get_in users_inv_def)
next
  case (A_StoreFree i j)
  then have "i < n" "sound n j" using assms by (auto simp: users_inv_def dest: spec [of _ t])
  then show ?thesis using A_StoreFree assms
    by (auto simp: alloc_next_def users_inv_def intro: sound_pool_head) (simp add: sound_def)
qed

lemma sound_free_next:
  assumes "users_inv n s" "idx < n"
  shows "\<exists>s'. free_next raw t idx s = Some s' \<and> users_inv n s'"
proof -
  have p: "sound_pool n (pa_pool s)" and pc: "sound_free n (pf_pc s t)"
    using assms(1) by (auto simp: users_inv_def)
  have goto: "users_inv n (s\<lparr>pa_pool := p', pf_pc := (pf_pc s)(t := pc')\<rparr>)"
    if "sound_pool n p'" "sound_free n pc'" for p' pc'
    using assms(1) that by (auto simp: users_inv_def)
  have set_next: "\<exists>p'. set_entry i (\<lambda>e. e\<lparr>e_nextFreeIndex := j\<rparr>) (pa_pool s) = Some p' \<and> sound_pool n p'"
    if "i < n" "sound n j" for i j
    using set_entry_sound [OF p that(1), of "\<lambda>e. e\<lparr>e_nextFreeIndex := j\<rparr>"] that(2) by simp
  have set_ord: "\<exists>p'. set_entry i (\<lambda>e. e\<lparr>e_order := ord\<rparr>) (pa_pool s) = Some p' \<and> sound_pool n p'"
    if "i < n" for i ord
    using set_entry_sound [OF p that, of "\<lambda>e. e\<lparr>e_order := ord\<rparr>"] by simp
  show ?thesis
  proof (cases "pf_pc s t")
    case PF_Outside
    have "sound n (p_freeIndex (pa_pool s))" using p by (simp add: sound_pool_def)
    with PF_Outside goto [OF p, of "PF_StoreNext idx (p_freeIndex (pa_pool s))"] assms(2)
    show ?thesis by (simp add: free_next_def Let_def)
  next
    case (PF_StoreNext i head)
    with pc set_next [of i head] goto show ?thesis by (fastforce simp: free_next_def Let_def)
  next
    case (PF_StoreHead i)
    with pc sound_pool_head [OF p, of i] goto show ?thesis by (simp add: free_next_def Let_def sound_def)
  next
    case (PF_ResetOrder i)
    with pc set_ord [of i "order_new raw"] goto show ?thesis by (fastforce simp: free_next_def Let_def)
  next
    case (PF_ResetNext i)
    with pc have "i < n" "sound n 0" by (auto simp: sound_def)
    with set_next [of i 0] goto PF_ResetNext show ?thesis by (fastforce simp: free_next_def Let_def)
  qed
qed

lemma sound_move:
  assumes "users_inv n s" "move_ok n m"
  shows "\<exists>s'. pool_next raw m s = Some s' \<and> users_inv n s'"
proof (cases m)
  case (Write_Order idx ord)
  have "sound_pool n (pa_pool s)" using assms(1) by (simp add: users_inv_def)
  from set_entry_sound [OF this, of idx "\<lambda>e. e\<lparr>e_order := ord\<rparr>"] Write_Order assms
  show ?thesis by (auto simp: write_order_def users_inv_def)
qed (use assms sound_alloc_next sound_free_next in auto)

inductive pool_moves :: "u8 list \<Rightarrow> nat \<Rightarrow> pool_users \<Rightarrow> pool_users \<Rightarrow> bool" for raw n where
  pool_moves: "can_move m s \<Longrightarrow> move_ok n m \<Longrightarrow> pool_next raw m s = Some s' \<Longrightarrow> pool_moves raw n s s'"

inductive_cases pool_movesE: "pool_moves raw n s s'"

interpretation users: machine "pool_moves raw n" "\<lambda>s. 0 < n \<and> s = pool_users_start (pool_new raw n)" "users_inv n"
  for raw n
proof unfold_locales
  show "users_inv n s" if "0 < n \<and> s = pool_users_start (pool_new raw n)" for s
    using that users_inv_start by auto
  show "users_inv n s'" if inv: "users_inv n s" and step: "pool_moves raw n s s'" for s s'
    using step
  proof (cases rule: pool_moves.cases)
    case (pool_moves m)
    with sound_move [OF inv, of m raw] show ?thesis by auto
  qed
qed

section \<open>One call after the other\<close>

text \<open>A \<open>free\<close> that runs alone does what the sequential one does.\<close>

lemma free_alone:
  assumes "pf_pc s t = PF_Outside" "pa_pc s t = A_Outside" "free_entry raw idx (pa_pool s) = Some p"
  shows "pool_run raw (replicate 5 (Free_Step t idx)) s = Some (s\<lparr>pa_pool := p\<rparr>)"
proof -
  have i: "idx < length (p_entries (pa_pool s))"
    using assms(3) by (auto simp: free_entry_def array_get_def split: if_splits)
  have "(pf_pc s)(t := PF_Outside) = pf_pc s" using assms(1) by auto
  then show ?thesis using i assms
    by (auto simp: eval_nat_numeral free_next_def set_entry_def array_get_in free_entry_def Let_def entry_reset_def)
qed

section \<open>A reset that comes too late\<close>

text \<open>
  Thread \<open>t\<close> frees entry \<open>i\<close>; as soon as it has stored the head, \<open>u\<close> is given the entry and fills
  it; then \<open>t\<close> resets it.
\<close>

definition late_reset :: "nat \<Rightarrow> nat \<Rightarrow> nat \<Rightarrow> order_rec \<Rightarrow> pool_move list" where
  "late_reset t u i ord = replicate 3 (Free_Step t i) @ replicate 3 (Allocate_Step u) @ [Write_Order i ord]
     @ replicate 2 (Free_Step t i)"

lemma late_reset_run:
  assumes "t \<noteq> u" "pf_pc s t = PF_Outside" "pa_pc s t = A_Outside" "pf_pc s u = PF_Outside" "pa_pc s u = A_Outside"
    and "i < length (p_entries (pa_pool s))" "i \<noteq> NO_FREE_INDEX"
  shows "\<exists>s'. pool_run raw (late_reset t u i ord) s = Some s' \<and> pa_got s' = pa_got s @ [(u, i)]
    \<and> map_option entry_isEmpty (pool_entry i (pa_pool s')) = Some True
    \<and> p_freeIndex (pa_pool s') = p_freeIndex (pa_pool s)"
  using assms
  by (simp add: late_reset_def eval_nat_numeral free_next_def alloc_next_def write_order_def set_entry_def
      array_get_in Let_def pool_entry_def entry_isEmpty_def order_isEmpty_def order_new_def)

end
