(* ===== verification/OrderMap.thy ===== *)
theory OrderMap
  imports Prelude
begin

unbundle bit_operations_syntax

text \<open>
  The direct-mapped table \<open>OrderMap\<close> of \<^verbatim>\<open>libs/match/OrderMap.h\<close>: the low bits of an order
  id select a cell that holds a pool index and a side. The id itself is not stored, so a cell
  does not say whose it is. \<open>MapSize\<close> is the length of the table. \<open>insert\<close> and \<open>erase\<close> keep
  the cell's index in a \<open>uint16_t\<close>, \<open>find\<close> does not.
\<close>

section \<open>State and operations\<close>

record map_value =
  mv_poolIndex :: u16
  mv_side :: u8

type_synonym order_map = "map_value list"

definition MAP_NONE :: u16 where
  "MAP_NONE = 0xFFFF"

definition empty_value :: map_value where
  "empty_value = \<lparr>mv_poolIndex = MAP_NONE, mv_side = 0\<rparr>"

definition omap_new :: "nat \<Rightarrow> order_map" where
  "omap_new mapSize = replicate mapSize empty_value"

definition omap_reset :: "order_map \<Rightarrow> order_map" where
  "omap_reset m = map (\<lambda>v. v\<lparr>mv_poolIndex := MAP_NONE, mv_side := 0\<rparr>) m"

definition MASK :: "order_map \<Rightarrow> u64" where
  "MASK m = of_nat (length m) - 1"

text \<open>\<open>uint16_t idx = orderId & MASK\<close> in \<open>insert\<close> and \<open>erase\<close>; \<open>orderId & MASK\<close> in \<open>find\<close>.\<close>

definition cell16 :: "order_map \<Rightarrow> u64 \<Rightarrow> nat" where
  "cell16 m orderId = unat (ucast (orderId AND MASK m) :: u16)"

definition cell :: "order_map \<Rightarrow> u64 \<Rightarrow> nat" where
  "cell m orderId = unat (orderId AND MASK m)"

definition omap_insert :: "u64 \<Rightarrow> u16 \<Rightarrow> u8 \<Rightarrow> order_map \<Rightarrow> (bool \<times> order_map) option" where
  "omap_insert orderId poolIndex side m =
     (let idx = cell16 m orderId
      in case array_get m idx of
           None \<Rightarrow> None
         | Some v \<Rightarrow>
             if mv_poolIndex v \<noteq> MAP_NONE then Some (False, m)
             else Some (True, m[idx := v\<lparr>mv_poolIndex := poolIndex, mv_side := side\<rparr>]))"

definition omap_erase :: "u64 \<Rightarrow> order_map \<Rightarrow> order_map option" where
  "omap_erase orderId m =
     (let idx = cell16 m orderId
      in case array_get m idx of
           None \<Rightarrow> None
         | Some v \<Rightarrow> Some (m[idx := v\<lparr>mv_poolIndex := MAP_NONE, mv_side := 0\<rparr>]))"

definition omap_find :: "u64 \<Rightarrow> order_map \<Rightarrow> map_value option" where
  "omap_find orderId m = array_get m (cell m orderId)"

section \<open>Every access is in range\<close>

text \<open>A table size the \<open>uint16_t\<close> index can address.\<close>

definition map_size_ok :: "order_map \<Rightarrow> bool" where
  "map_size_ok m \<longleftrightarrow> 0 < length m \<and> length m \<le> 65536"

lemma unat_MASK: "0 < length m \<Longrightarrow> length m < 2 ^ 64 \<Longrightarrow> unat (MASK m) = length m - 1"
proof -
  assume a: "0 < length m" "length m < 2 ^ 64"
  have "MASK m = of_nat (length m - 1)"
    using of_nat_diff [of 1 "length m", where ?'a = u64] a(1)
    by (simp add: MASK_def Suc_le_eq)
  then show ?thesis using a(2) by (simp add: unat_of_nat)
qed

lemma cell_less: "0 < length m \<Longrightarrow> length m < 2 ^ 64 \<Longrightarrow> cell m orderId < length m"
proof -
  assume a: "0 < length m" "length m < 2 ^ 64"
  have "unat (orderId AND MASK m) \<le> unat (MASK m)"
    by (rule word_and_le1 [THEN word_le_nat_alt [THEN iffD1]])
  then show ?thesis using unat_MASK [OF a] a(1) unfolding cell_def by linarith
qed

lemma cell16_eq: "cell16 m orderId = cell m orderId mod 65536"
  by (simp add: cell16_def cell_def unsigned_ucast_eq unsigned_take_bit_eq take_bit_eq_mod)

lemma cell16_less: "0 < length m \<Longrightarrow> length m < 2 ^ 64 \<Longrightarrow> cell16 m orderId < length m"
  using cell_less [of m orderId] by (metis cell16_eq le_less_trans mod_less_eq_dividend)

lemma cell16_cell: "map_size_ok m \<Longrightarrow> cell16 m orderId = cell m orderId"
  using cell_less [of m orderId] by (simp add: map_size_ok_def cell16_eq)

lemma cell_update [simp]: "cell (m[i := v]) = cell m"
  by (rule ext) (simp add: cell_def MASK_def)

lemma map_size_ok_update [simp]: "map_size_ok (m[i := v]) = map_size_ok m"
  by (simp add: map_size_ok_def)

lemma map_value_assign [simp]:
  "(v::map_value)\<lparr>mv_poolIndex := a, mv_side := c\<rparr> = \<lparr>mv_poolIndex = a, mv_side = c\<rparr>"
  by simp

text \<open>The three operations on a table of a usable size.\<close>

lemma omap_ops:
  assumes "map_size_ok m"
  shows "omap_insert orderId poolIndex side m =
      Some (if mv_poolIndex (m ! cell m orderId) \<noteq> MAP_NONE then (False, m)
            else (True, m[cell m orderId := \<lparr>mv_poolIndex = poolIndex, mv_side = side\<rparr>]))"
    and "omap_erase orderId m = Some (m[cell m orderId := empty_value])"
    and "omap_find orderId m = Some (m ! cell m orderId)"
proof -
  have "cell m orderId < length m"
    using assms by (intro cell_less) (auto simp: map_size_ok_def)
  then show "omap_insert orderId poolIndex side m =
      Some (if mv_poolIndex (m ! cell m orderId) \<noteq> MAP_NONE then (False, m)
            else (True, m[cell m orderId := \<lparr>mv_poolIndex = poolIndex, mv_side = side\<rparr>]))"
    and "omap_erase orderId m = Some (m[cell m orderId := empty_value])"
    and "omap_find orderId m = Some (m ! cell m orderId)"
    by (simp_all add: omap_insert_def omap_erase_def omap_find_def cell16_cell [OF assms] array_simps
        empty_value_def Let_def)
qed

section \<open>The map it stands for\<close>

text \<open>
  \<open>omap_rep m M\<close>: the table holds exactly the entries of the map \<open>M\<close> from order ids to a pool
  index and a side, no two of which share a cell.
\<close>

definition omap_rep :: "order_map \<Rightarrow> (u64 \<rightharpoonup> u16 \<times> u8) \<Rightarrow> bool" where
  "omap_rep m M \<longleftrightarrow> map_size_ok m \<and> inj_on (cell m) (dom M)
     \<and> (\<forall>i p s. M i = Some (p, s) \<longrightarrow> p \<noteq> MAP_NONE \<and> m ! cell m i = \<lparr>mv_poolIndex = p, mv_side = s\<rparr>)
     \<and> (\<forall>k < length m. k \<notin> cell m ` dom M \<longrightarrow> m ! k = empty_value)"

lemma omap_rep_new: "0 < n \<Longrightarrow> n \<le> 65536 \<Longrightarrow> omap_rep (omap_new n) Map.empty"
  by (simp add: omap_rep_def omap_new_def map_size_ok_def)

lemma omap_rep_reset: "omap_rep m M \<Longrightarrow> omap_rep (omap_reset m) Map.empty"
  by (auto simp: omap_rep_def omap_reset_def map_size_ok_def empty_value_def)

lemma omap_rep_cell_less: "omap_rep m M \<Longrightarrow> cell m i < length m"
  by (intro cell_less) (auto simp: omap_rep_def map_size_ok_def)

lemma omap_rep_find:
  assumes "omap_rep m M" "M i = Some (p, s)"
  shows "omap_find i m = Some \<lparr>mv_poolIndex = p, mv_side = s\<rparr>"
  using assms by (simp add: omap_rep_def omap_ops)

lemma omap_rep_find_free:
  assumes "omap_rep m M" "cell m i \<notin> cell m ` dom M"
  shows "omap_find i m = Some empty_value"
  using assms omap_rep_cell_less [OF assms(1)] by (simp add: omap_rep_def omap_ops)

lemma omap_rep_occupied_iff:
  assumes "omap_rep m M"
  shows "mv_poolIndex (m ! cell m i) \<noteq> MAP_NONE \<longleftrightarrow> cell m i \<in> cell m ` dom M"
proof (cases "cell m i \<in> cell m ` dom M")
  case True
  then obtain j p s where "M j = Some (p, s)" "cell m i = cell m j" by auto
  with assms True show ?thesis by (auto simp: omap_rep_def)
next
  case False
  with assms omap_rep_cell_less [OF assms] have "m ! cell m i = empty_value"
    by (simp add: omap_rep_def)
  with False show ?thesis by (simp add: empty_value_def)
qed

lemma omap_rep_insert:
  assumes rep: "omap_rep m M" and free: "cell m i \<notin> cell m ` dom M" and p: "p \<noteq> MAP_NONE"
  shows "omap_rep (m[cell m i := \<lparr>mv_poolIndex = p, mv_side = s\<rparr>]) (M(i \<mapsto> (p, s)))"
proof -
  have ne: "cell m j \<noteq> cell m i" "cell m i \<noteq> cell m j" if "M j = Some v" for j v
    using free that by (metis domI imageI)+
  have "inj_on (cell m) (insert i (dom M))"
    using rep free by (simp add: omap_rep_def inj_on_insert) blast
  then show ?thesis
    using rep p ne omap_rep_cell_less [OF rep, of i]
    by (auto simp: omap_rep_def nth_list_update)
qed

lemma omap_rep_erase:
  assumes rep: "omap_rep m M" and i: "i \<in> dom M"
  shows "omap_rep (m[cell m i := empty_value]) (M(i := None))"
proof -
  have ne: "cell m j \<noteq> cell m i" "cell m i \<noteq> cell m j" if "M j = Some v" "j \<noteq> i" for j v
    using rep i that by (metis omap_rep_def inj_onD domI)+
  have "inj_on (cell m) (dom M - {i})"
    using rep by (auto simp: omap_rep_def intro: inj_on_subset)
  moreover have "k \<notin> cell m ` (dom M - {i}) \<Longrightarrow> k \<noteq> cell m i \<Longrightarrow> k \<notin> cell m ` dom M" for k
    by auto
  ultimately show ?thesis
    using rep ne omap_rep_cell_less [OF rep, of i]
    by (auto simp: omap_rep_def nth_list_update)
qed

text \<open>The cell is taken or free; either way \<open>insert\<close> says which, and a free one is filled.\<close>

lemma omap_insert_rep:
  assumes "omap_rep m M" "p \<noteq> MAP_NONE"
  shows "\<exists>ok m'. omap_insert i p s m = Some (ok, m')
    \<and> (ok \<longleftrightarrow> cell m i \<notin> cell m ` dom M)
    \<and> omap_rep m' (if ok then M(i \<mapsto> (p, s)) else M)"
  using assms omap_rep_occupied_iff [OF assms(1), of i] omap_rep_insert [OF assms(1) _ assms(2), of i s]
  by (auto simp: omap_ops omap_rep_def)

lemma omap_erase_rep:
  assumes "omap_rep m M" "i \<in> dom M"
  shows "\<exists>m'. omap_erase i m = Some m' \<and> omap_rep m' (M(i := None))"
  using assms omap_rep_erase [OF assms] by (simp add: omap_ops omap_rep_def)

end
