(* ===== verification/PriceLevels.thy ===== *)
theory PriceLevels
  imports Prelude "HOL-Library.Monad_Syntax"
begin

unbundle bit_operations_syntax

text \<open>
  One side of the book as an array of price levels: \<^verbatim>\<open>libs/match/PriceLevels.h\<close>. A level is a
  first-in first-out queue of pool entries, linked through the entries' \<open>_nextIndex\<close>, with the
  total quantity of its entries. \<open>MaxLevels\<close> is the length of \<open>pl_levels\<close>, \<open>PoolSize\<close> the length
  of the pool.

  \<^verbatim>\<open>PriceLevels.h\<close> uses three members of a pool entry, \<open>_levelIndex\<close>, \<open>_nextIndex\<close> and
  \<open>_quantity\<close>, which \<^verbatim>\<open>OrderBookEntry.h\<close> does not declare. The record \<open>pool_slot\<close> has these
  three members only, and the model is over any extension \<open>'z pool_slot_scheme\<close> of it, whatever
  else an entry holds. Both arrays are accessed unchecked: an index out of range makes an
  operation \<open>None\<close>.
\<close>

section \<open>State\<close>

record level =
  l_head :: u16
  l_tail :: u16
  l_totalQty :: u32

record price_levels =
  pl_levels :: "level list"
  pl_bestLevel :: u16
  pl_tickSize :: u32
  pl_refPrice :: u32

record pool_slot =
  ps_levelIndex :: u16
  ps_nextIndex :: u16
  ps_quantity :: u32

type_synonym 'z slots = "'z pool_slot_scheme list"

abbreviation NIL :: u16 where
  "NIL \<equiv> 0xFFFF"

definition NO_LEVEL :: u16 where
  "NO_LEVEL = 0xFFFF"

definition empty_level :: level where
  "empty_level = \<lparr>l_head = NIL, l_tail = NIL, l_totalQty = 0\<rparr>"

definition pl_new :: "nat \<Rightarrow> price_levels" where
  "pl_new maxLevels = \<lparr>pl_levels = replicate maxLevels empty_level, pl_bestLevel = NO_LEVEL,
     pl_tickSize = 1, pl_refPrice = 0\<rparr>"

section \<open>Operations\<close>

definition pl_reset :: "price_levels \<Rightarrow> price_levels" where
  "pl_reset pl = pl\<lparr>pl_bestLevel := NO_LEVEL, pl_refPrice := 0,
     pl_levels := map (\<lambda>_. empty_level) (pl_levels pl)\<rparr>"

definition pl_setBestLevel :: "u16 \<Rightarrow> price_levels \<Rightarrow> price_levels" where
  "pl_setBestLevel lvl pl = pl\<lparr>pl_bestLevel := lvl\<rparr>"

definition pl_setReferencePrice :: "u32 \<Rightarrow> price_levels \<Rightarrow> price_levels" where
  "pl_setReferencePrice price pl = pl\<lparr>pl_refPrice := price\<rparr>"

definition pl_setTickSize :: "u32 \<Rightarrow> price_levels \<Rightarrow> price_levels" where
  "pl_setTickSize tickSize pl = pl\<lparr>pl_tickSize := tickSize\<rparr>"

text \<open>\<open>LEVEL_MASK\<close> is a \<open>uint16_t\<close>. Division by a zero tick size is undefined.\<close>

definition LEVEL_MASK :: "price_levels \<Rightarrow> u16" where
  "LEVEL_MASK pl = of_nat (length (pl_levels pl)) - 1"

definition priceToLevel :: "u32 \<Rightarrow> price_levels \<Rightarrow> u16 option" where
  "priceToLevel price pl =
     (if pl_tickSize pl = 0 then None
      else Some (ucast ((price - pl_refPrice pl) div pl_tickSize pl) AND LEVEL_MASK pl))"

definition levelToPrice :: "u16 \<Rightarrow> price_levels \<Rightarrow> u32" where
  "levelToPrice lvl pl = pl_refPrice pl + ucast lvl * pl_tickSize pl"

definition pl_level :: "u16 \<Rightarrow> price_levels \<Rightarrow> level option" where
  "pl_level idx pl = array_get (pl_levels pl) (unat idx)"

definition pl_hasOrders :: "price_levels \<Rightarrow> bool" where
  "pl_hasOrders pl \<longleftrightarrow> list_ex (\<lambda>lvl. l_head lvl \<noteq> NIL) (pl_levels pl)"

definition pl_activeLevelCount :: "price_levels \<Rightarrow> nat" where
  "pl_activeLevelCount pl =
     fold (\<lambda>lvl count. if l_head lvl \<noteq> NIL then count + 1 else count) (pl_levels pl) 0"

definition appendToLevel ::
  "u16 \<Rightarrow> u16 \<Rightarrow> price_levels \<Rightarrow> 'z slots \<Rightarrow> (price_levels \<times> 'z slots) option" where
  "appendToLevel lvlIdx poolIdx pl pool = do {
     lvl \<leftarrow> array_get (pl_levels pl) (unat lvlIdx);
     entry \<leftarrow> array_get pool (unat poolIdx);
     let pool1 = pool[unat poolIdx := entry\<lparr>ps_levelIndex := lvlIdx, ps_nextIndex := NIL\<rparr>];
     (lvl1, pool2) \<leftarrow>
       (if l_tail lvl \<noteq> NIL then do {
          last \<leftarrow> array_get pool1 (unat (l_tail lvl));
          Some (lvl, pool1[unat (l_tail lvl) := last\<lparr>ps_nextIndex := poolIdx\<rparr>])
        } else Some (lvl\<lparr>l_head := poolIdx\<rparr>, pool1));
     added \<leftarrow> array_get pool2 (unat poolIdx);
     let lvl2 = lvl1\<lparr>l_tail := poolIdx, l_totalQty := l_totalQty lvl1 + ps_quantity added\<rparr>;
     Some (pl\<lparr>pl_levels := (pl_levels pl)[unat lvlIdx := lvl2]\<rparr>, pool2)
   }"

text \<open>The body of \<open>unlinkFromLevel\<close> at the entry it looks for, and the walk to it.\<close>

definition unlink_here :: "'z slots \<Rightarrow> level \<Rightarrow> u16 \<Rightarrow> u16 \<Rightarrow> (bool \<times> level \<times> 'z slots) option" where
  "unlink_here pool lvl prev idx = do {
     entry \<leftarrow> array_get pool (unat idx);
     (lvl1, pool1) \<leftarrow>
       (if prev \<noteq> NIL then do {
          before \<leftarrow> array_get pool (unat prev);
          Some (lvl, pool[unat prev := before\<lparr>ps_nextIndex := ps_nextIndex entry\<rparr>])
        } else Some (lvl\<lparr>l_head := ps_nextIndex entry\<rparr>, pool));
     let lvl2 = (if l_tail lvl1 = idx then lvl1\<lparr>l_tail := prev\<rparr> else lvl1);
     entry1 \<leftarrow> array_get pool1 (unat idx);
     let lvl3 = lvl2\<lparr>l_totalQty := l_totalQty lvl2 - ps_quantity entry1\<rparr>;
     Some (l_head lvl3 = NIL, lvl3, pool1[unat idx := entry1\<lparr>ps_nextIndex := NIL\<rparr>])
   }"

partial_function (option) unlink_loop ::
  "'z slots \<Rightarrow> level \<Rightarrow> u16 \<Rightarrow> u16 \<Rightarrow> u16 \<Rightarrow> (bool \<times> level \<times> 'z slots) option" where
  "unlink_loop pool lvl poolIdx prev idx =
     (if idx = NIL then Some (False, lvl, pool)
      else if idx = poolIdx then unlink_here pool lvl prev idx
      else Option.bind (array_get pool (unat idx))
             (\<lambda>entry. unlink_loop pool lvl poolIdx idx (ps_nextIndex entry)))"

definition unlinkFromLevel ::
  "u16 \<Rightarrow> price_levels \<Rightarrow> 'z slots \<Rightarrow> (bool \<times> price_levels \<times> 'z slots) option" where
  "unlinkFromLevel poolIdx pl pool = do {
     entry \<leftarrow> array_get pool (unat poolIdx);
     let lvlIdx = unat (ps_levelIndex entry);
     lvl \<leftarrow> array_get (pl_levels pl) lvlIdx;
     (emptied, lvl1, pool1) \<leftarrow> unlink_loop pool lvl poolIdx NIL (l_head lvl);
     Some (emptied, pl\<lparr>pl_levels := (pl_levels pl)[lvlIdx := lvl1]\<rparr>, pool1)
   }"

definition reduceQuantity ::
  "u16 \<Rightarrow> u32 \<Rightarrow> price_levels \<Rightarrow> 'z slots \<Rightarrow> (price_levels \<times> 'z slots) option" where
  "reduceQuantity poolIdx qty pl pool = do {
     entry \<leftarrow> array_get pool (unat poolIdx);
     let lvlIdx = unat (ps_levelIndex entry);
     lvl \<leftarrow> array_get (pl_levels pl) lvlIdx;
     Some (pl\<lparr>pl_levels := (pl_levels pl)[lvlIdx := lvl\<lparr>l_totalQty := l_totalQty lvl - qty\<rparr>]\<rparr>,
           pool[unat poolIdx := entry\<lparr>ps_quantity := ps_quantity entry - qty\<rparr>])
   }"

section \<open>Linked segments\<close>

text \<open>\<open>seg pool i xs j\<close>: following \<open>_nextIndex\<close> from \<open>i\<close> visits the entries \<open>xs\<close> and arrives at \<open>j\<close>.\<close>

fun seg :: "'z slots \<Rightarrow> u16 \<Rightarrow> u16 list \<Rightarrow> u16 \<Rightarrow> bool" where
  "seg pool i [] j \<longleftrightarrow> i = j"
| "seg pool i (x # xs) j \<longleftrightarrow> i = x \<and> x \<noteq> NIL \<and> unat x < length pool
     \<and> seg pool (ps_nextIndex (pool ! unat x)) xs j"

lemma seg_append: "seg pool i (xs @ ys) j \<longleftrightarrow> (\<exists>m. seg pool i xs m \<and> seg pool m ys j)"
  by (induction xs arbitrary: i) auto

lemma seg_valid: "seg pool i xs j \<Longrightarrow> x \<in> set xs \<Longrightarrow> x \<noteq> NIL \<and> unat x < length pool"
  by (induction xs arbitrary: i) auto

lemma seg_cong:
  "length pool' = length pool
    \<Longrightarrow> (\<And>x. x \<in> set xs \<Longrightarrow> ps_nextIndex (pool' ! unat x) = ps_nextIndex (pool ! unat x))
    \<Longrightarrow> seg pool' i xs j = seg pool i xs j"
  by (induction xs arbitrary: i) auto

lemma unat_eq_iff: "unat x = unat y \<longleftrightarrow> x = y"
  for x y :: "'a::len word"
  by (simp add: word_unat_eq_iff)

lemma seg_upd [simp]: "x \<notin> set xs \<Longrightarrow> seg (pool[unat x := e]) i xs j = seg pool i xs j"
  by (rule seg_cong) (simp, metis nth_list_update_neq unat_eq_iff)

section \<open>Queues represented by the levels\<close>

definition queue_qty :: "'z slots \<Rightarrow> u16 list \<Rightarrow> u32" where
  "queue_qty pool xs = sum_list (map (\<lambda>x. ps_quantity (pool ! unat x)) xs)"

definition level_rep :: "'z slots \<Rightarrow> u16 \<Rightarrow> level \<Rightarrow> u16 list \<Rightarrow> bool" where
  "level_rep pool k lvl xs \<longleftrightarrow> seg pool (l_head lvl) xs NIL \<and> distinct xs
     \<and> l_tail lvl = (if xs = [] then NIL else last xs)
     \<and> (\<forall>x \<in> set xs. ps_levelIndex (pool ! unat x) = k)
     \<and> l_totalQty lvl = queue_qty pool xs"

definition levels_rep :: "price_levels \<Rightarrow> 'z slots \<Rightarrow> u16 list list \<Rightarrow> bool" where
  "levels_rep pl pool Q \<longleftrightarrow> length Q = length (pl_levels pl) \<and> length Q \<le> 65536
     \<and> (\<forall>k < length Q. level_rep pool (of_nat k) (pl_levels pl ! k) (Q ! k))"

lemma queue_qty_simps [simp]:
  "queue_qty pool [] = 0"
  "queue_qty pool (x # xs) = ps_quantity (pool ! unat x) + queue_qty pool xs"
  "queue_qty pool (xs @ ys) = queue_qty pool xs + queue_qty pool ys"
  by (simp_all add: queue_qty_def)

lemma queue_qty_cong:
  "(\<And>x. x \<in> set xs \<Longrightarrow> ps_quantity (pool' ! unat x) = ps_quantity (pool ! unat x))
    \<Longrightarrow> queue_qty pool' xs = queue_qty pool xs"
  by (induction xs) auto

lemma level_rep_cong:
  assumes "length pool' = length pool" "\<And>x. x \<in> set xs \<Longrightarrow> pool' ! unat x = pool ! unat x"
  shows "level_rep pool' k lvl xs = level_rep pool k lvl xs"
  using assms seg_cong [OF assms(1), of xs] queue_qty_cong [of xs pool' pool]
  by (auto simp: level_rep_def)

lemma levels_rep_new: "n \<le> 65536 \<Longrightarrow> levels_rep (pl_new n) pool (replicate n [])"
  by (simp add: levels_rep_def level_rep_def pl_new_def empty_level_def)

lemma levels_rep_reset: "levels_rep pl pool Q \<Longrightarrow> levels_rep (pl_reset pl) pool (replicate (length Q) [])"
  by (simp add: levels_rep_def level_rep_def pl_reset_def empty_level_def)

lemma level_index_inj: "j < 65536 \<Longrightarrow> k < 65536 \<Longrightarrow> (of_nat j :: u16) = of_nat k \<longleftrightarrow> j = k"
  by (auto simp: word_unat_eq_iff unat_of_nat)

lemma levels_rep_disjoint:
  assumes "levels_rep pl pool Q" "j < length Q" "k < length Q" "x \<in> set (Q ! j)" "x \<in> set (Q ! k)"
  shows "j = k"
proof -
  have "ps_levelIndex (pool ! unat x) = of_nat j" "ps_levelIndex (pool ! unat x) = of_nat k"
    using assms unfolding levels_rep_def level_rep_def by blast+
  then show ?thesis
    using assms level_index_inj [of j k] by (simp add: levels_rep_def)
qed


lemma levels_rep_queue:
  "levels_rep pl pool Q \<Longrightarrow> k < length Q \<Longrightarrow> level_rep pool (of_nat k) (pl_levels pl ! k) (Q ! k)"
  by (simp add: levels_rep_def)

text \<open>
  Changing one level, its queue, and only pool entries that are in no other queue.
\<close>

lemma levels_rep_update:
  assumes rep: "levels_rep pl pool Q" and l: "l < length Q" and len: "length pool' = length pool"
    and frame: "\<And>k x. k < length Q \<Longrightarrow> k \<noteq> l \<Longrightarrow> x \<in> set (Q ! k) \<Longrightarrow> pool' ! unat x = pool ! unat x"
    and new: "level_rep pool' (of_nat l) lvl q"
  shows "levels_rep (pl\<lparr>pl_levels := (pl_levels pl)[l := lvl]\<rparr>) pool' (Q[l := q])"
proof -
  have "level_rep pool' (of_nat k) (pl_levels pl ! k) (Q ! k)" if "k < length Q" "k \<noteq> l" for k
    using levels_rep_queue [OF rep that(1)] level_rep_cong [OF len] frame [OF that] by blast
  with rep l new show ?thesis
    by (auto simp: levels_rep_def nth_list_update)
qed

section \<open>Appending\<close>

lemma level_rep_append:
  assumes rep: "level_rep pool k lvl xs" and x: "x \<notin> set xs" "x \<noteq> NIL" "unat x < length pool"
    and lk: "ps_levelIndex e = k" and nx: "ps_nextIndex e = NIL"
    and qty: "ps_quantity e = ps_quantity (pool ! unat x)"
  shows "xs = [] \<Longrightarrow> level_rep (pool[unat x := e]) k
      (lvl\<lparr>l_head := x, l_tail := x, l_totalQty := l_totalQty lvl + ps_quantity e\<rparr>) [x]"
    and "xs \<noteq> [] \<Longrightarrow> level_rep (pool[unat x := e, unat (last xs) := (pool ! unat (last xs))\<lparr>ps_nextIndex := x\<rparr>]) k
      (lvl\<lparr>l_tail := x, l_totalQty := l_totalQty lvl + ps_quantity e\<rparr>) (xs @ [x])"
proof -
  assume "xs = []"
  with rep x lk nx show "level_rep (pool[unat x := e]) k
      (lvl\<lparr>l_head := x, l_tail := x, l_totalQty := l_totalQty lvl + ps_quantity e\<rparr>) [x]"
    by (simp add: level_rep_def)
next
  assume ne: "xs \<noteq> []"
  define ys l where "ys = butlast xs" and "l = last xs"
  have xs: "xs = ys @ [l]" using ne by (simp add: ys_def l_def)
  let ?p = "pool[unat x := e, unat l := (pool ! unat l)\<lparr>ps_nextIndex := x\<rparr>]"
  have dist: "l \<notin> set ys" "x \<notin> set ys" "x \<noteq> l" using rep x xs by (auto simp: level_rep_def)
  have s: "seg pool (l_head lvl) ys l" "l \<noteq> NIL" "unat l < length pool"
    using rep by (auto simp: level_rep_def xs seg_append)
  have "seg ?p (l_head lvl) ys l" using s(1) dist by simp
  moreover have at_l: "?p ! unat l = (pool ! unat l)\<lparr>ps_nextIndex := x\<rparr>" using s by simp
  moreover have at_x: "?p ! unat x = e"
    using x dist by (simp add: nth_list_update_neq unat_eq_iff)
  moreover have at_y: "?p ! unat y = pool ! unat y" if "y \<in> set ys" for y
    using that dist by (metis nth_list_update_neq unat_eq_iff)
  moreover have "queue_qty ?p ys = queue_qty pool ys" by (rule queue_qty_cong) (simp add: at_y)
  ultimately show "level_rep (pool[unat x := e, unat (last xs) := (pool ! unat (last xs))\<lparr>ps_nextIndex := x\<rparr>]) k
      (lvl\<lparr>l_tail := x, l_totalQty := l_totalQty lvl + ps_quantity e\<rparr>) (xs @ [x])"
    using rep x lk nx s dist
    by (auto simp: level_rep_def xs seg_append simp del: nth_list_update_neq)
qed


lemma level_rep_tail_NIL: "level_rep pool k lvl xs \<Longrightarrow> l_tail lvl = NIL \<longleftrightarrow> xs = []"
  using seg_valid [of pool "l_head lvl" xs NIL "last xs"] by (auto simp: level_rep_def)

lemma level_rep_head_NIL: "level_rep pool k lvl xs \<Longrightarrow> l_head lvl = NIL \<longleftrightarrow> xs = []"
  by (cases xs) (auto simp: level_rep_def)

lemma level_rep_valid: "level_rep pool k lvl xs \<Longrightarrow> x \<in> set xs \<Longrightarrow> x \<noteq> NIL \<and> unat x < length pool"
  unfolding level_rep_def using seg_valid by blast

lemma append_result:
  assumes "unat l < length (pl_levels pl)" "unat x < length pool"
    and "lvl = pl_levels pl ! unat l"
    and "e = (pool ! unat x)\<lparr>ps_levelIndex := l, ps_nextIndex := NIL\<rparr>"
    and "l_tail lvl \<noteq> NIL \<Longrightarrow> unat (l_tail lvl) < length pool \<and> l_tail lvl \<noteq> x"
  shows "appendToLevel l x pl pool = Some (if l_tail lvl = NIL
    then (pl\<lparr>pl_levels := (pl_levels pl)[unat l :=
            lvl\<lparr>l_head := x, l_tail := x, l_totalQty := l_totalQty lvl + ps_quantity e\<rparr>]\<rparr>, pool[unat x := e])
    else (pl\<lparr>pl_levels := (pl_levels pl)[unat l :=
            lvl\<lparr>l_tail := x, l_totalQty := l_totalQty lvl + ps_quantity e\<rparr>]\<rparr>,
          pool[unat x := e, unat (l_tail lvl) := (pool ! unat (l_tail lvl))\<lparr>ps_nextIndex := x\<rparr>]))"
proof -
  have "unat (l_tail lvl) \<noteq> unat x" if "l_tail lvl \<noteq> NIL"
    using assms(5) [OF that] by (simp add: unat_eq_iff)
  then show ?thesis
    using assms by (auto simp: appendToLevel_def array_simps Let_def nth_list_update)
qed

lemma appendToLevel_rep:
  assumes rep: "levels_rep pl pool Q" and l: "unat l < length Q"
    and x: "x \<notin> set (concat Q)" "x \<noteq> NIL" "unat x < length pool"
  shows "\<exists>pl' pool'. appendToLevel l x pl pool = Some (pl', pool')
    \<and> levels_rep pl' pool' (Q[unat l := Q ! unat l @ [x]])"
proof -
  let ?xs = "Q ! unat l" and ?lvl = "pl_levels pl ! unat l"
  define e where "e = (pool ! unat x)\<lparr>ps_levelIndex := l, ps_nextIndex := NIL\<rparr>"
  have r: "level_rep pool l ?lvl ?xs" using levels_rep_queue [OF rep l] by simp
  have xk: "x \<notin> set (Q ! k)" if "k < length Q" for k using x(1) that by auto
  have tail: "?xs \<noteq> [] \<Longrightarrow> l_tail ?lvl = last ?xs" using r by (simp add: level_rep_def)
  have "?xs \<noteq> [] \<Longrightarrow> last ?xs \<in> set ?xs" by simp
  then have last: "?xs \<noteq> [] \<Longrightarrow> unat (last ?xs) < length pool \<and> last ?xs \<noteq> x"
    using level_rep_valid [OF r] xk [OF l] by metis
  have len: "unat l < length (pl_levels pl)" using rep l by (simp add: levels_rep_def)
  note res = append_result [OF len x(3) refl e_def]
  have fr_x: "pool[unat x := e] ! unat y = pool ! unat y" if "k < length Q" "y \<in> set (Q ! k)" for k y
    using xk [OF that(1)] that(2) by (metis nth_list_update_neq unat_eq_iff)
  show ?thesis
  proof (cases "?xs = []")
    case True
    have "level_rep (pool[unat x := e]) l
        (?lvl\<lparr>l_head := x, l_tail := x, l_totalQty := l_totalQty ?lvl + ps_quantity e\<rparr>) [x]"
      using level_rep_append(1) [OF r xk [OF l] x(2,3), of e] True by (simp add: e_def)
    with True fr_x show ?thesis
      using res level_rep_tail_NIL [OF r] levels_rep_update [OF rep l, of "pool[unat x := e]"] by simp
  next
    case False
    let ?p = "pool[unat x := e, unat (last ?xs) := (pool ! unat (last ?xs))\<lparr>ps_nextIndex := x\<rparr>]"
    have new: "level_rep ?p l (?lvl\<lparr>l_tail := x, l_totalQty := l_totalQty ?lvl + ps_quantity e\<rparr>) (?xs @ [x])"
      using level_rep_append(2) [OF r xk [OF l] x(2,3), of e] False by (simp add: e_def)
    have fr: "?p ! unat y = pool ! unat y" if "k < length Q" "k \<noteq> unat l" "y \<in> set (Q ! k)" for k y
    proof -
      have "y \<noteq> last ?xs"
        using levels_rep_disjoint [OF rep that(1) l that(3)] that(2) False by auto
      then show ?thesis
        using fr_x [OF that(1,3)] by (metis nth_list_update_neq unat_eq_iff)
    qed
    show ?thesis
      using res level_rep_tail_NIL [OF r] tail [OF False] last [OF False] False new fr
        levels_rep_update [OF rep l, of ?p] by simp
  qed
qed

section \<open>Reducing and counting\<close>

lemma reduceQuantity_rep:
  assumes rep: "levels_rep pl pool Q" and k: "k < length Q" and x: "x \<in> set (Q ! k)"
  shows "\<exists>pl' pool'. reduceQuantity x qty pl pool = Some (pl', pool') \<and> levels_rep pl' pool' Q
    \<and> ps_quantity (pool' ! unat x) = ps_quantity (pool ! unat x) - qty"
proof -
  let ?lvl = "pl_levels pl ! k"
  let ?e = "(pool ! unat x)\<lparr>ps_quantity := ps_quantity (pool ! unat x) - qty\<rparr>"
  let ?p = "pool[unat x := ?e]"
  have r: "level_rep pool (of_nat k) ?lvl (Q ! k)" using levels_rep_queue [OF rep k] .
  have xv: "unat x < length pool" using level_rep_valid [OF r x] by simp
  have kx: "unat (ps_levelIndex (pool ! unat x)) = k"
    using r x k rep by (simp add: level_rep_def levels_rep_def unat_of_nat)
  have kl: "k < length (pl_levels pl)" using rep k by (simp add: levels_rep_def)
  have res: "reduceQuantity x qty pl pool = Some
      (pl\<lparr>pl_levels := (pl_levels pl)[k := ?lvl\<lparr>l_totalQty := l_totalQty ?lvl - qty\<rparr>]\<rparr>, ?p)"
    using xv kx kl by (simp add: reduceQuantity_def array_simps)
  have other: "?p ! unat y = pool ! unat y" if "y \<noteq> x" for y :: u16
    using that by (metis nth_list_update_neq unat_eq_iff)
  obtain as bs where Qk: "Q ! k = as @ x # bs" and nin: "x \<notin> set as" "x \<notin> set bs"
    using split_list [OF x] r by (auto simp: level_rep_def)
  have "seg ?p (l_head ?lvl) (Q ! k) NIL = seg pool (l_head ?lvl) (Q ! k) NIL"
  proof (rule seg_cong)
    fix y :: u16
    show "ps_nextIndex (?p ! unat y) = ps_nextIndex (pool ! unat y)"
      using other xv by (cases "y = x") auto
  qed simp
  moreover have "queue_qty ?p as = queue_qty pool as" "queue_qty ?p bs = queue_qty pool bs"
    using other nin by (metis queue_qty_cong)+
  then have "queue_qty ?p (Q ! k) = queue_qty pool (Q ! k) - qty"
    using xv by (simp add: Qk)
  moreover have "ps_levelIndex (?p ! unat y) = ps_levelIndex (pool ! unat y)" for y :: u16
    using other xv by (cases "y = x") auto
  ultimately have new: "level_rep ?p (of_nat k) (?lvl\<lparr>l_totalQty := l_totalQty ?lvl - qty\<rparr>) (Q ! k)"
    using r by (simp add: level_rep_def)
  have frame: "?p ! unat y = pool ! unat y" if "j < length Q" "j \<noteq> k" "y \<in> set (Q ! j)" for j y
  proof -
    have "y \<noteq> x" using levels_rep_disjoint [OF rep that(1) k that(3)] that(2) x by auto
    then show ?thesis by (rule other)
  qed
  have "levels_rep (pl\<lparr>pl_levels := (pl_levels pl)[k := ?lvl\<lparr>l_totalQty := l_totalQty ?lvl - qty\<rparr>]\<rparr>)
      ?p (Q[k := Q ! k])"
    by (rule levels_rep_update [OF rep k _ frame new]) simp_all
  with res xv show ?thesis by simp
qed

lemma levels_rep_head_NIL:
  assumes "levels_rep pl pool Q" "k < length (pl_levels pl)"
  shows "l_head (pl_levels pl ! k) \<noteq> NIL \<longleftrightarrow> Q ! k \<noteq> []"
  using assms level_rep_head_NIL [OF levels_rep_queue [OF assms(1)], of k] by (simp add: levels_rep_def)

lemma pl_hasOrders_rep:
  assumes "levels_rep pl pool Q"
  shows "pl_hasOrders pl \<longleftrightarrow> (\<exists>q \<in> set Q. q \<noteq> [])"
proof -
  have "pl_hasOrders pl \<longleftrightarrow> (\<exists>k < length (pl_levels pl). Q ! k \<noteq> [])"
    using levels_rep_head_NIL [OF assms] by (auto simp: pl_hasOrders_def list_ex_length)
  moreover have "length (pl_levels pl) = length Q" using assms by (simp add: levels_rep_def)
  ultimately show ?thesis by (metis in_set_conv_nth)
qed

lemma fold_count: "fold (\<lambda>x n. if P x then n + 1 else n) xs n = n + length (filter P xs)"
  by (induction xs arbitrary: n) auto

lemma length_filter_nth_cong:
  assumes "length xs = length ys" "\<And>k. k < length xs \<Longrightarrow> P (xs ! k) \<longleftrightarrow> R (ys ! k)"
  shows "length (filter P xs) = length (filter R ys)"
  using assms by (simp add: length_filter_conv_card cong: conj_cong)

lemma pl_activeLevelCount_rep:
  assumes "levels_rep pl pool Q"
  shows "pl_activeLevelCount pl = length (filter (\<lambda>q. q \<noteq> []) Q)"
proof -
  have "length (filter (\<lambda>lvl. l_head lvl \<noteq> NIL) (pl_levels pl)) = length (filter (\<lambda>q. q \<noteq> []) Q)"
    using assms levels_rep_head_NIL [OF assms]
    by (intro length_filter_nth_cong) (auto simp: levels_rep_def)
  then show ?thesis by (simp add: pl_activeLevelCount_def fold_count)
qed

end
