(* ===== verification/PriceUnlink.thy ===== *)
theory PriceUnlink
  imports PriceLevels
begin

unbundle bit_operations_syntax

text \<open>
  \<open>unlinkFromLevel\<close> of \<^verbatim>\<open>libs/match/PriceLevels.h\<close> removes an entry from its level's queue,
  and the conversion between prices and level numbers. The walk along the links ends because a
  well-formed level is a finite path to the end marker.
\<close>

section \<open>The walk\<close>

lemma unlink_walk:
  "seg pool idx (as @ x # bs) NIL \<Longrightarrow> x \<notin> set as
    \<Longrightarrow> unlink_loop pool lvl x prev idx = unlink_here pool lvl (if as = [] then prev else last as) x"
proof (induction as arbitrary: prev idx)
  case Nil
  then show ?case by (subst unlink_loop.simps) simp
next
  case (Cons a as)
  then show ?case by (subst unlink_loop.simps) (auto simp: array_simps)
qed

lemma unlink_absent:
  "seg pool idx xs NIL \<Longrightarrow> x \<notin> set xs \<Longrightarrow> unlink_loop pool lvl x prev idx = Some (False, lvl, pool)"
proof (induction xs arbitrary: prev idx)
  case Nil
  then show ?case by (subst unlink_loop.simps) simp
next
  case (Cons a as)
  then show ?case by (subst unlink_loop.simps) (auto simp: array_simps)
qed

section \<open>The removal\<close>

lemma pool_update_other: "y \<noteq> x \<Longrightarrow> pool[unat x := e] ! unat y = pool ! unat y"
  for x y :: u16
  by (metis nth_list_update_neq unat_eq_iff)

definition unlinked_level :: "'z slots \<Rightarrow> level \<Rightarrow> u16 \<Rightarrow> u16 \<Rightarrow> level" where
  "unlinked_level pool lvl prev x = \<lparr>
     l_head = (if prev = NIL then ps_nextIndex (pool ! unat x) else l_head lvl),
     l_tail = (if l_tail lvl = x then prev else l_tail lvl),
     l_totalQty = l_totalQty lvl - ps_quantity (pool ! unat x)\<rparr>"

definition unlinked_pool :: "'z slots \<Rightarrow> u16 \<Rightarrow> u16 \<Rightarrow> 'z slots" where
  "unlinked_pool pool prev x =
     (if prev = NIL then pool
      else pool[unat prev := (pool ! unat prev)\<lparr>ps_nextIndex := ps_nextIndex (pool ! unat x)\<rparr>])
     [unat x := (pool ! unat x)\<lparr>ps_nextIndex := NIL\<rparr>]"

lemma unlink_here_result:
  assumes "unat x < length pool" "prev \<noteq> NIL \<Longrightarrow> unat prev < length pool" "prev \<noteq> x"
  shows "unlink_here pool lvl prev x = Some (l_head (unlinked_level pool lvl prev x) = NIL,
    unlinked_level pool lvl prev x, unlinked_pool pool prev x)"
  using assms by (auto simp: unlink_here_def unlinked_level_def unlinked_pool_def array_simps
      Let_def pool_update_other)

lemma length_unlinked_pool [simp]: "length (unlinked_pool pool prev x) = length pool"
  by (simp add: unlinked_pool_def)

lemma unlinked_pool_fields:
  assumes "unat x < length pool" "prev \<noteq> NIL \<Longrightarrow> unat prev < length pool" "prev \<noteq> x"
  shows "ps_quantity (unlinked_pool pool prev x ! unat y) = ps_quantity (pool ! unat y)"
    and "ps_levelIndex (unlinked_pool pool prev x ! unat y) = ps_levelIndex (pool ! unat y)"
    and "y \<noteq> x \<Longrightarrow> y \<noteq> prev \<Longrightarrow> unlinked_pool pool prev x ! unat y = pool ! unat y"
    and "ps_nextIndex (unlinked_pool pool prev x ! unat x) = NIL"
    and "prev \<noteq> NIL \<Longrightarrow>
      ps_nextIndex (unlinked_pool pool prev x ! unat prev) = ps_nextIndex (pool ! unat x)"
  using assms by (auto simp: unlinked_pool_def nth_list_update unat_eq_iff)

lemma level_rep_unlink:
  assumes rep: "level_rep pool k lvl (as @ x # bs)" and prev: "prev = (if as = [] then NIL else last as)"
  shows "level_rep (unlinked_pool pool prev x) k (unlinked_level pool lvl prev x) (as @ bs)"
proof -
  let ?p = "unlinked_pool pool prev x"
  have dist: "distinct (as @ x # bs)" using rep by (simp add: level_rep_def)
  have val: "y \<in> set (as @ x # bs) \<Longrightarrow> y \<noteq> NIL \<and> unat y < length pool" for y
    using level_rep_valid [OF rep] .
  have prev_in: "as \<noteq> [] \<Longrightarrow> prev \<in> set as" using prev by simp
  then have pn: "prev = NIL \<longleftrightarrow> as = []" using val [of prev] prev by (cases "as = []") auto
  have pre: "unat x < length pool" "prev \<noteq> NIL \<Longrightarrow> unat prev < length pool" "prev \<noteq> x"
    using val [of x] val [of prev] pn prev_in prev dist by auto
  note f = unlinked_pool_fields [OF pre]
  have s: "seg pool (l_head lvl) as x" "seg pool (ps_nextIndex (pool ! unat x)) bs NIL"
    using rep by (auto simp: level_rep_def seg_append)
  have "prev \<notin> set bs" using pn prev_in dist val [of NIL] by (cases "as = []") auto
  then have same_bs: "y \<in> set bs \<Longrightarrow> ?p ! unat y = pool ! unat y" for y
    using f(3) [of y] dist by auto
  then have segbs: "seg ?p (ps_nextIndex (pool ! unat x)) bs NIL"
    using s(2) by (subst seg_cong [of _ pool]) auto
  have "seg ?p (l_head (unlinked_level pool lvl prev x)) (as @ bs) NIL"
  proof (cases "as = []")
    case True
    with segbs pn show ?thesis by (simp add: unlinked_level_def)
  next
    case False
    define zs where "zs = butlast as"
    have as: "as = zs @ [prev]" using False prev by (simp add: zs_def)
    have "y \<in> set zs \<Longrightarrow> ?p ! unat y = pool ! unat y" for y
      using f(3) [of y] dist as by auto
    then have "seg ?p (l_head lvl) zs prev = seg pool (l_head lvl) zs prev"
      by (intro seg_cong) auto
    then have "seg ?p (l_head lvl) zs prev" using s(1) as by (simp add: seg_append)
    with segbs f(5) pn pre False show ?thesis
      by (auto simp: as seg_append unlinked_level_def)
  qed
  moreover have "l_tail (unlinked_level pool lvl prev x) = (if as @ bs = [] then NIL else last (as @ bs))"
  proof -
    have tl: "l_tail lvl = last (as @ x # bs)" using rep by (simp add: level_rep_def)
    have "bs \<noteq> [] \<Longrightarrow> last bs \<noteq> x" using dist by (metis distinct.simps(2) distinct_append last_in_set)
    then show ?thesis
      using tl by (cases "bs = []") (simp_all add: unlinked_level_def prev)
  qed
  moreover have "queue_qty ?p ys = queue_qty pool ys" for ys
    using f(1) by (intro queue_qty_cong) auto
  then have "l_totalQty (unlinked_level pool lvl prev x) = queue_qty ?p (as @ bs)"
    using rep by (simp add: unlinked_level_def level_rep_def)
  ultimately show ?thesis
    using dist rep f(2) by (simp add: level_rep_def)
qed

section \<open>The operation on a whole side\<close>

lemma levels_rep_level:
  assumes "levels_rep pl pool Q" "k < length Q" "x \<in> set (Q ! k)"
  shows "unat (ps_levelIndex (pool ! unat x)) = k" "unat x < length pool" "k < length (pl_levels pl)"
proof -
  have "ps_levelIndex (pool ! unat x) = of_nat k"
    using levels_rep_queue [OF assms(1,2)] assms(3) by (simp add: level_rep_def)
  then show "unat (ps_levelIndex (pool ! unat x)) = k"
    using assms by (simp add: levels_rep_def unat_of_nat)
  show "unat x < length pool"
    using level_rep_valid [OF levels_rep_queue [OF assms(1,2)] assms(3)] by simp
  show "k < length (pl_levels pl)" using assms by (simp add: levels_rep_def)
qed

lemma unlinkFromLevel_rep:
  assumes rep: "levels_rep pl pool Q" and k: "k < length Q" and x: "x \<in> set (Q ! k)"
  shows "\<exists>pl' pool'. unlinkFromLevel x pl pool = Some (remove1 x (Q ! k) = [], pl', pool')
    \<and> levels_rep pl' pool' (Q[k := remove1 x (Q ! k)]) \<and> ps_nextIndex (pool' ! unat x) = NIL"
proof -
  let ?lvl = "pl_levels pl ! k"
  note lv = levels_rep_level [OF rep k x]
  have r: "level_rep pool (of_nat k) ?lvl (Q ! k)" by (rule levels_rep_queue [OF rep k])
  obtain as bs where Qk: "Q ! k = as @ x # bs" and nin: "x \<notin> set as"
    using split_list_first [OF x] by auto
  have rm: "remove1 x (Q ! k) = as @ bs" using nin by (simp add: Qk remove1_append)
  define prev where "prev = (if as = [] then NIL else last as)"
  let ?lvl' = "unlinked_level pool ?lvl prev x" and ?p = "unlinked_pool pool prev x"
  have r': "level_rep pool (of_nat k) ?lvl (as @ x # bs)" using r Qk by simp
  have prev: "prev \<noteq> x" "prev \<noteq> NIL \<Longrightarrow> prev \<in> set (Q ! k)"
    using nin level_rep_valid [OF r x] by (auto simp: prev_def Qk)
  have prev_len: "prev \<noteq> NIL \<Longrightarrow> unat prev < length pool"
    using prev(2) level_rep_valid [OF r] by blast
  have new: "level_rep ?p (of_nat k) ?lvl' (as @ bs)"
    by (rule level_rep_unlink [OF r' prev_def])
  have "seg pool (l_head ?lvl) (as @ x # bs) NIL" using r' by (simp add: level_rep_def)
  then have "unlink_loop pool ?lvl x NIL (l_head ?lvl) = Some (as @ bs = [], ?lvl', ?p)"
    using unlink_walk [OF _ nin, of pool "l_head ?lvl" bs] unlink_here_result [OF lv(2) prev_len prev(1)]
      level_rep_head_NIL [OF new] by (simp add: prev_def)
  then have res: "unlinkFromLevel x pl pool
      = Some (as @ bs = [], pl\<lparr>pl_levels := (pl_levels pl)[k := ?lvl']\<rparr>, ?p)"
    using lv by (simp add: unlinkFromLevel_def array_simps)
  have frame: "?p ! unat y = pool ! unat y" if "j < length Q" "j \<noteq> k" "y \<in> set (Q ! j)" for j y
  proof -
    have "y \<notin> set (Q ! k)" using levels_rep_disjoint [OF rep that(1) k that(3)] that(2) by auto
    moreover have "y \<noteq> NIL" using level_rep_valid [OF levels_rep_queue [OF rep that(1)] that(3)] by simp
    ultimately show ?thesis
      using x prev(2) by (intro unlinked_pool_fields(3) [OF lv(2) prev_len prev(1)]) auto
  qed
  have "levels_rep (pl\<lparr>pl_levels := (pl_levels pl)[k := ?lvl']\<rparr>) ?p (Q[k := as @ bs])"
    by (rule levels_rep_update [OF rep k _ frame new]) simp_all
  with res rm show ?thesis
    using unlinked_pool_fields(4) [OF lv(2) prev_len prev(1)] by simp
qed

text \<open>An entry that is in none of the queues is not found, and nothing changes.\<close>

lemma unlinkFromLevel_absent:
  assumes rep: "levels_rep pl pool Q" and x: "unat x < length pool"
    and l: "unat (ps_levelIndex (pool ! unat x)) < length Q" and nin: "x \<notin> set (concat Q)"
  shows "unlinkFromLevel x pl pool = Some (False, pl, pool)"
proof -
  let ?l = "unat (ps_levelIndex (pool ! unat x))"
  have "seg pool (l_head (pl_levels pl ! ?l)) (Q ! ?l) NIL"
    using levels_rep_queue [OF rep l] unfolding level_rep_def by blast
  moreover have "x \<notin> set (Q ! ?l)" using nin l by auto
  ultimately have "unlink_loop pool (pl_levels pl ! ?l) x NIL (l_head (pl_levels pl ! ?l))
      = Some (False, pl_levels pl ! ?l, pool)"
    by (rule unlink_absent)
  moreover have "?l < length (pl_levels pl)" using rep l by (simp add: levels_rep_def)
  ultimately show ?thesis
    using x by (simp add: unlinkFromLevel_def array_simps)
qed

section \<open>Prices and levels\<close>

text \<open>The level arrays the mask is made for: a power of two, at most \<open>2 ^ 16\<close> levels.\<close>

definition levels_pow2 :: "nat \<Rightarrow> price_levels \<Rightarrow> bool" where
  "levels_pow2 n pl \<longleftrightarrow> n \<le> 16 \<and> length (pl_levels pl) = 2 ^ n"

lemma LEVEL_MASK_mask: "levels_pow2 n pl \<Longrightarrow> LEVEL_MASK pl = mask n"
  by (simp add: LEVEL_MASK_def levels_pow2_def mask_eq_decr_exp)

lemma priceToLevel_unat:
  assumes "levels_pow2 n pl" "pl_tickSize pl \<noteq> 0" "pl_refPrice pl \<le> price"
  shows "map_option unat (priceToLevel price pl)
    = Some ((unat price - unat (pl_refPrice pl)) div unat (pl_tickSize pl) mod 2 ^ n)"
proof -
  let ?t = "(price - pl_refPrice pl) div pl_tickSize pl"
  have "unat (ucast ?t AND mask n :: u16) = unat ?t mod 2 ^ n"
  proof -
    have "unat (ucast ?t AND mask n :: u16) = take_bit n (take_bit 16 (unat ?t))"
      by (simp add: unsigned_take_bit_eq unsigned_ucast_eq flip: take_bit_eq_mask)
    also have "\<dots> = take_bit n (unat ?t)"
      using assms(1) by (simp add: levels_pow2_def min_def)
    finally show ?thesis by (simp add: take_bit_eq_mod)
  qed
  moreover have "unat ?t = (unat price - unat (pl_refPrice pl)) div unat (pl_tickSize pl)"
    using unat_minus_le [OF assms(3)] by (simp add: unat_div)
  ultimately show ?thesis
    using assms LEVEL_MASK_mask [OF assms(1)] by (simp add: priceToLevel_def)
qed


lemma priceToLevel_returns:
  assumes "levels_pow2 n pl" "pl_tickSize pl \<noteq> 0"
  shows "\<exists>l. priceToLevel price pl = Some l \<and> unat l < length (pl_levels pl)"
proof -
  let ?t = "ucast ((price - pl_refPrice pl) div pl_tickSize pl) :: u16"
  have "unat (?t AND mask n) = take_bit n (unat ?t)"
    by (simp add: unsigned_take_bit_eq flip: take_bit_eq_mask)
  then have "unat (?t AND mask n) < 2 ^ n" by simp
  then show ?thesis
    using assms LEVEL_MASK_mask [OF assms(1)] by (auto simp: priceToLevel_def levels_pow2_def)
qed

text \<open>
  A price that is \<open>k\<close> ticks above the reference price, with \<open>k\<close> a level number, goes to level \<open>k\<close>
  and comes back.
\<close>

lemma price_level_roundtrip:
  assumes p2: "levels_pow2 n pl" and t: "pl_tickSize pl \<noteq> 0"
    and k: "k < length (pl_levels pl)" and price: "unat price = unat (pl_refPrice pl) + k * unat (pl_tickSize pl)"
  shows "\<exists>l. priceToLevel price pl = Some l \<and> unat l = k \<and> levelToPrice l pl = price"
proof -
  have le: "pl_refPrice pl \<le> price" using price by (simp add: word_le_nat_alt)
  have t0: "0 < unat (pl_tickSize pl)" using t by (simp add: word_eq_0_unat)
  have k16: "k < 2 ^ n" "k < 65536"
    using p2 k power_increasing [of n 16 "2::nat"] by (auto simp: levels_pow2_def)
  have "map_option unat (priceToLevel price pl) = Some k"
    using priceToLevel_unat [OF p2 t le] t0 k16(1) price by simp
  then obtain l where l: "priceToLevel price pl = Some l" "unat l = k" by auto
  have "unat (ucast l :: u32) = k"
    using l(2) k16(2) by (simp add: unsigned_ucast_eq unsigned_take_bit_eq take_bit_eq_mod)
  then have "unat (levelToPrice l pl) = (unat (pl_refPrice pl) + k * unat (pl_tickSize pl)) mod 2 ^ 32"
    by (simp add: levelToPrice_def unat_word_ariths mod_simps)
  also have "\<dots> = unat price" using price unsigned_less [of price, where ?'a = nat] by simp
  finally have "levelToPrice l pl = price" by (simp add: unat_eq_iff)
  with l show ?thesis by blast
qed

text \<open>
  Beyond the array the levels start over: a price \<open>MaxLevels\<close> ticks higher shares the level.
\<close>

lemma price_level_alias:
  assumes p2: "levels_pow2 n pl" and t: "pl_tickSize pl \<noteq> 0" and p: "pl_refPrice pl \<le> price"
    and q: "unat price' = unat price + j * length (pl_levels pl) * unat (pl_tickSize pl)"
  shows "priceToLevel price' pl = priceToLevel price pl"
proof -
  let ?t = "unat (pl_tickSize pl)" and ?r = "unat (pl_refPrice pl)"
  have t0: "0 < ?t" using t by (simp add: word_eq_0_unat)
  have le: "?r \<le> unat price" using p by (simp add: word_le_nat_alt)
  then have p': "pl_refPrice pl \<le> price'" using q by (simp add: word_le_nat_alt)
  have "unat price' - ?r = unat price - ?r + j * 2 ^ n * ?t"
    using q le p2 by (simp add: levels_pow2_def)
  then have "(unat price' - ?r) div ?t = (unat price - ?r) div ?t + j * 2 ^ n"
    using t0 by simp
  then have "map_option unat (priceToLevel price' pl) = map_option unat (priceToLevel price pl)"
    using priceToLevel_unat [OF p2 t p] priceToLevel_unat [OF p2 t p'] by auto
  then show ?thesis using t by (auto simp: priceToLevel_def unat_eq_iff)
qed

section \<open>A level with one entry\<close>

text \<open>Four empty levels, three free entries, and what appending entry 1 to level 2 makes of them.\<close>

definition free_slots :: "pool_slot list" where
  "free_slots = replicate 3 \<lparr>ps_levelIndex = 0, ps_nextIndex = NIL, ps_quantity = 9\<rparr>"

lemma one_in_level: "(replicate 4 [])[unat (2 :: u16) := replicate 4 [] ! unat (2 :: u16) @ [x]] = [[], [], [x], []]"
proof -
  have "unat (2 :: u16) = Suc (Suc 0)" by simp
  then show ?thesis by (simp add: numeral_eq_Suc del: unsigned_numeral)
qed

lemma levels_rep_free: "levels_rep (pl_new 4) free_slots (replicate 4 [])"
  by (rule levels_rep_new) simp

lemma append_one:
  obtains pl pool where "appendToLevel 2 1 (pl_new 4) free_slots = Some (pl, pool)"
    "levels_rep pl pool [[], [], [1], []]"
proof -
  have "unat (2 :: u16) < length (replicate 4 ([] :: u16 list))" "(1 :: u16) \<notin> set (concat (replicate 4 []))"
    "unat (1 :: u16) < length free_slots" by (simp_all add: free_slots_def)
  with appendToLevel_rep [OF levels_rep_free, of 2 1] that show ?thesis unfolding one_in_level by auto
qed

end
