(* ===== verification/OrderBook.thy ===== *)
theory OrderBook
  imports OrderMap PriceUnlink
begin

text \<open>
  The part of \<^verbatim>\<open>libs/match/OrderBook.h\<close> that has bodies: the constructor, \<open>reset\<close>, \<open>setTickSize\<close> and the counters,
  over the map and the two sides of price levels. The members \<open>reset\<close> and \<open>activeCount\<close> of the
  pool, which no class of the repository has, are arguments. The matching operations are only
  declared in the header.
\<close>

record 'pool order_book =
  ob_pool :: 'pool
  ob_map :: order_map
  ob_bids :: price_levels
  ob_asks :: price_levels
  ob_tickSize :: u32
  ob_refPriceSet :: bool

definition ob_new :: "'pool \<Rightarrow> nat \<Rightarrow> nat \<Rightarrow> 'pool order_book" where
  "ob_new pool mapSize maxLevels = \<lparr>ob_pool = pool, ob_map = omap_new mapSize, ob_bids = pl_new maxLevels,
     ob_asks = pl_new maxLevels, ob_tickSize = 1, ob_refPriceSet = False\<rparr>"

definition ob_reset :: "('pool \<Rightarrow> 'pool) \<Rightarrow> 'pool order_book \<Rightarrow> 'pool order_book" where
  "ob_reset pool_reset b = b\<lparr>ob_pool := pool_reset (ob_pool b), ob_map := omap_reset (ob_map b),
     ob_bids := pl_reset (ob_bids b), ob_asks := pl_reset (ob_asks b), ob_refPriceSet := False\<rparr>"

definition ob_setTickSize :: "u32 \<Rightarrow> 'pool order_book \<Rightarrow> 'pool order_book" where
  "ob_setTickSize tickSize b = b\<lparr>ob_bids := pl_setTickSize tickSize (ob_bids b),
     ob_asks := pl_setTickSize tickSize (ob_asks b), ob_tickSize := tickSize\<rparr>"

definition ob_orderCount :: "('pool \<Rightarrow> nat) \<Rightarrow> 'pool order_book \<Rightarrow> nat" where
  "ob_orderCount activeCount b = activeCount (ob_pool b)"

definition ob_bidLevelCount :: "'pool order_book \<Rightarrow> nat" where
  "ob_bidLevelCount b = pl_activeLevelCount (ob_bids b)"

definition ob_askLevelCount :: "'pool order_book \<Rightarrow> nat" where
  "ob_askLevelCount b = pl_activeLevelCount (ob_asks b)"

text \<open>The three copies of the tick size agree.\<close>

definition tick_sizes_agree :: "'pool order_book \<Rightarrow> bool" where
  "tick_sizes_agree b \<longleftrightarrow> pl_tickSize (ob_bids b) = ob_tickSize b \<and> pl_tickSize (ob_asks b) = ob_tickSize b"

lemma ob_new_empty:
  assumes "0 < mapSize" "mapSize \<le> 65536" "maxLevels \<le> 65536"
  shows "omap_rep (ob_map (ob_new pool mapSize maxLevels)) Map.empty"
    "levels_rep (ob_bids (ob_new pool mapSize maxLevels)) slots (replicate maxLevels [])"
    "levels_rep (ob_asks (ob_new pool mapSize maxLevels)) slots (replicate maxLevels [])"
    "tick_sizes_agree (ob_new pool mapSize maxLevels)"
  using omap_rep_new [OF assms(1,2)] levels_rep_new [OF assms(3), of slots]
  by (simp_all add: ob_new_def tick_sizes_agree_def pl_new_def)

lemma reset_levels:
  assumes "levels_rep pl pool Q"
  shows "pl_activeLevelCount (pl_reset pl) = 0" "\<not> pl_hasOrders (pl_reset pl)"
    "pl_tickSize (pl_reset pl) = pl_tickSize pl"
  using pl_activeLevelCount_rep [OF levels_rep_reset [OF assms]] pl_hasOrders_rep [OF levels_rep_reset [OF assms]]
  by (auto simp: pl_reset_def)

lemma reset_finds_nothing:
  assumes "omap_rep m M"
  shows "omap_find i (omap_reset m) = Some empty_value"
  using omap_rep_find_free [OF omap_rep_reset [OF assms], of i] by simp

lemma ob_reset_result:
  assumes "omap_rep (ob_map b) M" "levels_rep (ob_bids b) slots Qb" "levels_rep (ob_asks b) slots Qa"
    and "tick_sizes_agree b"
  shows "omap_rep (ob_map (ob_reset pool_reset b)) Map.empty
    \<and> (\<forall>i. omap_find i (ob_map (ob_reset pool_reset b)) = Some empty_value)
    \<and> ob_bidLevelCount (ob_reset pool_reset b) = 0 \<and> ob_askLevelCount (ob_reset pool_reset b) = 0
    \<and> \<not> ob_refPriceSet (ob_reset pool_reset b) \<and> tick_sizes_agree (ob_reset pool_reset b)
    \<and> ob_tickSize (ob_reset pool_reset b) = ob_tickSize b
    \<and> tick_sizes_agree (ob_setTickSize t b)"
  using omap_rep_reset [OF assms(1)] reset_finds_nothing [OF assms(1)] reset_levels [OF assms(2)]
    reset_levels [OF assms(3)] assms(4)
  by (simp add: ob_reset_def ob_bidLevelCount_def ob_askLevelCount_def tick_sizes_agree_def ob_setTickSize_def
      pl_setTickSize_def)

end
