(* ===== verification/PinnedThread.thy ===== *)
theory PinnedThread
  imports Machines
begin

text \<open>
  \<^verbatim>\<open>libs/concurrency/PinnedThread.h\<close>: the stop flag and its token, what \<open>ThreadBootstrap\<close> does
  before the worker runs, and the thread that a \<open>PinnedThread\<close> owns from its constructor to its
  destructor. The state of the worker is the type parameter \<open>'w\<close>.
\<close>

section \<open>The bootstrap\<close>

text \<open>
  With a target CPU the bootstrap sets the affinity: on Linux to the one core, on macOS as a tag
  that only groups threads, elsewhere not at all. An assertion checks the result of the call
  (\<open>None\<close> when it fails). Then it writes one byte of each cache line of a 64 KiB buffer and calls
  the worker.
\<close>

datatype platform = Linux | Apple | Other_Platform

definition NO_AFFINITY :: int where
  "NO_AFFINITY = -1"

definition WARMUP_SIZE :: nat where
  "WARMUP_SIZE = 64 * 1024"

datatype boot_event = Set_Affinity int | Set_Affinity_Tag int | Write_Byte nat | Run_Worker

function warmup_loop :: "nat \<Rightarrow> boot_event list" where
  "warmup_loop i = (if i < WARMUP_SIZE then Write_Byte i # warmup_loop (i + 64) else [])"
  by pat_completeness auto
termination
  by (relation "measure (\<lambda>i. WARMUP_SIZE - i)") (auto simp: WARMUP_SIZE_def)

declare warmup_loop.simps [simp del]

definition applyThreadAffinity :: "platform \<Rightarrow> int \<Rightarrow> int \<Rightarrow> boot_event list option" where
  "applyThreadAffinity platform returnCode targetCpu =
     (if targetCpu = -1 then Some []
      else (case platform of
              Linux \<Rightarrow> (if returnCode = 0 then Some [Set_Affinity targetCpu] else None)
            | Apple \<Rightarrow> (if returnCode = 0 then Some [Set_Affinity_Tag targetCpu] else None)
            | Other_Platform \<Rightarrow> Some []))"

definition bootstrap :: "platform \<Rightarrow> int \<Rightarrow> int \<Rightarrow> boot_event list option" where
  "bootstrap platform returnCode targetCpu =
     map_option (\<lambda>ev. ev @ warmup_loop 0 @ [Run_Worker]) (applyThreadAffinity platform returnCode targetCpu)"

text \<open>The platform, and what the call that sets the affinity to a CPU returns.\<close>

type_synonym cpu_env = "platform \<times> (int \<Rightarrow> int)"

definition affinity_works :: "cpu_env \<Rightarrow> int \<Rightarrow> bool" where
  "affinity_works env cpu \<longleftrightarrow> cpu = NO_AFFINITY \<or> fst env = Other_Platform \<or> snd env cpu = 0"

lemma bootstrap_works: "(\<exists>ev. bootstrap (fst env) (snd env cpu) cpu = Some ev) \<longleftrightarrow> affinity_works env cpu"
  by (cases "fst env") (auto simp: bootstrap_def applyThreadAffinity_def affinity_works_def NO_AFFINITY_def)

lemma warmup_loop_writes:
  "Write_Byte j \<in> set (warmup_loop i) \<longleftrightarrow> (\<exists>m. j = i + 64 * m \<and> j < WARMUP_SIZE)"
proof (induction i rule: warmup_loop.induct)
  case (1 i)
  show ?case
  proof (cases "i < WARMUP_SIZE")
    case True
    then have "Write_Byte j \<in> set (warmup_loop i)
        \<longleftrightarrow> j = i \<or> (\<exists>m. j = i + 64 + 64 * m \<and> j < WARMUP_SIZE)"
      using "1.IH" by (subst warmup_loop.simps) simp
    also have "\<dots> \<longleftrightarrow> (\<exists>m. j = i + 64 * m \<and> j < WARMUP_SIZE)"
    proof
      assume "\<exists>m. j = i + 64 * m \<and> j < WARMUP_SIZE"
      then obtain m where "j = i + 64 * m" "j < WARMUP_SIZE" by blast
      then show "j = i \<or> (\<exists>m. j = i + 64 + 64 * m \<and> j < WARMUP_SIZE)"
        by (cases m) auto
    next
      assume "j = i \<or> (\<exists>m. j = i + 64 + 64 * m \<and> j < WARMUP_SIZE)"
      then show "\<exists>m. j = i + 64 * m \<and> j < WARMUP_SIZE"
      proof
        assume "j = i"
        with True show ?thesis by (intro exI [of _ 0]) simp
      next
        assume "\<exists>m. j = i + 64 + 64 * m \<and> j < WARMUP_SIZE"
        then obtain m where "j = i + 64 + 64 * m" "j < WARMUP_SIZE" by blast
        then show ?thesis by (intro exI [of _ "Suc m"]) simp
      qed
    qed
    finally show ?thesis .
  next
    case False
    then show ?thesis by (subst warmup_loop.simps) auto
  qed
qed

section \<open>The thread\<close>

text \<open>
  A thread is before the call of the worker, in it, or at its end. The flag is an atomic of the
  \<open>PinnedThread\<close>; the token only reads it.
\<close>

datatype 'w thread_state = Booting | In_Worker 'w | Finished

record 'w pinned_thread =
  pt_stopFlag :: bool
  pt_targetCpu :: int
  pt_state :: "'w thread_state"

definition pinned_new :: "int \<Rightarrow> 'w pinned_thread" where
  "pinned_new targetCpu = \<lparr>pt_stopFlag = False, pt_targetCpu = targetCpu, pt_state = Booting\<rparr>"

definition requestStop :: "'w pinned_thread \<Rightarrow> 'w pinned_thread" where
  "requestStop p = p\<lparr>pt_stopFlag := True\<rparr>"

definition stopRequested :: "'w pinned_thread \<Rightarrow> bool" where
  "stopRequested p = pt_stopFlag p"

text \<open>
  One step of the thread: the bootstrap (no step when the assertion fails, which ends the process),
  or a step of the worker, which gets the
  flag's value and gives \<open>None\<close> when it returns.
\<close>

definition thread_step ::
  "cpu_env \<Rightarrow> 'w \<Rightarrow> (bool \<Rightarrow> 'w \<Rightarrow> 's \<Rightarrow> 'w option \<times> 's) \<Rightarrow> 'w pinned_thread \<Rightarrow> 's
    \<Rightarrow> ('w pinned_thread \<times> 's) option" where
  "thread_step env begin worker p s =
     (case pt_state p of
        Booting \<Rightarrow> (case bootstrap (fst env) (snd env (pt_targetCpu p)) (pt_targetCpu p) of
                      None \<Rightarrow> None
                    | Some ev \<Rightarrow> Some (p\<lparr>pt_state := In_Worker begin\<rparr>, s))
      | In_Worker w \<Rightarrow> (case worker (stopRequested p) w s of
                      (None, s') \<Rightarrow> Some (p\<lparr>pt_state := Finished\<rparr>, s')
                    | (Some w', s') \<Rightarrow> Some (p\<lparr>pt_state := In_Worker w'\<rparr>, s'))
      | Finished \<Rightarrow> None)"

text \<open>The destructor sets the flag and then waits; it gets past \<open>join\<close> when the thread has ended.\<close>

definition joins :: "'w pinned_thread \<Rightarrow> bool" where
  "joins p \<longleftrightarrow> pt_state p = Finished"

lemma pinned_simps [simp]:
  "pt_stopFlag (pinned_new cpu) = False" "pt_state (pinned_new cpu) = Booting"
  "pt_targetCpu (pinned_new cpu) = cpu"
  "pt_stopFlag (requestStop p) = True" "pt_state (requestStop p) = pt_state p"
  "pt_targetCpu (requestStop p) = pt_targetCpu p"
  "stopRequested (requestStop p)"
  by (simp_all add: pinned_new_def requestStop_def stopRequested_def)

lemma thread_step_flag:
  "thread_step env w0 worker p s = Some (p', s')
    \<Longrightarrow> pt_stopFlag p' = pt_stopFlag p \<and> pt_targetCpu p' = pt_targetCpu p \<and> pt_state p \<noteq> Finished"
  by (auto simp: thread_step_def split: thread_state.splits option.splits prod.splits)

text \<open>How many steps a thread has at most before its end, from such a bound for the worker.\<close>

definition thread_rank :: "('w \<Rightarrow> nat) \<Rightarrow> 'w \<Rightarrow> 'w pinned_thread \<Rightarrow> nat" where
  "thread_rank rank w0 p =
     (case pt_state p of Booting \<Rightarrow> rank w0 + 2 | In_Worker w \<Rightarrow> rank w + 1 | Finished \<Rightarrow> 0)"

text \<open>A worker that, told to stop, comes nearer to its end with every step.\<close>

locale stopping_worker =
  fixes worker :: "bool \<Rightarrow> 'w \<Rightarrow> 's \<Rightarrow> 'w option \<times> 's" and w0 :: 'w and rank :: "'w \<Rightarrow> nat"
  assumes stops: "worker True w s = (Some w', s') \<Longrightarrow> rank w' < rank w"
begin

lemma thread_rank_less:
  "thread_step env w0 worker p s = Some (p', s') \<Longrightarrow> pt_stopFlag p
    \<Longrightarrow> thread_rank rank w0 p' < thread_rank rank w0 p"
  by (auto simp: thread_step_def thread_rank_def stopRequested_def dest!: stops
      split: thread_state.splits option.splits prod.splits)

end

lemma thread_rank_0: "thread_rank rank w0 p = 0 \<longleftrightarrow> joins p"
  by (simp add: thread_rank_def joins_def split: thread_state.splits)

lemma thread_step_some:
  assumes "affinity_works env (pt_targetCpu p)" "\<not> joins p"
  shows "\<exists>res. thread_step env w0 worker p s = Some res"
proof -
  obtain ev where "bootstrap (fst env) (snd env (pt_targetCpu p)) (pt_targetCpu p) = Some ev"
    using assms(1) bootstrap_works [of env "pt_targetCpu p"] by auto
  with assms(2) show ?thesis
    by (auto simp: thread_step_def joins_def split: thread_state.splits prod.splits option.splits)
qed

end
