(* ===== verification/RingConsumer.thy ===== *)
theory RingConsumer
  imports SpScRing PinnedThread
begin

text \<open>
  The consumer of a ring buffer (\<^verbatim>\<open>libs/common/SpScRingBuffer/SpScRingBufferConsumer.h\<close>): its loop
  run against a schedule, and the object with the threads that \<open>start\<close> makes.
\<close>

section \<open>The loop\<close>

text \<open>
  One entry of the schedule is one iteration of \<open>consumeLoop\<close>: the items the producer pushes
  before it, and the value of the stop flag the iteration reads. The callback's calls are
  recorded. The spinner only waits.
\<close>

fun consumeLoop :: "('a list \<times> bool) list \<Rightarrow> 'a ring \<Rightarrow> 'a list \<Rightarrow> 'a list \<times> 'a ring" where
  "consumeLoop [] r called = (called, r)"
| "consumeLoop ((items, stop) # sched) r called =
     (let r1 = fold (\<lambda>x q. snd (tryPush x q)) items r
      in if stop then (called, r1)
         else case tryPop r1 of
                Some (message, r2) \<Rightarrow> consumeLoop sched r2 (called @ [message])
              | None \<Rightarrow> consumeLoop sched r1 called)"

text \<open>The calls on the buffer that a schedule amounts to, up to the first true flag.\<close>

fun sched_ops :: "('a list \<times> bool) list \<Rightarrow> 'a fifo_op list" where
  "sched_ops [] = []"
| "sched_ops ((items, stop) # sched) =
     map Push items @ (if stop then [] else Pop # sched_ops sched)"

lemma run_pushes:
  "run_ops tryPush tryPop (map Push items @ ops) r
    = (let (acc, out, r') = run_ops tryPush tryPop ops (fold (\<lambda>x q. snd (tryPush x q)) items r)
       in (fst (run_ops tryPush tryPop (map Push items) r) @ acc, out, r'))"
  by (induction items arbitrary: r) (auto simp: case_prod_beta Let_def)

lemma consumeLoop_ops:
  "consumeLoop sched r called
    = (let (acc, out, r') = run_ops tryPush tryPop (sched_ops sched) r in (called @ out, r'))"
proof (induction sched arbitrary: r called)
  case Nil
  then show ?case by simp
next
  case (Cons e sched)
  obtain items stop where e: "e = (items, stop)" by fastforce
  let ?r = "fold (\<lambda>x q. snd (tryPush x q)) items r"
  show ?case
  proof (cases stop)
    case True
    have "snd (run_ops tryPush tryPop (map Push items) r) = ([], ?r)"
      using arg_cong [OF run_pushes [of items "[]" r], of snd] by (simp add: Let_def)
    with True show ?thesis by (simp add: e case_prod_beta Let_def)
  next
    case False
    show ?thesis
    proof (cases "tryPop ?r")
      case None
      then show ?thesis
        using False Cons.IH [of ?r called] run_pushes [of items "Pop # sched_ops sched" r]
        by (simp add: e case_prod_beta Let_def)
    next
      case (Some res)
      obtain x r2 where "res = (x, r2)" by fastforce
      then show ?thesis
        using False Some Cons.IH [of r2 "called @ [x]"] run_pushes [of items "Pop # sched_ops sched" r]
        by (simp add: e case_prod_beta Let_def)
    qed
  qed
qed

text \<open>
  The callback gets the items the buffer accepted, each once and in order; the ones still in the
  buffer when the loop stops are not delivered.
\<close>

lemma consumeLoop_delivers:
  assumes "ring_wf r" "consumeLoop sched r [] = (called, r')"
    and "run_ops tryPush tryPop (sched_ops sched) r = (acc, out, r2)"
  shows "ring_items r @ acc = called @ ring_items r' \<and> ring_wf r'"
proof -
  have "called = out" "r' = r2" using assms(2,3) consumeLoop_ops [of sched r "[]"] by auto
  with ringq.run_in_order [OF assms(1,3)] show ?thesis by simp
qed

end
