(* ===== verification/ConsumerThreads.thy ===== *)
theory ConsumerThreads
  imports RingConsumer
begin

text \<open>
  The object \<open>SpScRingBufferConsumer\<close> with its threads. Three kinds of threads move: the producer,
  the owner of the object, which calls \<open>start\<close>, \<open>stop\<close> and the destructor, and the consumer
  threads that \<open>start\<close> has made. One step of a consumer thread is one access: the test of the
  token, each load, read and store of \<open>tryPop\<close>, and the call of the callback. A push is one step
  (its own accesses are in \<open>SpScConc\<close>).
\<close>

section \<open>State\<close>

text \<open>Where \<open>consumeLoop\<close> is; \<open>K_Call message\<close> is before the callback, \<open>K_Spin\<close> before the spinner.\<close>

datatype 'a consume_pc =
  K_Check
| K_LoadTail
| K_LoadHead nat
| K_Read nat
| K_StoreTail nat 'a
| K_Call 'a
| K_Spin

datatype owner_op = Do_Start int | Do_Stop | Do_Destroy

text \<open>
  The owner between two of its calls, or in the deletion of an old \<open>PinnedThread\<close>: before
  \<open>requestStop\<close> and before \<open>join\<close>.
\<close>

datatype owner_pc = O_Ready | O_Delete nat | O_Join nat

text \<open>
  \<open>cn_pinned\<close> is \<open>_pinnedThread\<close>, the number of a thread. The histories are the items the buffer
  took (\<open>cn_accepted\<close>) and the arguments of the callback (\<open>cn_called\<close>).
\<close>

record 'a consumer =
  cn_buffer :: "'a ring"
  cn_pinned :: "nat option"
  cn_threads :: "'a consume_pc pinned_thread list"
  cn_owner :: owner_pc
  cn_ops :: "owner_op list"
  cn_input :: "'a list"
  cn_accepted :: "'a list"
  cn_called :: "'a list"

definition consumer_new :: "'a ring \<Rightarrow> owner_op list \<Rightarrow> 'a list \<Rightarrow> 'a consumer" where
  "consumer_new r ops input = \<lparr>cn_buffer = r, cn_pinned = None, cn_threads = [], cn_owner = O_Ready,
     cn_ops = ops, cn_input = input, cn_accepted = [], cn_called = []\<rparr>"

section \<open>Steps\<close>

fun consume_step :: "bool \<Rightarrow> 'a consume_pc \<Rightarrow> 'a ring \<times> 'a list \<Rightarrow> 'a consume_pc option \<times> 'a ring \<times> 'a list" where
  "consume_step stop K_Check (r, called) = (if stop then None else Some K_LoadTail, r, called)"
| "consume_step stop K_LoadTail (r, called) = (Some (K_LoadHead (rb_tail r)), r, called)"
| "consume_step stop (K_LoadHead currentTail) (r, called) =
     (Some (if currentTail = rb_head r then K_Spin else K_Read currentTail), r, called)"
| "consume_step stop (K_Read currentTail) (r, called) =
     (Some (K_StoreTail currentTail (rb_buffer r ! currentTail)), r, called)"
| "consume_step stop (K_StoreTail currentTail message) (r, called) =
     (Some (K_Call message), r\<lparr>rb_tail := increment (capacity r) currentTail\<rparr>, called)"
| "consume_step stop (K_Call message) (r, called) = (Some K_Check, r, called @ [message])"
| "consume_step stop K_Spin (r, called) = (Some K_Check, r, called)"

text \<open>
  \<open>start\<close> makes the new thread, which can run at once, then assigns it to the \<open>unique_ptr\<close>, which
  deletes the old one: its destructor requests the stop and joins.
\<close>

definition consumer_start :: "int \<Rightarrow> 'a consumer \<Rightarrow> 'a consumer" where
  "consumer_start cpuCore s =
     s\<lparr>cn_threads := cn_threads s @ [pinned_new cpuCore],
       cn_pinned := Some (length (cn_threads s)),
       cn_owner := (case cn_pinned s of None \<Rightarrow> O_Ready | Some old \<Rightarrow> O_Delete old)\<rparr>"

definition stop_thread :: "nat \<Rightarrow> 'a consumer \<Rightarrow> 'a consumer" where
  "stop_thread t s = s\<lparr>cn_threads := (cn_threads s)[t := requestStop (cn_threads s ! t)]\<rparr>"

definition consumer_stop :: "'a consumer \<Rightarrow> 'a consumer" where
  "consumer_stop s = (case cn_pinned s of None \<Rightarrow> s | Some t \<Rightarrow> stop_thread t s)"

definition consumer_destroy :: "'a consumer \<Rightarrow> 'a consumer" where
  "consumer_destroy s =
     (case cn_pinned s of None \<Rightarrow> s | Some t \<Rightarrow> s\<lparr>cn_pinned := None, cn_owner := O_Delete t\<rparr>)"

fun owner_call :: "owner_op \<Rightarrow> 'a consumer \<Rightarrow> 'a consumer" where
  "owner_call (Do_Start cpuCore) s = consumer_start cpuCore s"
| "owner_call Do_Stop s = consumer_stop s"
| "owner_call Do_Destroy s = consumer_destroy s"

datatype mover = Producer | Owner | Consumer nat

fun consumer_next :: "cpu_env \<Rightarrow> mover \<Rightarrow> 'a consumer \<Rightarrow> 'a consumer option" where
  "consumer_next env Producer s =
     (case cn_input s of
        [] \<Rightarrow> None
      | item # items \<Rightarrow>
          (let (ok, r) = tryPush item (cn_buffer s)
           in Some (s\<lparr>cn_buffer := r, cn_input := items,
                      cn_accepted := (if ok then cn_accepted s @ [item] else cn_accepted s)\<rparr>)))"
| "consumer_next env Owner s =
     (case cn_owner s of
        O_Ready \<Rightarrow> (case cn_ops s of [] \<Rightarrow> None | op # ops \<Rightarrow> Some (owner_call op (s\<lparr>cn_ops := ops\<rparr>)))
      | O_Delete t \<Rightarrow> Some ((stop_thread t s)\<lparr>cn_owner := O_Join t\<rparr>)
      | O_Join t \<Rightarrow> (if joins (cn_threads s ! t) then Some (s\<lparr>cn_owner := O_Ready\<rparr>) else None))"
| "consumer_next env (Consumer t) s =
     (if t < length (cn_threads s)
      then (case thread_step env K_Check consume_step (cn_threads s ! t) (cn_buffer s, cn_called s) of
              None \<Rightarrow> None
            | Some (p, r, called) \<Rightarrow>
                Some (s\<lparr>cn_threads := (cn_threads s)[t := p], cn_buffer := r, cn_called := called\<rparr>))
      else None)"

inductive consumer_moves :: "cpu_env \<Rightarrow> 'a consumer \<Rightarrow> 'a consumer \<Rightarrow> bool" for env where
  moves: "consumer_next env m s = Some s' \<Longrightarrow> consumer_moves env s s'"

inductive_cases consumer_movesE: "consumer_moves env s s'"

text \<open>A run by a given order of the movers.\<close>

fun consumer_run :: "cpu_env \<Rightarrow> mover list \<Rightarrow> 'a consumer \<Rightarrow> 'a consumer option" where
  "consumer_run env [] s = Some s"
| "consumer_run env (m # ms) s = Option.bind (consumer_next env m s) (consumer_run env ms)"

lemma consumer_run_append:
  "consumer_run env ms s = Some s1 \<Longrightarrow> consumer_run env ms' s1 = Some s2 \<Longrightarrow> consumer_run env (ms @ ms') s = Some s2"
  by (induction ms arbitrary: s) (auto simp: bind_eq_Some_conv)

lemma consumer_run_steps: "consumer_run env ms s = Some s' \<Longrightarrow> (consumer_moves env)\<^sup>*\<^sup>* s s'"
proof (induction ms arbitrary: s)
  case (Cons m ms)
  then obtain s1 where "consumer_next env m s = Some s1" "consumer_run env ms s1 = Some s'"
    by (auto simp: bind_eq_Some_conv)
  with Cons.IH show ?case by (meson consumer_moves.moves converse_rtranclp_into_rtranclp)
qed simp

section \<open>How many threads consume\<close>

definition alive :: "'a consumer \<Rightarrow> nat set" where
  "alive s = {t. t < length (cn_threads s) \<and> \<not> joins (cn_threads s ! t)}"

text \<open>The threads the object still answers for: the current one and the one it is deleting.\<close>

fun owned :: "owner_pc \<Rightarrow> nat option \<Rightarrow> nat set" where
  "owned O_Ready pinned = set_option pinned"
| "owned (O_Delete t) pinned = insert t (set_option pinned)"
| "owned (O_Join t) pinned = insert t (set_option pinned)"

definition owner_inv :: "'a consumer \<Rightarrow> bool" where
  "owner_inv s \<longleftrightarrow> owned (cn_owner s) (cn_pinned s) \<subseteq> {..<length (cn_threads s)}
     \<and> alive s \<subseteq> owned (cn_owner s) (cn_pinned s)
     \<and> (\<forall>t. cn_owner s = O_Join t \<longrightarrow> pt_stopFlag (cn_threads s ! t))"

lemma stop_thread_simps [simp]:
  "length (cn_threads (stop_thread t s)) = length (cn_threads s)"
  "joins (cn_threads (stop_thread t s) ! u) = joins (cn_threads s ! u)"
  "pt_stopFlag (cn_threads s ! u) \<Longrightarrow> pt_stopFlag (cn_threads (stop_thread t s) ! u)"
  "t < length (cn_threads s) \<Longrightarrow> pt_stopFlag (cn_threads (stop_thread t s) ! t)"
  "pt_state (cn_threads (stop_thread t s) ! u) = pt_state (cn_threads s ! u)"
  "cn_owner (stop_thread t s) = cn_owner s" "cn_pinned (stop_thread t s) = cn_pinned s"
  "cn_buffer (stop_thread t s) = cn_buffer s" "cn_called (stop_thread t s) = cn_called s"
  "cn_accepted (stop_thread t s) = cn_accepted s" "cn_ops (stop_thread t s) = cn_ops s"
  "alive (stop_thread t s) = alive s"
  by (cases "u = t"; cases "t < length (cn_threads s)";
      auto simp: stop_thread_def joins_def alive_def nth_list_update list_update_beyond)+

lemma owner_inv_new: "owner_inv (consumer_new r ops input)"
  by (simp add: owner_inv_def consumer_new_def alive_def)

lemma owner_inv_call: "owner_inv s \<Longrightarrow> cn_owner s = O_Ready \<Longrightarrow> owner_inv (owner_call op s)"
proof (cases op)
  case (Do_Start cpu)
  assume inv: "owner_inv s" "cn_owner s = O_Ready"
  have "alive (consumer_start cpu s) = insert (length (cn_threads s)) (alive s)"
    by (auto simp: alive_def consumer_start_def nth_append joins_def less_Suc_eq)
  with inv Do_Start show ?thesis
    by (auto simp: owner_inv_def consumer_start_def split: option.splits)
next
  case Do_Stop
  assume "owner_inv s" "cn_owner s = O_Ready"
  with Do_Stop show ?thesis by (auto simp: owner_inv_def consumer_stop_def split: option.splits)
next
  case Do_Destroy
  assume "owner_inv s" "cn_owner s = O_Ready"
  with Do_Destroy show ?thesis by (auto simp: owner_inv_def consumer_destroy_def alive_def split: option.splits)
qed

lemma owner_inv_cong:
  "owner_inv s \<Longrightarrow> cn_owner s' = cn_owner s \<Longrightarrow> cn_pinned s' = cn_pinned s
    \<Longrightarrow> length (cn_threads s') = length (cn_threads s) \<Longrightarrow> alive s' \<subseteq> alive s
    \<Longrightarrow> (\<And>t. pt_stopFlag (cn_threads s ! t) \<Longrightarrow> pt_stopFlag (cn_threads s' ! t)) \<Longrightarrow> owner_inv s'"
  by (auto simp: owner_inv_def)

text \<open>What a step of a consumer thread does to the record.\<close>

lemma consumer_next_thread:
  assumes "consumer_next env (Consumer t) s = Some s'"
  obtains p r called where "t < length (cn_threads s)"
    "thread_step env K_Check consume_step (cn_threads s ! t) (cn_buffer s, cn_called s) = Some (p, r, called)"
    "s' = s\<lparr>cn_threads := (cn_threads s)[t := p], cn_buffer := r, cn_called := called\<rparr>"
  using assms by (auto split: if_splits option.splits prod.splits)

lemma owner_inv_thread:
  assumes "owner_inv s" "consumer_next env (Consumer t) s = Some s'"
  shows "owner_inv s'"
proof -
  from assms(2) obtain p r called where t: "t < length (cn_threads s)"
    and p: "thread_step env K_Check consume_step (cn_threads s ! t) (cn_buffer s, cn_called s) = Some (p, r, called)"
    and s': "s' = s\<lparr>cn_threads := (cn_threads s)[t := p], cn_buffer := r, cn_called := called\<rparr>"
    by (rule consumer_next_thread)
  note flag = thread_step_flag [OF p]
  have "alive s' \<subseteq> alive s"
  proof
    fix u assume "u \<in> alive s'"
    then show "u \<in> alive s" using flag by (cases "u = t") (auto simp: alive_def s' joins_def)
  qed
  moreover have "pt_stopFlag (cn_threads s ! u) \<Longrightarrow> pt_stopFlag (cn_threads s' ! u)" for u
    using flag t by (cases "u = t") (simp_all add: s')
  ultimately show ?thesis by (intro owner_inv_cong [OF assms(1)]) (simp_all add: s')
qed

lemma owner_inv_owner:
  assumes "owner_inv s" "consumer_next env Owner s = Some s'"
  shows "owner_inv s'"
proof (cases "cn_owner s")
  case O_Ready
  then obtain op ops where s': "s' = owner_call op (s\<lparr>cn_ops := ops\<rparr>)"
    using assms(2) by (auto split: list.splits)
  have "owner_inv (s\<lparr>cn_ops := ops\<rparr>)" by (rule owner_inv_cong [OF assms(1)]) (simp_all add: alive_def)
  with O_Ready show ?thesis unfolding s' by (intro owner_inv_call) simp_all
next
  case (O_Delete t)
  then have s': "s' = (stop_thread t s)\<lparr>cn_owner := O_Join t\<rparr>" using assms(2) by simp
  have "alive s' = alive s" unfolding s' using stop_thread_simps(12) [of t s] by (simp add: alive_def)
  with assms(1) O_Delete s' show ?thesis by (auto simp: owner_inv_def)
next
  case (O_Join t)
  then have j: "joins (cn_threads s ! t)" and s': "s' = s\<lparr>cn_owner := O_Ready\<rparr>"
    using assms(2) by (auto split: if_splits)
  have "alive s' = alive s" "t \<notin> alive s" using j by (auto simp: s' alive_def)
  with assms(1) O_Join s' show ?thesis by (auto simp: owner_inv_def)
qed

lemma owner_inv_step: "owner_inv s \<Longrightarrow> consumer_moves env s s' \<Longrightarrow> owner_inv s'"
proof (erule consumer_movesE)
  fix m assume inv: "owner_inv s" and m: "consumer_next env m s = Some s'"
  show "owner_inv s'"
  proof (cases m)
    case Producer
    then show ?thesis using m
      by (intro owner_inv_cong [OF inv]) (auto simp: alive_def split: list.splits prod.splits)
  qed (use inv m owner_inv_owner owner_inv_thread in blast)+
qed

lemma alive_bound: "owner_inv s \<Longrightarrow> card (alive s) \<le> (if cn_owner s = O_Ready then 1 else 2)"
proof -
  assume inv: "owner_inv s"
  have fin: "finite (owned (cn_owner s) (cn_pinned s))" by (cases "cn_owner s") simp_all
  have p: "card (set_option x) \<le> 1" for x :: "nat option" by (cases x) simp_all
  have "card (owned (cn_owner s) (cn_pinned s)) \<le> (if cn_owner s = O_Ready then 1 else 2)"
  proof (cases "cn_owner s")
    case O_Ready
    then show ?thesis using p [of "cn_pinned s"] by simp
  next
    case (O_Delete t)
    then show ?thesis using p [of "cn_pinned s"] card_insert_le_m1 [of 2 "set_option (cn_pinned s)" t] by simp
  next
    case (O_Join t)
    then show ?thesis using p [of "cn_pinned s"] card_insert_le_m1 [of 2 "set_option (cn_pinned s)" t] by simp
  qed
  moreover have "card (alive s) \<le> card (owned (cn_owner s) (cn_pinned s))"
    using inv fin by (intro card_mono) (auto simp: owner_inv_def)
  ultimately show ?thesis by linarith
qed

end
