(* ===== verification/ConsumerRuns.thy ===== *)
theory ConsumerRuns
  imports ConsumerThreads
begin

text \<open>
  Runs of the consumer's threads (\<open>ConsumerThreads\<close>): with one call of \<open>start\<close> the callback gets
  every item once and in order; a thread that is told to stop ends after a few of its steps, so
  \<open>join\<close> returns; a second \<open>start\<close> has two threads pop from a buffer made for one.
\<close>

section \<open>One start\<close>

fun starts :: "owner_op list \<Rightarrow> nat" where
  "starts [] = 0"
| "starts (Do_Start cpuCore # ops) = Suc (starts ops)"
| "starts (Do_Stop # ops) = starts ops"
| "starts (Do_Destroy # ops) = starts ops"

fun pc_ok :: "'a ring \<Rightarrow> 'a consume_pc \<Rightarrow> bool" where
  "pc_ok r (K_LoadHead t) = (t = rb_tail r)"
| "pc_ok r (K_Read t) = (t = rb_tail r \<and> t \<noteq> rb_head r)"
| "pc_ok r (K_StoreTail t x) = (t = rb_tail r \<and> t \<noteq> rb_head r \<and> x = rb_buffer r ! t)"
| "pc_ok r _ = True"

fun state_ok :: "'a ring \<Rightarrow> 'a consume_pc thread_state \<Rightarrow> bool" where
  "state_ok r (In_Worker pc) = pc_ok r pc"
| "state_ok r _ = True"

text \<open>The item a thread has taken out and not yet given to the callback.\<close>

fun in_flight :: "'a consume_pc thread_state \<Rightarrow> 'a list" where
  "in_flight (In_Worker (K_Call x)) = [x]"
| "in_flight _ = []"

definition single_inv :: "'a consumer \<Rightarrow> bool" where
  "single_inv s \<longleftrightarrow> length (cn_threads s) + starts (cn_ops s) \<le> 1 \<and> ring_wf (cn_buffer s)
     \<and> (\<forall>p \<in> set (cn_threads s). state_ok (cn_buffer s) (pt_state p))
     \<and> cn_accepted s = cn_called s @ concat (map (in_flight \<circ> pt_state) (cn_threads s))
         @ ring_items (cn_buffer s)"

lemma tryPush_tail:
  "rb_tail (snd (tryPush x r)) = rb_tail r"
  "rb_tail r \<noteq> rb_head r \<Longrightarrow> rb_tail r \<noteq> rb_head (snd (tryPush x r))"
  "rb_tail r \<noteq> rb_head r \<Longrightarrow> rb_buffer (snd (tryPush x r)) ! rb_tail r = rb_buffer r ! rb_tail r"
  by (auto simp: tryPush_def Let_def updateHighWaterMark_def)

lemma state_ok_push: "state_ok r st \<Longrightarrow> state_ok (snd (tryPush x r)) st"
proof (induction r st rule: state_ok.induct)
  case (1 r pc)
  then show ?case by (cases pc) (simp_all add: tryPush_tail)
qed simp_all

lemma tryPop_steps:
  assumes "ring_wf r" "rb_tail r \<noteq> rb_head r"
  shows "ring_items r = rb_buffer r ! rb_tail r # ring_items (r\<lparr>rb_tail := increment (capacity r) (rb_tail r)\<rparr>)
    \<and> ring_wf (r\<lparr>rb_tail := increment (capacity r) (rb_tail r)\<rparr>)"
proof -
  have "tryPop r = Some (rb_buffer r ! rb_tail r, r\<lparr>rb_tail := increment (capacity r) (rb_tail r)\<rparr>)"
    using assms(2) by (simp add: tryPop_def Let_def)
  from tryPop_ok [OF assms(1) this] show ?thesis by simp
qed

text \<open>A step of the loop with the buffer to itself.\<close>

lemma consume_step_items:
  assumes "ring_wf r" "pc_ok r pc" "consume_step stop pc (r, called) = (pc', r', called')"
  shows "ring_wf r' \<and> (\<forall>pc1. pc' = Some pc1 \<longrightarrow> pc_ok r' pc1)
    \<and> called' @ (case pc' of None \<Rightarrow> [] | Some pc1 \<Rightarrow> in_flight (In_Worker pc1)) @ ring_items r'
      = called @ in_flight (In_Worker pc) @ ring_items r"
  using assms tryPop_steps [OF assms(1)] by (cases pc) (auto split: if_splits)

lemma thread_step_items:
  assumes "ring_wf r" "state_ok r (pt_state p)"
    and "thread_step env K_Check consume_step p (r, called) = Some (p', r', called')"
  shows "ring_wf r' \<and> state_ok r' (pt_state p')
    \<and> called' @ in_flight (pt_state p') @ ring_items r' = called @ in_flight (pt_state p) @ ring_items r"
proof (cases "pt_state p")
  case (In_Worker pc)
  obtain pc' r1 called1 where c: "consume_step (stopRequested p) pc (r, called) = (pc', r1, called1)"
    by (metis prod_cases3)
  have "pc_ok r pc" using assms(2) In_Worker by simp
  from consume_step_items [OF assms(1) this c] assms(3) In_Worker c show ?thesis
    by (cases pc') (auto simp: thread_step_def)
qed (use assms in \<open>auto simp: thread_step_def split: option.splits\<close>)

lemma single_inv_new:
  "ring_wf r \<Longrightarrow> ring_items r = [] \<Longrightarrow> starts ops \<le> 1 \<Longrightarrow> single_inv (consumer_new r ops input)"
  by (simp add: single_inv_def consumer_new_def)

lemma single_inv_push:
  assumes "single_inv s" "consumer_next env Producer s = Some s'"
  shows "single_inv s'"
proof -
  from assms(2) obtain x xs where i: "cn_input s = x # xs" by (cases "cn_input s") auto
  let ?p = "tryPush x (cn_buffer s)"
  have s': "s' = s\<lparr>cn_buffer := snd ?p, cn_input := xs,
      cn_accepted := (if fst ?p then cn_accepted s @ [x] else cn_accepted s)\<rparr>"
    using assms(2) i by (simp add: case_prod_beta)
  have wf: "ring_wf (cn_buffer s)" using assms(1) by (simp add: single_inv_def)
  have "ring_items (snd ?p) = (if fst ?p then ring_items (cn_buffer s) @ [x] else ring_items (cn_buffer s))"
    using tryPush_ok [OF wf] tryPush_fail [of x "cn_buffer s"] by auto
  moreover have "\<forall>p \<in> set (cn_threads s). state_ok (snd ?p) (pt_state p)"
    using assms(1) by (auto simp: single_inv_def intro: state_ok_push)
  ultimately show ?thesis using assms(1) tryPush_wf [OF wf] by (simp add: single_inv_def s')
qed

lemma starts_call: "length (cn_threads (owner_call op s)) + starts ops \<le> length (cn_threads s) + starts (op # ops)"
  by (cases op) (auto simp: consumer_start_def consumer_stop_def consumer_destroy_def split: option.splits)

lemma map_state_stop: "map (f \<circ> pt_state) (cn_threads (stop_thread t s)) = map (f \<circ> pt_state) (cn_threads s)"
  by (rule nth_equalityI) simp_all

lemma set_state_stop:
  "(\<forall>p \<in> set (cn_threads (stop_thread t s)). P (pt_state p)) = (\<forall>p \<in> set (cn_threads s). P (pt_state p))"
  by (simp add: all_set_conv_all_nth)

lemma owner_call_keeps:
  "cn_buffer (owner_call op s) = cn_buffer s" "cn_called (owner_call op s) = cn_called s"
  "cn_accepted (owner_call op s) = cn_accepted s" "cn_ops (owner_call op s) = cn_ops s"
  "concat (map (in_flight \<circ> pt_state) (cn_threads (owner_call op s))) = concat (map (in_flight \<circ> pt_state) (cn_threads s))"
  "(\<forall>p \<in> set (cn_threads (owner_call op s)). state_ok r (pt_state p)) = (\<forall>p \<in> set (cn_threads s). state_ok r (pt_state p))"
  by (cases op; simp add: consumer_start_def consumer_stop_def consumer_destroy_def map_state_stop
      set_state_stop [where P = "state_ok r"] split: option.splits)+

lemma single_inv_owner:
  assumes "single_inv s" "consumer_next env Owner s = Some s'"
  shows "single_inv s'"
proof (cases "cn_owner s")
  case O_Ready
  then obtain op ops where o: "cn_ops s = op # ops" and s': "s' = owner_call op (s\<lparr>cn_ops := ops\<rparr>)"
    using assms(2) by (auto split: list.splits)
  have "length (cn_threads s') + starts (cn_ops s') \<le> 1"
    using assms(1) starts_call [of op "s\<lparr>cn_ops := ops\<rparr>" ops] o
    by (simp add: single_inv_def s' owner_call_keeps)
  with assms(1) show ?thesis by (simp add: single_inv_def s' owner_call_keeps)
next
  case (O_Delete t)
  then have s': "s' = (stop_thread t s)\<lparr>cn_owner := O_Join t\<rparr>" using assms(2) by simp
  show ?thesis
    using assms(1) set_state_stop [of t s "state_ok (cn_buffer s)"] by (simp add: single_inv_def s' map_state_stop)
next
  case (O_Join t)
  then have "s' = s\<lparr>cn_owner := O_Ready\<rparr>" using assms(2) by (auto split: if_splits)
  with assms(1) show ?thesis by (simp add: single_inv_def)
qed

lemma single_inv_thread:
  assumes "single_inv s" "consumer_next env (Consumer t) s = Some s'"
  shows "single_inv s'"
proof -
  from assms(2) obtain p r called where t: "t < length (cn_threads s)"
    and p: "thread_step env K_Check consume_step (cn_threads s ! t) (cn_buffer s, cn_called s) = Some (p, r, called)"
    and s': "s' = s\<lparr>cn_threads := (cn_threads s)[t := p], cn_buffer := r, cn_called := called\<rparr>"
    by (rule consumer_next_thread)
  from t assms(1) obtain p0 where p0: "cn_threads s = [p0]" "t = 0"
    by (cases "cn_threads s") (auto simp: single_inv_def)
  with assms(1) have "ring_wf (cn_buffer s)" "state_ok (cn_buffer s) (pt_state p0)" by (simp_all add: single_inv_def)
  from thread_step_items [OF this] p p0 assms(1) show ?thesis
    by (simp add: single_inv_def s')
qed

lemma single_inv_step: "single_inv s \<Longrightarrow> consumer_moves env s s' \<Longrightarrow> single_inv s'"
proof (erule consumer_movesE)
  fix m assume "single_inv s" "consumer_next env m s = Some s'"
  then show "single_inv s'"
    by (cases m) (use single_inv_push single_inv_owner single_inv_thread in blast)+
qed

interpretation consumers: machine "consumer_moves env" "\<lambda>s. \<exists>r ops input. s = consumer_new r ops input" owner_inv
  for env
  by unfold_locales (auto intro: owner_inv_new owner_inv_step)

interpretation single_consumer: machine "consumer_moves env"
  "\<lambda>s. \<exists>r ops input. s = consumer_new r ops input \<and> ring_wf r \<and> ring_items r = [] \<and> starts ops \<le> 1" single_inv
  for env
  by unfold_locales (auto intro: single_inv_new single_inv_step)

lemma in_flight_one: "single_inv s \<Longrightarrow> length (concat (map (in_flight \<circ> pt_state) (cn_threads s))) \<le> 1"
proof -
  have one: "length (in_flight st) \<le> 1" for st :: "'a consume_pc thread_state"
    by (induction st rule: in_flight.induct) simp_all
  assume "single_inv s"
  then consider "cn_threads s = []" | p where "cn_threads s = [p]"
    by (cases "cn_threads s"; cases "tl (cn_threads s)") (auto simp: single_inv_def)
  then show ?thesis using one by cases simp_all
qed

text \<open>After the destructor every thread has ended.\<close>

lemma destroyed_silent:
  assumes "owner_inv s" "cn_owner s = O_Ready" "cn_pinned s = None"
  shows "consumer_next env (Consumer t) s = None"
proof (cases "t < length (cn_threads s)")
  case True
  then have "joins (cn_threads s ! t)" using assms by (auto simp: owner_inv_def alive_def)
  with True show ?thesis by (simp add: thread_step_def joins_def)
qed simp

section \<open>The end of a thread\<close>

fun consume_rank :: "'a consume_pc \<Rightarrow> nat" where
  "consume_rank K_Check = 0"
| "consume_rank (K_Call x) = 1"
| "consume_rank K_Spin = 1"
| "consume_rank (K_StoreTail t x) = 2"
| "consume_rank (K_Read t) = 3"
| "consume_rank (K_LoadHead t) = 4"
| "consume_rank K_LoadTail = 5"

interpretation consume: stopping_worker consume_step K_Check consume_rank
proof unfold_locales
  fix w w' :: "'a consume_pc" and s s'
  assume "consume_step True w s = (Some w', s')"
  then show "consume_rank w' < consume_rank w" by (cases s; cases w) auto
qed

lemma thread_rank_bound: "thread_rank consume_rank K_Check p \<le> 6"
proof -
  have "consume_rank w \<le> 5" for w :: "'a consume_pc" by (cases w) simp_all
  then show ?thesis by (auto simp: thread_rank_def split: thread_state.splits)
qed

text \<open>Steps of other threads keep the thread and the request to stop.\<close>

lemma consumer_next_other:
  assumes "consumer_next env m s = Some s'" "t < length (cn_threads s)" "m \<noteq> Consumer t"
  shows "t < length (cn_threads s') \<and> pt_state (cn_threads s' ! t) = pt_state (cn_threads s ! t)
    \<and> (pt_stopFlag (cn_threads s ! t) \<longrightarrow> pt_stopFlag (cn_threads s' ! t))"
proof (cases m)
  case Producer
  then show ?thesis using assms by (auto split: list.splits prod.splits)
next
  case Owner
  have call: "t < length (cn_threads (owner_call op s1)) \<and> pt_state (cn_threads (owner_call op s1) ! t) = pt_state (cn_threads s1 ! t)
    \<and> (pt_stopFlag (cn_threads s1 ! t) \<longrightarrow> pt_stopFlag (cn_threads (owner_call op s1) ! t))"
    if "t < length (cn_threads s1)" for op and s1 :: "'a consumer"
    using that by (cases op) (auto simp: consumer_start_def consumer_stop_def consumer_destroy_def nth_append split: option.splits)
  show ?thesis
    using assms Owner call by (auto split: owner_pc.splits list.splits if_splits)
next
  case (Consumer u)
  with assms(3) have "u \<noteq> t" by simp
  with assms(1,2) Consumer show ?thesis by (auto split: if_splits option.splits prod.splits)
qed

lemma stopped_run:
  assumes "consumer_run env ms s = Some s'" "t < length (cn_threads s)" "pt_stopFlag (cn_threads s ! t)"
  shows "count_list ms (Consumer t) + thread_rank consume_rank K_Check (cn_threads s' ! t)
      \<le> thread_rank consume_rank K_Check (cn_threads s ! t) \<and> t < length (cn_threads s')
    \<and> pt_stopFlag (cn_threads s' ! t)"
  using assms
proof (induction ms arbitrary: s)
  case (Cons m ms)
  from Cons.prems(1) obtain s1 where m: "consumer_next env m s = Some s1" and rest: "consumer_run env ms s1 = Some s'"
    by (auto simp: bind_eq_Some_conv)
  show ?case
  proof (cases "m = Consumer t")
    case True
    then obtain p r called where
      p: "thread_step env K_Check consume_step (cn_threads s ! t) (cn_buffer s, cn_called s) = Some (p, r, called)"
      and s1: "s1 = s\<lparr>cn_threads := (cn_threads s)[t := p], cn_buffer := r, cn_called := called\<rparr>"
      using m consumer_next_thread by metis
    from consume.thread_rank_less [OF p Cons.prems(3)] thread_step_flag [OF p] Cons.prems(2,3)
      Cons.IH [OF rest] True show ?thesis by (simp add: s1)
  next
    case False
    from consumer_next_other [OF m Cons.prems(2) False] Cons.prems(3)
    have o: "t < length (cn_threads s1)" "pt_stopFlag (cn_threads s1 ! t)"
      "pt_state (cn_threads s1 ! t) = pt_state (cn_threads s ! t)" by simp_all
    then have "thread_rank consume_rank K_Check (cn_threads s1 ! t) = thread_rank consume_rank K_Check (cn_threads s ! t)"
      by (simp add: thread_rank_def)
    with Cons.IH [OF rest o(1,2)] False show ?thesis by simp
  qed
qed simp

lemma running_thread_moves:
  assumes "t < length (cn_threads s)" "\<not> joins (cn_threads s ! t)" "affinity_works env (pt_targetCpu (cn_threads s ! t))"
  shows "\<exists>s'. consumer_next env (Consumer t) s = Some s'"
  using thread_step_some [OF assms(3,2), of K_Check consume_step "(cn_buffer s, cn_called s)"] assms(1)
  by auto

section \<open>A second start\<close>

lemma boot_step:
  "pt_state p = Booting \<Longrightarrow> pt_targetCpu p = -1
    \<Longrightarrow> thread_step env w0 worker p s = Some (p\<lparr>pt_state := In_Worker w0\<rparr>, s)"
  by (simp add: thread_step_def bootstrap_def applyThreadAffinity_def)

lemma worker_step:
  "pt_state p = In_Worker w \<Longrightarrow> worker (pt_stopFlag p) w s = (Some w', s')
    \<Longrightarrow> thread_step env w0 worker p s = Some (p\<lparr>pt_state := In_Worker w'\<rparr>, s')"
  by (simp add: thread_step_def stopRequested_def)

text \<open>
  The first thread has read the cell and not yet moved the tail when the second one, made by
  \<open>start\<close> after \<open>stop\<close>, reads it too.
\<close>

definition restart_schedule :: "mover list" where
  "restart_schedule = [Producer, Owner] @ replicate 5 (Consumer 0) @ [Owner, Owner]
     @ replicate 7 (Consumer 1) @ replicate 2 (Consumer 0)"

lemma restart_run:
  "\<exists>s'. consumer_run env restart_schedule
      (consumer_new (ring_new [a, b]) [Do_Start (-1), Do_Stop, Do_Start (-1)] [x]) = Some s'
    \<and> cn_accepted s' = [x] \<and> cn_called s' = [x, x]"
  by (simp add: restart_schedule_def numeral_eq_Suc consumer_new_def ring_new_def tryPush_def Let_def
      increment_def capacity_def updateHighWaterMark_def consumer_start_def consumer_stop_def
      stop_thread_def boot_step worker_step)

end
