(* ===== verification/OrderFlow.thy ===== *)
theory OrderFlow
  imports ConsumerRuns "HOL-Library.Sublist"
begin

text \<open>
  What a consumer of a ring buffer (\<^verbatim>\<open>SpScRingBufferConsumer.h\<close>) hands to its callback is, in order, a part of
  what the producer was given. (With the engine as the callback and the memory orders of the code:
  \<open>EngineThreads\<close>.)
\<close>

text \<open>The items the buffer takes are items of the input, in its order.\<close>

definition input_inv :: "'a list \<Rightarrow> 'a consumer \<Rightarrow> bool" where
  "input_inv input s \<longleftrightarrow> (\<exists>used. input = used @ cn_input s \<and> subseq (cn_accepted s) used)"

lemma input_inv_cong:
  "input_inv input s \<Longrightarrow> cn_input s' = cn_input s \<Longrightarrow> cn_accepted s' = cn_accepted s \<Longrightarrow> input_inv input s'"
  by (simp add: input_inv_def)

lemma owner_call_input: "cn_input (owner_call op s) = cn_input s"
  by (cases op) (auto simp: consumer_start_def consumer_stop_def consumer_destroy_def stop_thread_def split: option.splits)

lemma input_inv_next:
  assumes "input_inv input s" "consumer_next env m s = Some s'"
  shows "input_inv input s'"
proof (cases m)
  case Producer
  obtain x xs where x: "cn_input s = x # xs" using assms(2) Producer by (cases "cn_input s") auto
  obtain ok r where p: "tryPush x (cn_buffer s) = (ok, r)" by fastforce
  have s': "s' = s\<lparr>cn_buffer := r, cn_input := xs,
      cn_accepted := (if ok then cn_accepted s @ [x] else cn_accepted s)\<rparr>"
    using assms(2) Producer x p by simp
  obtain used where "input = used @ cn_input s" "subseq (cn_accepted s) used"
    using assms(1) by (auto simp: input_inv_def)
  then have "input = (used @ [x]) @ xs \<and> subseq (cn_accepted s') (used @ [x])"
    by (auto simp: x s' intro: list_emb_append_mono list_emb_append2)
  then show ?thesis unfolding input_inv_def by (intro exI [of _ "used @ [x]"]) (simp add: s')
next
  case Owner
  then show ?thesis using assms
    by (intro input_inv_cong [OF assms(1)])
      (auto simp: owner_call_keeps owner_call_input stop_thread_def split: owner_pc.splits list.splits if_splits)
next
  case (Consumer t)
  then show ?thesis using assms
    by (intro input_inv_cong [OF assms(1)]) (auto split: if_splits option.splits prod.splits)
qed

interpretation consumer_input: machine "consumer_moves env" "\<lambda>s. \<exists>r ops. s = consumer_new r ops input" "input_inv input"
  for env input
proof unfold_locales
  fix s :: "'a consumer"
  assume "\<exists>r ops. s = consumer_new r ops input"
  then show "input_inv input s" by (auto simp: input_inv_def consumer_new_def)
next
  fix s s' :: "'a consumer"
  assume "input_inv input s" "consumer_moves env s s'"
  then show "input_inv input s'" by (auto elim: consumer_movesE intro: input_inv_next)
qed

text \<open>What a callback has been called with is, in order, a part of the input.\<close>

lemma called_subseq:
  assumes "single_inv s" "input_inv input s"
  shows "subseq (cn_called s) input"
proof -
  have "subseq (cn_called s) (cn_accepted s)" using assms(1)
    by (metis single_inv_def prefixI prefix_imp_subseq)
  moreover have "subseq (cn_accepted s) input"
    using assms(2) by (auto simp: input_inv_def intro: list_emb_append2 subseq_order.order_trans)
  ultimately show ?thesis by (rule subseq_order.order_trans)
qed

end
