(* ===== verification/Framing.thy ===== *)
theory Framing
  imports Prelude
begin

unbundle bit_operations_syntax

text \<open>
  Length-prefixed messages over a byte stream: \<^verbatim>\<open>libs/networking/tcp/TcpEncoder.h\<close> and
  \<^verbatim>\<open>TcpFramer.h\<close>. The two-byte length is copied in the byte order of the machine, which is the
  argument \<open>le\<close> (true for little endian). A \<open>std::vector<char>\<close> is a list of bytes;
  \<open>std::overflow_error\<close> is a value of \<open>framer_error\<close>.

  What a receiver needs of a message format is the locale \<open>framing\<close>; the encoder and framer
  interpret it.
\<close>

section \<open>Bytes of a 16-bit number\<close>

definition u16_bytes :: "bool \<Rightarrow> u16 \<Rightarrow> u8 list" where
  "u16_bytes le w =
     (let lo = ucast w; hi = ucast (drop_bit 8 w) in if le then [lo, hi] else [hi, lo])"

definition bytes_u16 :: "bool \<Rightarrow> u8 list \<Rightarrow> u16" where
  "bytes_u16 le bs =
     (let lo = (if le then bs ! 0 else bs ! 1); hi = (if le then bs ! 1 else bs ! 0)
      in ucast lo OR push_bit 8 (ucast hi))"

lemma u16_bytes_roundtrip: "bytes_u16 le (u16_bytes le w @ bs) = w"
proof -
  have "(ucast (ucast w :: u8) :: u16) OR push_bit 8 (ucast (ucast (drop_bit 8 w) :: u8)) = w"
    by (rule bit_word_eqI) (auto simp: bit_simps)
  then show ?thesis by (simp add: u16_bytes_def bytes_u16_def Let_def)
qed

lemma length_u16_bytes [simp]: "length (u16_bytes le w) = 2"
  by (simp add: u16_bytes_def Let_def)

section \<open>The encoder\<close>

text \<open>\<open>memcpy\<close> of \<open>n\<close> bytes of \<open>src\<close> to offset \<open>off\<close> of \<open>dst\<close>.\<close>

definition memcpy_at :: "'a list \<Rightarrow> nat \<Rightarrow> 'a list \<Rightarrow> nat \<Rightarrow> 'a list" where
  "memcpy_at dst off src n = take off dst @ take n src @ drop (off + n) dst"

definition encode :: "bool \<Rightarrow> u8 list \<Rightarrow> u8 list \<Rightarrow> u8 list" where
  "encode le payload out =
     (let len = length payload;
          frameLen = (of_nat len :: u16);
          out1 = out @ replicate (2 + len) 0;
          out2 = memcpy_at out1 (length out1 - (2 + len)) (u16_bytes le frameLen) 2
      in memcpy_at out2 (length out2 - len) payload len)"

lemma encode_append: "encode le payload out = out @ u16_bytes le (of_nat (length payload)) @ payload"
  by (simp add: encode_def memcpy_at_def Let_def)

section \<open>The framer\<close>

record framer =
  fr_buffer :: "u8 list"
  fr_maxFrameSize :: nat

datatype framer_error = Framer_Overflow

definition framer_new :: "nat \<Rightarrow> framer" where
  "framer_new maxFrameSize = \<lparr>fr_buffer = [], fr_maxFrameSize = maxFrameSize\<rparr>"

definition framer_push :: "u8 list \<Rightarrow> framer \<Rightarrow> framer_error + framer" where
  "framer_push data f =
     (if length (fr_buffer f) + length data > fr_maxFrameSize f then Inl Framer_Overflow
      else Inr (f\<lparr>fr_buffer := fr_buffer f @ data\<rparr>))"

definition nextFrame :: "bool \<Rightarrow> framer \<Rightarrow> (u8 list \<times> framer) option" where
  "nextFrame le f =
     (if length (fr_buffer f) < 2 then None
      else let frameLen = unat (bytes_u16 le (take 2 (fr_buffer f)))
           in if length (fr_buffer f) < 2 + frameLen then None
              else Some (take frameLen (drop 2 (fr_buffer f)),
                         f\<lparr>fr_buffer := drop (2 + frameLen) (fr_buffer f)\<rparr>))"

text \<open>A caller that asks for frames until there is none left.\<close>

function drain :: "bool \<Rightarrow> framer \<Rightarrow> u8 list list \<times> framer" where
  "drain le f =
     (case nextFrame le f of
        None \<Rightarrow> ([], f)
      | Some (frame, f1) \<Rightarrow> let (frames, f2) = drain le f1 in (frame # frames, f2))"
  by pat_completeness auto
termination
  by (relation "measure (\<lambda>(le, f). length (fr_buffer f))")
    (auto simp: nextFrame_def Let_def split: if_splits)

declare drain.simps [simp del]

text \<open>A receive loop: each chunk that arrives is pushed, then the complete frames are taken out.\<close>

fun receive :: "bool \<Rightarrow> u8 list list \<Rightarrow> framer \<Rightarrow> framer_error + (u8 list list \<times> framer)" where
  "receive le [] f = Inr ([], f)"
| "receive le (chunk # chunks) f =
     (case framer_push chunk f of
        Inl err \<Rightarrow> Inl err
      | Inr f1 \<Rightarrow>
          (let (frames, f2) = drain le f1
           in case receive le chunks f2 of
                Inl err \<Rightarrow> Inl err
              | Inr (frames', f3) \<Rightarrow> Inr (frames @ frames', f3)))"

section \<open>The interface of a message format\<close>

text \<open>
  \<open>splits next bs ms rest\<close>: taking messages off the front of \<open>bs\<close> as long as there is one gives
  \<open>ms\<close> and leaves \<open>rest\<close>.
\<close>

inductive splits :: "('b list \<Rightarrow> ('m \<times> 'b list) option) \<Rightarrow> 'b list \<Rightarrow> 'm list \<Rightarrow> 'b list \<Rightarrow> bool"
  for split_one where
  stop: "split_one bs = None \<Longrightarrow> splits split_one bs [] bs"
| one_more: "split_one bs = Some (m, bs1) \<Longrightarrow> splits split_one bs1 ms rest
    \<Longrightarrow> splits split_one bs (m # ms) rest"

locale framing =
  fixes frame :: "'m \<Rightarrow> 'b list"
    and split_one :: "'b list \<Rightarrow> ('m \<times> 'b list) option"
    and fits :: "'m \<Rightarrow> bool"
  assumes split_frame: "fits m \<Longrightarrow> split_one (frame m @ bs) = Some (m, bs)"
    and split_more: "split_one bs = Some (m, rest) \<Longrightarrow> split_one (bs @ bs') = Some (m, rest @ bs')"
    and split_shrinks: "split_one bs = Some (m, rest) \<Longrightarrow> length rest < length bs"

context framing
begin

lemma splits_total: "\<exists>ms rest. splits split_one bs ms rest"
proof (induction bs rule: length_induct)
  case (1 bs)
  show ?case
  proof (cases "split_one bs")
    case None
    then show ?thesis by (blast intro: splits.stop)
  next
    case (Some res)
    then obtain m rest where r: "split_one bs = Some (m, rest)" by (cases res) auto
    with 1 split_shrinks show ?thesis by (meson splits.one_more)
  qed
qed

lemma splits_unique:
  "splits split_one bs ms rest \<Longrightarrow> splits split_one bs ms' rest' \<Longrightarrow> ms' = ms \<and> rest' = rest"
proof (induction arbitrary: ms' rest' rule: splits.induct)
  case (stop bs)
  from stop(2,1) show ?case by (cases rule: splits.cases) auto
next
  case (one_more bs m bs1 ms rest)
  from one_more.prems one_more.hyps(1) obtain ms1 where "ms' = m # ms1" "splits split_one bs1 ms1 rest'"
    by (cases rule: splits.cases) auto
  with one_more.IH show ?case by blast
qed

text \<open>Messages split off early are the ones split off from the longer stream.\<close>

lemma splits_append:
  "splits split_one bs ms rest \<Longrightarrow> splits split_one (rest @ bs') ms' rest'
    \<Longrightarrow> splits split_one (bs @ bs') (ms @ ms') rest'"
proof (induction rule: splits.induct)
  case (one_more bs m bs1 ms rest)
  have "split_one (bs @ bs') = Some (m, bs1 @ bs')" by (rule split_more [OF one_more.hyps(1)])
  moreover have "splits split_one (bs1 @ bs') (ms @ ms') rest'" using one_more by blast
  ultimately show ?case by (simp add: splits.one_more)
qed simp

text \<open>What a part of the stream gives, the whole stream gives first.\<close>

lemma splits_part:
  assumes "splits split_one bs ms rest" "splits split_one (bs @ bs') ms' rest'"
  shows "\<exists>later. ms' = ms @ later"
proof -
  obtain later rest2 where "splits split_one (rest @ bs') later rest2" using splits_total by blast
  from splits_unique [OF splits_append [OF assms(1) this] assms(2)] show ?thesis by blast
qed

lemma splits_rest: "splits split_one bs ms rest \<Longrightarrow> split_one rest = None"
  by (induction rule: splits.induct)

lemma splits_frames:
  "(\<And>m. m \<in> set ms \<Longrightarrow> fits m) \<Longrightarrow> split_one rest = None
    \<Longrightarrow> splits split_one (concat (map frame ms) @ rest) ms rest"
  by (induction ms) (auto intro: splits.stop splits.one_more split_frame)

end

section \<open>The framer as a message format\<close>

definition split_frame_bytes :: "bool \<Rightarrow> u8 list \<Rightarrow> (u8 list \<times> u8 list) option" where
  "split_frame_bytes le bs =
     map_option (\<lambda>(frame, f). (frame, fr_buffer f)) (nextFrame le \<lparr>fr_buffer = bs, fr_maxFrameSize = 0\<rparr>)"

lemma nextFrame_split:
  "nextFrame le f = map_option (\<lambda>(frame, bs). (frame, f\<lparr>fr_buffer := bs\<rparr>)) (split_frame_bytes le (fr_buffer f))"
  by (simp add: nextFrame_def split_frame_bytes_def Let_def)

definition frame_fits :: "u8 list \<Rightarrow> bool" where
  "frame_fits payload \<longleftrightarrow> length payload < 65536"

lemma split_header:
  "split_frame_bytes le (u16_bytes le w @ bs)
    = (if length bs < unat w then None else Some (take (unat w) bs, drop (unat w) bs))"
  using u16_bytes_roundtrip [of le w "[]"]
  by (simp add: split_frame_bytes_def nextFrame_def Let_def)

lemma split_frame_bytes_more:
  assumes "split_frame_bytes le bs = Some (m, rest)"
  shows "split_frame_bytes le (bs @ bs') = Some (m, rest @ bs')"
  using assms
  by (auto simp: split_frame_bytes_def nextFrame_def Let_def split: if_splits)

lemma split_frame_bytes_len:
  "split_frame_bytes le bs = Some (m, rest) \<Longrightarrow> length bs = 2 + length m + length rest"
  by (auto simp: split_frame_bytes_def nextFrame_def Let_def split: if_splits)

lemma split_encoded_any:
  "split_frame_bytes le (encode le p [] @ bs)
    = Some (take (length p mod 65536) p, drop (length p mod 65536) p @ bs)"
proof -
  have "length p mod 65536 \<le> length p" by simp
  then show ?thesis
    by (simp add: encode_append split_header unat_of_nat del: mod_less_eq_dividend)
qed

interpretation tcp_frames: framing "\<lambda>p. encode le p []" "split_frame_bytes le" frame_fits
proof unfold_locales
  show "split_frame_bytes le (encode le m [] @ bs) = Some (m, bs)" if "frame_fits m" for m bs
    using that by (simp add: split_encoded_any frame_fits_def)
  show "split_frame_bytes le (bs @ bs') = Some (m, rest @ bs')"
    if "split_frame_bytes le bs = Some (m, rest)" for bs m rest bs'
    using that by (rule split_frame_bytes_more)
  show "length rest < length bs" if "split_frame_bytes le bs = Some (m, rest)" for bs m rest
    using split_frame_bytes_len [OF that] by simp
qed

section \<open>Receiving\<close>

lemma drain_splits:
  "drain le f = (frames, f') \<Longrightarrow> splits (split_frame_bytes le) (fr_buffer f) frames (fr_buffer f')
    \<and> fr_maxFrameSize f' = fr_maxFrameSize f"
proof (induction le f arbitrary: frames f' rule: drain.induct)
  case (1 le f)
  show ?case
  proof (cases "nextFrame le f")
    case None
    then have "split_frame_bytes le (fr_buffer f) = None" by (simp add: nextFrame_split)
    with None 1 show ?thesis by (simp add: drain.simps [of le f] splits.stop)
  next
    case (Some res)
    then obtain m f1 where r: "nextFrame le f = Some (m, f1)" by (cases res) auto
    then have sp: "split_frame_bytes le (fr_buffer f) = Some (m, fr_buffer f1)"
      "fr_maxFrameSize f1 = fr_maxFrameSize f"
      by (auto simp: nextFrame_split)
    obtain ms f2 where d: "drain le f1 = (ms, f2)" by fastforce
    with 1 r have "frames = m # ms" "f' = f2" by (simp_all add: drain.simps [of le f])
    with "1.IH" [OF r refl d] sp show ?thesis by (auto intro: splits.one_more)
  qed
qed

lemma push_ok:
  "framer_push data f = Inr f1 \<longleftrightarrow> length (fr_buffer f) + length data \<le> fr_maxFrameSize f
    \<and> f1 = f\<lparr>fr_buffer := fr_buffer f @ data\<rparr>"
  by (auto simp: framer_push_def)

text \<open>What comes out depends only on the bytes that came in, not on how they were cut.\<close>

lemma receive_splits:
  assumes "receive le chunks f = Inr (frames, f')" "split_frame_bytes le (fr_buffer f) = None"
  shows "splits (split_frame_bytes le) (fr_buffer f @ concat chunks) frames (fr_buffer f')
    \<and> fr_maxFrameSize f' = fr_maxFrameSize f"
  using assms
proof (induction chunks arbitrary: f frames)
  case Nil
  then show ?case by (simp add: splits.stop)
next
  case (Cons chunk chunks)
  obtain f1 where p: "framer_push chunk f = Inr f1"
    using Cons.prems(1) by (auto split: sum.splits)
  obtain ms f2 where d: "drain le f1 = (ms, f2)" by fastforce
  obtain ms' where r: "receive le chunks f2 = Inr (ms', f')" "frames = ms @ ms'"
    using Cons.prems(1) p d by (auto split: sum.splits)
  have f1: "fr_buffer f1 = fr_buffer f @ chunk" "fr_maxFrameSize f1 = fr_maxFrameSize f"
    using p by (auto simp: push_ok)
  have sp: "splits (split_frame_bytes le) (fr_buffer f @ chunk) ms (fr_buffer f2)"
    "fr_maxFrameSize f2 = fr_maxFrameSize f"
    using drain_splits [OF d] f1 by auto
  with Cons.IH [OF r(1) tcp_frames.splits_rest [OF sp(1)]] r(2) show ?case
    using tcp_frames.splits_append [OF sp(1), of "concat chunks"] by simp
qed

lemma split_None_length: "split_frame_bytes le bs = None \<Longrightarrow> length bs \<le> 65536"
proof -
  assume none: "split_frame_bytes le bs = None"
  show ?thesis
  proof (cases "length bs < 2")
    case False
    with none have "length bs < 2 + unat (bytes_u16 le (take 2 bs))"
      by (auto simp: split_frame_bytes_def nextFrame_def Let_def split: if_splits)
    moreover have "unat (bytes_u16 le (take 2 bs)) < 65536"
      using unsigned_less [of "bytes_u16 le (take 2 bs)", where ?'a = nat] by simp
    ultimately show ?thesis by simp
  qed simp
qed

text \<open>A framer with room for the largest frame and a chunk never overflows.\<close>

lemma receive_no_overflow:
  assumes "\<And>chunk. chunk \<in> set chunks \<Longrightarrow> length chunk \<le> c" "65536 + c \<le> fr_maxFrameSize f"
    and "split_frame_bytes le (fr_buffer f) = None"
  shows "\<exists>frames f'. receive le chunks f = Inr (frames, f')"
  using assms
proof (induction chunks arbitrary: f)
  case (Cons chunk chunks)
  let ?f1 = "f\<lparr>fr_buffer := fr_buffer f @ chunk\<rparr>"
  have p: "framer_push chunk f = Inr ?f1"
    using split_None_length [OF Cons.prems(3)] Cons.prems(1) [of chunk] Cons.prems(2)
    by (simp add: push_ok)
  obtain ms f2 where d: "drain le ?f1 = (ms, f2)" by fastforce
  have "split_frame_bytes le (fr_buffer f2) = None" "fr_maxFrameSize f2 = fr_maxFrameSize f"
    using drain_splits [OF d] tcp_frames.splits_rest by auto
  then obtain ms' f' where "receive le chunks f2 = Inr (ms', f')"
    using Cons.IH Cons.prems(1,2) by fastforce
  with p d show ?case by simp
qed simp

lemma splits_frame_size:
  "splits (split_frame_bytes le) bs ms rest \<Longrightarrow> m \<in> set ms \<Longrightarrow> 2 + length m \<le> length bs"
  by (induction rule: splits.induct) (auto dest: split_frame_bytes_len)

text \<open>No frame larger than the limit ever comes out.\<close>

lemma receive_frame_size:
  assumes "receive le chunks f = Inr (frames, f')" "m \<in> set frames"
  shows "2 + length m \<le> fr_maxFrameSize f"
  using assms
proof (induction chunks arbitrary: f frames)
  case (Cons chunk chunks)
  obtain f1 where p: "framer_push chunk f = Inr f1"
    using Cons.prems(1) by (auto split: sum.splits)
  obtain ms f2 where d: "drain le f1 = (ms, f2)" by fastforce
  obtain ms' where r: "receive le chunks f2 = Inr (ms', f')" "frames = ms @ ms'"
    using Cons.prems(1) p d by (auto split: sum.splits)
  have f1: "fr_maxFrameSize f1 = fr_maxFrameSize f" "length (fr_buffer f1) \<le> fr_maxFrameSize f"
    using p by (auto simp: push_ok)
  show ?case
  proof (cases "m \<in> set ms")
    case True
    then show ?thesis using splits_frame_size [OF conjunct1 [OF drain_splits [OF d]]] f1 by fastforce
  next
    case False
    then show ?thesis using Cons.IH [OF r(1)] Cons.prems(2) r(2) drain_splits [OF d] f1 by auto
  qed
qed simp

lemma concat_encode: "concat (map (\<lambda>p. encode le p []) ps) = fold (encode le) ps []"
proof -
  have "fold (encode le) ps out = out @ concat (map (\<lambda>p. encode le p []) ps)" for out
    by (induction ps arbitrary: out) (simp_all add: encode_append)
  then show ?thesis by simp
qed

lemma receive_encoded:
  assumes "receive le chunks (framer_new n) = Inr (frames, f')"
    and "concat chunks = fold (encode le) ps [] @ rest" "split_frame_bytes le rest = None"
    and "\<And>p. p \<in> set ps \<Longrightarrow> frame_fits p"
  shows "frames = ps \<and> fr_buffer f' = rest"
proof -
  have "splits (split_frame_bytes le) (concat chunks) frames (fr_buffer f')"
    using receive_splits [OF assms(1)]
    by (simp add: framer_new_def split_frame_bytes_def nextFrame_def)
  moreover have "splits (split_frame_bytes le) (concat chunks) ps rest"
    unfolding assms(2) concat_encode [symmetric] by (rule tcp_frames.splits_frames [OF assms(4,3)])
  ultimately show ?thesis using tcp_frames.splits_unique by blast
qed

text \<open>A part of the stream gives the first messages of it.\<close>

lemma receive_part:
  assumes "receive le chunks (framer_new n) = Inr (frames, f')"
    and "concat chunks @ more_bytes = fold (encode le) ps []" "\<And>p. p \<in> set ps \<Longrightarrow> frame_fits p"
  shows "\<exists>later. ps = frames @ later"
proof -
  have none: "split_frame_bytes le [] = None" by (simp add: split_frame_bytes_def nextFrame_def)
  then have "splits (split_frame_bytes le) (concat chunks) frames (fr_buffer f')"
    using receive_splits [OF assms(1)] by (simp add: framer_new_def)
  moreover have "splits (split_frame_bytes le) (concat chunks @ more_bytes) ps []"
    unfolding assms(2) concat_encode [symmetric]
    using tcp_frames.splits_frames [where rest = "[]", OF assms(3) none] by simp
  ultimately show ?thesis by (rule tcp_frames.splits_part)
qed

text \<open>A frame larger than the limit is never received, however it is cut.\<close>

lemma receive_oversized:
  assumes "concat chunks = encode le p [] @ rest" "frame_fits p" "n < 2 + length p"
  shows "receive le chunks (framer_new n) = Inl Framer_Overflow"
proof (cases "receive le chunks (framer_new n)")
  case (Inl err)
  then show ?thesis by (cases err) simp
next
  case (Inr res)
  then obtain frames f where r: "receive le chunks (framer_new n) = Inr (frames, f)" by (cases res) auto
  have "splits (split_frame_bytes le) (encode le p [] @ rest) frames (fr_buffer f)"
    using receive_splits [OF r] assms(1) by (simp add: framer_new_def split_frame_bytes_def nextFrame_def)
  then have "p \<in> set frames"
    by (cases rule: splits.cases) (auto simp: tcp_frames.split_frame [OF assms(2)])
  with receive_frame_size [OF r] assms(3) show ?thesis by (fastforce simp: framer_new_def)
qed

end
