(* ===== verification/OrderBookFeed.thy ===== *)
theory OrderBookFeed
  imports Prelude
begin

text \<open>
  The depth book of \<^verbatim>\<open>libs/market-data/OrderBookFeed.h\<close>: a list of bids and a list of asks,
  kept sorted from the best price on and cut at \<open>maxLevels\<close>.

  A price is a \<open>double\<close> in the code, used only in comparisons here; it is a type of class
  \<open>linorder\<close>, that is, no price is NaN. \<open>std::sort\<close> is not stable and may order equal prices in
  any way, so it is an argument \<open>srt\<close> with the law \<open>std_sort\<close>, what the standard says of it. The
  lock makes the operations atomic; the update callback takes no argument and is recorded by the
  number of its calls.
\<close>

section \<open>State\<close>

record 'p feed_order =
  fo_id :: u64
  fo_price :: 'p
  fo_quantity :: u32

record 'p feed =
  fd_maxLevels :: nat
  fd_bids :: "'p feed_order list"
  fd_asks :: "'p feed_order list"
  fd_callback :: bool
  fd_notified :: nat

definition feed_new :: "nat \<Rightarrow> 'p feed" where
  "feed_new maxLevels = \<lparr>fd_maxLevels = maxLevels, fd_bids = [], fd_asks = [],
     fd_callback = False, fd_notified = 0\<rparr>"

definition fd_book :: "bool \<Rightarrow> 'p feed \<Rightarrow> 'p feed_order list" where
  "fd_book side fd = (if side then fd_bids fd else fd_asks fd)"

definition set_book :: "bool \<Rightarrow> 'p feed_order list \<Rightarrow> 'p feed \<Rightarrow> 'p feed" where
  "set_book side b fd = (if side then fd\<lparr>fd_bids := b\<rparr> else fd\<lparr>fd_asks := b\<rparr>)"

definition notify :: "'p feed \<Rightarrow> 'p feed" where
  "notify fd = (if fd_callback fd then fd\<lparr>fd_notified := fd_notified fd + 1\<rparr> else fd)"

section \<open>Sorting\<close>

text \<open>The order a comparator sorts by, and the law of \<open>std::sort\<close> for a strict weak order.\<close>

definition strict_weak :: "('a \<Rightarrow> 'a \<Rightarrow> bool) \<Rightarrow> bool" where
  "strict_weak cmp \<longleftrightarrow> (\<forall>a b. cmp a b \<longrightarrow> \<not> cmp b a)
     \<and> (\<forall>a b c. \<not> cmp a b \<longrightarrow> \<not> cmp b c \<longrightarrow> \<not> cmp a c)"

definition std_sort :: "(('a \<Rightarrow> 'a \<Rightarrow> bool) \<Rightarrow> 'a list \<Rightarrow> 'a list) \<Rightarrow> bool" where
  "std_sort srt \<longleftrightarrow> (\<forall>cmp xs. strict_weak cmp \<longrightarrow>
     mset (srt cmp xs) = mset xs \<and> sorted_wrt (\<lambda>a b. \<not> cmp b a) (srt cmp xs))"

definition better :: "bool \<Rightarrow> ('p::linorder) feed_order \<Rightarrow> 'p feed_order \<Rightarrow> bool" where
  "better side a b = (if side then fo_price a > fo_price b else fo_price a < fo_price b)"

section \<open>Operations\<close>

text \<open>\<open>std::find_if\<close> for the id, then the assignment through the iterator.\<close>

fun replace_first :: "'p feed_order \<Rightarrow> 'p feed_order list \<Rightarrow> 'p feed_order list option" where
  "replace_first ord [] = None"
| "replace_first ord (x # xs) =
     (if fo_id x = fo_id ord then Some (ord # xs) else map_option ((#) x) (replace_first ord xs))"

definition upsert ::
  "((('p::linorder) feed_order \<Rightarrow> 'p feed_order \<Rightarrow> bool) \<Rightarrow> 'p feed_order list \<Rightarrow> 'p feed_order list)
    \<Rightarrow> bool \<Rightarrow> 'p feed_order \<Rightarrow> 'p feed \<Rightarrow> 'p feed" where
  "upsert srt side ord fd =
     (let book = fd_book side fd;
          book1 = (case replace_first ord book of Some b \<Rightarrow> b | None \<Rightarrow> book @ [ord]);
          book2 = srt (better side) book1;
          book3 = (if length book2 > fd_maxLevels fd then take (fd_maxLevels fd) book2 else book2)
      in notify (set_book side book3 fd))"

definition feed_remove :: "bool \<Rightarrow> u64 \<Rightarrow> 'p feed \<Rightarrow> 'p feed" where
  "feed_remove side orderId fd =
     notify (set_book side (filter (\<lambda>ord. fo_id ord \<noteq> orderId) (fd_book side fd)) fd)"

definition snapshot :: "'p feed \<Rightarrow> 'p feed_order list \<times> 'p feed_order list" where
  "snapshot fd = (fd_bids fd, fd_asks fd)"

definition setUpdateCallback :: "bool \<Rightarrow> 'p feed \<Rightarrow> 'p feed" where
  "setUpdateCallback cb fd = fd\<lparr>fd_callback := cb\<rparr>"

section \<open>Well-formed books\<close>

definition side_ok :: "bool \<Rightarrow> nat \<Rightarrow> ('p::linorder) feed_order list \<Rightarrow> bool" where
  "side_ok side n b \<longleftrightarrow> sorted_wrt (\<lambda>x y. \<not> better side y x) b \<and> distinct (map fo_id b) \<and> length b \<le> n"

definition feed_ok :: "('p::linorder) feed \<Rightarrow> bool" where
  "feed_ok fd \<longleftrightarrow> side_ok True (fd_maxLevels fd) (fd_bids fd) \<and> side_ok False (fd_maxLevels fd) (fd_asks fd)"

lemma better_strict_weak: "strict_weak (better side)"
  by (auto simp: strict_weak_def better_def)

lemma std_sort_better:
  assumes "std_sort srt"
  shows "mset (srt (better side) xs) = mset xs"
    and "sorted_wrt (\<lambda>a b. \<not> better side b a) (srt (better side) xs)"
    and "set (srt (better side) xs) = set xs"
    and "length (srt (better side) xs) = length xs"
    and "distinct (map fo_id (srt (better side) xs)) = distinct (map fo_id xs)"
proof -
  show m: "mset (srt (better side) xs) = mset xs"
    and "sorted_wrt (\<lambda>a b. \<not> better side b a) (srt (better side) xs)"
    using assms better_strict_weak by (auto simp: std_sort_def)
  from m show "set (srt (better side) xs) = set xs" by (rule mset_eq_setD)
  from m show "length (srt (better side) xs) = length xs" by (rule mset_eq_length)
  from m have "mset (map fo_id (srt (better side) xs)) = mset (map fo_id xs)" by simp
  then show "distinct (map fo_id (srt (better side) xs)) = distinct (map fo_id xs)"
    by (rule mset_eq_imp_distinct_iff)
qed

lemma notify_simps [simp]:
  "fd_bids (notify fd) = fd_bids fd" "fd_asks (notify fd) = fd_asks fd"
  "fd_maxLevels (notify fd) = fd_maxLevels fd" "fd_callback (notify fd) = fd_callback fd"
  "fd_book side (notify fd) = fd_book side fd"
  by (simp_all add: notify_def fd_book_def)

lemma set_book_simps [simp]:
  "fd_book side' (set_book side b fd) = (if side' = side then b else fd_book side' fd)"
  "fd_maxLevels (set_book side b fd) = fd_maxLevels fd"
  "fd_callback (set_book side b fd) = fd_callback fd"
  "fd_notified (set_book side b fd) = fd_notified fd"
  by (auto simp: fd_book_def set_book_def)

lemma feed_ok_book: "feed_ok fd \<longleftrightarrow> (\<forall>side. side_ok side (fd_maxLevels fd) (fd_book side fd))"
  by (auto simp: feed_ok_def fd_book_def all_bool_eq)

lemma feed_ok_new: "feed_ok (feed_new n)"
  by (simp add: feed_ok_def side_ok_def feed_new_def)

section \<open>Inserting and updating\<close>

definition put_order :: "'p feed_order \<Rightarrow> 'p feed_order list \<Rightarrow> 'p feed_order list" where
  "put_order ord b = (case replace_first ord b of Some b' \<Rightarrow> b' | None \<Rightarrow> b @ [ord])"

lemma replace_first_None: "replace_first ord b = None \<longleftrightarrow> fo_id ord \<notin> fo_id ` set b"
  by (induction b) auto

lemma replace_first_Some:
  "replace_first ord b = Some b' \<Longrightarrow> distinct (map fo_id b)
    \<Longrightarrow> map fo_id b' = map fo_id b \<and> set b' = insert ord {x \<in> set b. fo_id x \<noteq> fo_id ord}"
proof (induction b arbitrary: b')
  case (Cons x b)
  show ?case
  proof (cases "fo_id x = fo_id ord")
    case True
    moreover have "{y \<in> set (x # b). fo_id y \<noteq> fo_id ord} = set b"
      using Cons.prems(2) True by (auto simp: image_iff)
    moreover have "b' = ord # b" "map fo_id b' = map fo_id (x # b)" using Cons.prems(1) True by auto
    ultimately show ?thesis by (metis list.simps(15))
  next
    case False
    then obtain b1 where "replace_first ord b = Some b1" "b' = x # b1"
      using Cons.prems(1) by auto
    with Cons.IH Cons.prems(2) False show ?thesis by auto
  qed
qed simp

lemma put_order_set:
  "distinct (map fo_id b) \<Longrightarrow> set (put_order ord b) = insert ord {x \<in> set b. fo_id x \<noteq> fo_id ord}"
proof (cases "replace_first ord b")
  case None
  then have "{x \<in> set b. fo_id x \<noteq> fo_id ord} = set b"
    unfolding replace_first_None by (auto intro: rev_image_eqI)
  with None show ?thesis by (simp add: put_order_def)
next
  case (Some b')
  assume "distinct (map fo_id b)"
  with replace_first_Some [OF Some] Some show ?thesis by (simp add: put_order_def)
qed

lemma put_order_distinct: "distinct (map fo_id b) \<Longrightarrow> distinct (map fo_id (put_order ord b))"
  using replace_first_None [of ord b] replace_first_Some [of ord b]
  by (auto simp: put_order_def split: option.splits)

lemma put_order_length:
  "distinct (map fo_id b)
    \<Longrightarrow> length (put_order ord b) = (if fo_id ord \<in> fo_id ` set b then length b else Suc (length b))"
  using replace_first_None [of ord b] replace_first_Some [of ord b]
  by (auto simp: put_order_def split: option.splits dest: map_eq_imp_length_eq)

text \<open>The book after \<open>upsert\<close>: the best \<open>maxLevels\<close> of the sorted list.\<close>

lemma upsert_book:
  assumes "std_sort srt"
  shows "fd_book side (upsert srt side ord fd)
      = take (fd_maxLevels fd) (srt (better side) (put_order ord (fd_book side fd)))"
    and "fd_book (\<not> side) (upsert srt side ord fd) = fd_book (\<not> side) fd"
    and "fd_maxLevels (upsert srt side ord fd) = fd_maxLevels fd"
    and "fd_callback (upsert srt side ord fd) = fd_callback fd"
  by (auto simp: upsert_def put_order_def Let_def)

lemma side_ok_upsert:
  assumes "std_sort srt" "side_ok side n b"
  shows "side_ok side n (take n (srt (better side) (put_order ord b)))"
proof -
  have "distinct (map fo_id (put_order ord b))"
    using assms(2) by (simp add: side_ok_def put_order_distinct)
  with std_sort_better [OF assms(1)] show ?thesis
    by (simp add: side_ok_def sorted_wrt_take take_map [symmetric])
qed

lemma upsert_ok:
  assumes "std_sort srt" "feed_ok fd"
  shows "feed_ok (upsert srt side ord fd)"
proof -
  have "side_ok side' (fd_maxLevels fd) (fd_book side' (upsert srt side ord fd))" for side'
  proof (cases "side' = side")
    case True
    with assms show ?thesis
      using side_ok_upsert [OF assms(1)] by (simp add: upsert_book feed_ok_book)
  next
    case False
    then have "side' = (\<not> side)" by auto
    with assms show ?thesis by (simp add: upsert_book feed_ok_book)
  qed
  then show ?thesis using upsert_book(3) [OF assms(1)] by (simp add: feed_ok_book)
qed

text \<open>What is kept and what is cut off at \<open>maxLevels\<close>.\<close>

lemma upsert_kept:
  assumes "std_sort srt" "feed_ok fd"
  shows "set (fd_book side (upsert srt side ord fd))
      \<subseteq> insert ord {x \<in> set (fd_book side fd). fo_id x \<noteq> fo_id ord}"
    and "length (fd_book side (upsert srt side ord fd))
      = min (fd_maxLevels fd) (length (put_order ord (fd_book side fd)))"
proof -
  have "distinct (map fo_id (fd_book side fd))" using assms(2) by (simp add: feed_ok_book side_ok_def)
  then show "set (fd_book side (upsert srt side ord fd))
      \<subseteq> insert ord {x \<in> set (fd_book side fd). fo_id x \<noteq> fo_id ord}"
    using std_sort_better(3) [OF assms(1), of side "put_order ord (fd_book side fd)"]
    by (auto simp: upsert_book [OF assms(1)] put_order_set dest: in_set_takeD)
  show "length (fd_book side (upsert srt side ord fd))
      = min (fd_maxLevels fd) (length (put_order ord (fd_book side fd)))"
    using std_sort_better(4) [OF assms(1)] by (simp add: upsert_book [OF assms(1)] min.commute)
qed

lemma upsert_cut:
  assumes s: "std_sort srt" and ok: "feed_ok fd"
    and x: "x \<in> insert ord {x \<in> set (fd_book side fd). fo_id x \<noteq> fo_id ord}"
    and cut: "x \<notin> set (fd_book side (upsert srt side ord fd))"
    and y: "y \<in> set (fd_book side (upsert srt side ord fd))"
  shows "\<not> better side x y"
proof -
  let ?l = "srt (better side) (put_order ord (fd_book side fd))" and ?n = "fd_maxLevels fd"
  have "distinct (map fo_id (fd_book side fd))" using ok by (simp add: feed_ok_book side_ok_def)
  then have "x \<in> set ?l" using x std_sort_better(3) [OF s] by (simp add: put_order_set)
  moreover have "x \<notin> set (take ?n ?l)" "y \<in> set (take ?n ?l)"
    using cut y by (simp_all add: upsert_book [OF s])
  ultimately have "x \<in> set (drop ?n ?l)" by (metis Un_iff append_take_drop_id set_append)
  moreover have "sorted_wrt (\<lambda>a b. \<not> better side b a) (take ?n ?l @ drop ?n ?l)"
    using std_sort_better(2) [OF s] by simp
  ultimately show ?thesis using \<open>y \<in> set (take ?n ?l)\<close> unfolding sorted_wrt_append by blast
qed

lemma upsert_all_kept:
  assumes "std_sort srt" "feed_ok fd"
    and "length (put_order ord (fd_book side fd)) \<le> fd_maxLevels fd"
  shows "set (fd_book side (upsert srt side ord fd))
      = insert ord {x \<in> set (fd_book side fd). fo_id x \<noteq> fo_id ord}"
proof -
  have "distinct (map fo_id (fd_book side fd))" using assms(2) by (simp add: feed_ok_book side_ok_def)
  then show ?thesis
    using std_sort_better(3,4) [OF assms(1)] assms(3)
    by (simp add: upsert_book [OF assms(1)] put_order_set)
qed

section \<open>Removing\<close>

lemma remove_book:
  "fd_book side (feed_remove side i fd) = filter (\<lambda>ord. fo_id ord \<noteq> i) (fd_book side fd)"
  "fd_book (\<not> side) (feed_remove side i fd) = fd_book (\<not> side) fd"
  "fd_maxLevels (feed_remove side i fd) = fd_maxLevels fd"
  by (simp_all add: feed_remove_def)

lemma side_ok_filter: "side_ok side n b \<Longrightarrow> side_ok side n (filter P b)"
  by (auto simp: side_ok_def sorted_wrt_filter distinct_map intro: inj_on_subset le_trans [OF length_filter_le])

lemma remove_ok: "feed_ok fd \<Longrightarrow> feed_ok (feed_remove side i fd)"
proof -
  assume ok: "feed_ok fd"
  have "side_ok side' (fd_maxLevels fd) (fd_book side' (feed_remove side i fd))" for side'
    using ok by (cases "side' = side") (simp_all add: feed_ok_book feed_remove_def side_ok_filter)
  then show ?thesis by (simp add: feed_ok_book remove_book)
qed

section \<open>Batches of updates\<close>

text \<open>
  Orders whose ids come from a set no larger than the book are all kept: a batch with distinct
  ids replaces those it names and leaves the others.
\<close>

lemma put_order_ids:
  assumes "distinct (map fo_id b)" "insert (fo_id ord) (fo_id ` set b) \<subseteq> I" "finite I"
  shows "length (put_order ord b) \<le> card I"
proof -
  have "length (put_order ord b) = card (fo_id ` set (put_order ord b))"
    using put_order_distinct [OF assms(1)] by (metis distinct_card length_map list.set_map)
  also have "\<dots> \<le> card I"
    using assms by (intro card_mono) (auto simp: put_order_set)
  finally show ?thesis .
qed

lemma upsert_batch:
  assumes s: "std_sort srt" and "feed_ok fd" and "distinct (map fo_id ords)"
    and "fo_id ` set ords \<subseteq> I" "fo_id ` set (fd_book side fd) \<subseteq> I"
    and I: "finite I" "card I \<le> fd_maxLevels fd"
  shows "feed_ok (fold (upsert srt side) ords fd)
    \<and> fd_maxLevels (fold (upsert srt side) ords fd) = fd_maxLevels fd
    \<and> fd_book (\<not> side) (fold (upsert srt side) ords fd) = fd_book (\<not> side) fd
    \<and> set (fd_book side (fold (upsert srt side) ords fd))
      = set ords \<union> {x \<in> set (fd_book side fd). fo_id x \<notin> fo_id ` set ords}"
  using assms(2-5,7)
proof (induction ords arbitrary: fd)
  case (Cons ord ords)
  let ?fd = "upsert srt side ord fd"
  have ok: "distinct (map fo_id (fd_book side fd))" using Cons.prems(1) by (simp add: feed_ok_book side_ok_def)
  have "length (put_order ord (fd_book side fd)) \<le> fd_maxLevels fd"
    using put_order_ids [OF ok, of ord I] Cons.prems(3-5) I(1) by simp
  then have set1: "set (fd_book side ?fd) = insert ord {x \<in> set (fd_book side fd). fo_id x \<noteq> fo_id ord}"
    by (rule upsert_all_kept [OF s Cons.prems(1)])
  have "feed_ok ?fd" "fd_maxLevels ?fd = fd_maxLevels fd" "fd_book (\<not> side) ?fd = fd_book (\<not> side) fd"
    using upsert_ok [OF s Cons.prems(1)] upsert_book [OF s] by simp_all
  moreover have "fo_id ` set (fd_book side ?fd) \<subseteq> I" using set1 Cons.prems(3,4) by auto
  ultimately have ih: "feed_ok (fold (upsert srt side) ords ?fd)"
    "fd_maxLevels (fold (upsert srt side) ords ?fd) = fd_maxLevels fd"
    "fd_book (\<not> side) (fold (upsert srt side) ords ?fd) = fd_book (\<not> side) fd"
    "set (fd_book side (fold (upsert srt side) ords ?fd))
      = set ords \<union> {x \<in> set (fd_book side ?fd). fo_id x \<notin> fo_id ` set ords}"
    using Cons.IH [of ?fd] Cons.prems by auto
  have "fo_id ord \<notin> fo_id ` set ords" using Cons.prems(2) by (simp add: image_iff)
  then have "set ords \<union> {x \<in> set (fd_book side ?fd). fo_id x \<notin> fo_id ` set ords}
      = set (ord # ords) \<union> {x \<in> set (fd_book side fd). fo_id x \<notin> fo_id ` set (ord # ords)}"
    unfolding set1 by auto
  with ih show ?case by simp
qed auto

section \<open>A sorting function\<close>

text \<open>Insertion sort has the law of \<open>std::sort\<close>.\<close>

fun cmp_insert :: "('a \<Rightarrow> 'a \<Rightarrow> bool) \<Rightarrow> 'a \<Rightarrow> 'a list \<Rightarrow> 'a list" where
  "cmp_insert cmp x [] = [x]"
| "cmp_insert cmp x (y # ys) = (if cmp y x then y # cmp_insert cmp x ys else x # y # ys)"

definition cmp_sort :: "('a \<Rightarrow> 'a \<Rightarrow> bool) \<Rightarrow> 'a list \<Rightarrow> 'a list" where
  "cmp_sort cmp xs = foldr (cmp_insert cmp) xs []"

lemma mset_cmp_insert [simp]: "mset (cmp_insert cmp x ys) = add_mset x (mset ys)"
  by (induction ys) auto

lemma set_cmp_insert [simp]: "set (cmp_insert cmp x ys) = insert x (set ys)"
  by (induction ys) auto

lemma sorted_cmp_insert:
  "strict_weak cmp \<Longrightarrow> sorted_wrt (\<lambda>a b. \<not> cmp b a) ys
    \<Longrightarrow> sorted_wrt (\<lambda>a b. \<not> cmp b a) (cmp_insert cmp x ys)"
proof (induction ys)
  case (Cons y ys)
  have asym: "cmp y x \<Longrightarrow> \<not> cmp x y" using Cons.prems(1) unfolding strict_weak_def by blast
  have "\<not> cmp b x" if "\<not> cmp y x" "\<not> cmp b y" for b
    using Cons.prems(1) that unfolding strict_weak_def by blast
  with asym Cons show ?case by (cases "cmp y x") simp_all
qed simp

lemma std_sort_cmp_sort: "std_sort cmp_sort"
proof -
  have "mset (cmp_sort cmp xs) = mset xs" for cmp :: "'a \<Rightarrow> 'a \<Rightarrow> bool" and xs
    by (induction xs) (simp_all add: cmp_sort_def)
  moreover have "strict_weak cmp \<Longrightarrow> sorted_wrt (\<lambda>a b. \<not> cmp b a) (cmp_sort cmp xs)"
    for cmp :: "'a \<Rightarrow> 'a \<Rightarrow> bool" and xs
    by (induction xs) (simp_all add: cmp_sort_def sorted_cmp_insert)
  ultimately show ?thesis by (simp add: std_sort_def)
qed

end
