(* ===== verification/FeedLock.thy ===== *)
theory FeedLock
  imports OrderBookFeed Machines
begin

text \<open>
  The depth book of \<^verbatim>\<open>OrderBookFeed.h\<close> with several threads in it. The mutex is a part of the
  state, and one step is what one thread does between two points where another may run: taking
  the lock, each statement of \<open>upsert\<close> and \<open>remove\<close> that writes a book in place, the test of the
  callback, its call, each of the two copies of \<open>snapshot\<close>, and giving the lock back.
  \<open>setUpdateCallback\<close> takes no lock.

  Of the update callback, which takes no argument, the model has whether it calls an operation of
  the same feed: then it asks for the mutex its own thread holds and does not come back.
\<close>

section \<open>State\<close>

datatype 'p feed_call =
  Upsert bool "'p feed_order"
| Remove bool u64
| Snapshot
| Set_Callback bool bool

text \<open>Where a thread is: outside, or before the next statement of the operation it is in.\<close>

datatype 'p feed_pc =
  F_Outside
| F_Put bool "'p feed_order"
| F_Sort bool
| F_Cut bool
| F_Erase bool u64
| F_Test
| F_Call
| F_Waiting
| F_Unlock
| F_Copy_Bids
| F_Copy_Asks "'p feed_order list"
| F_Return "'p feed_order list" "'p feed_order list"
| F_Thrown

text \<open>
  \<open>lf_todo\<close> holds the calls each thread still makes. \<open>lf_locked\<close> and \<open>lf_returned\<close> are histories:
  the calls in the order they took the lock, and what \<open>snapshot\<close> returned, with the thread.
\<close>

record 'p locked_feed =
  lf_feed :: "'p feed"
  lf_reenters :: bool
  lf_mutex :: "nat option"
  lf_pc :: "nat \<Rightarrow> 'p feed_pc"
  lf_todo :: "nat \<Rightarrow> 'p feed_call list"
  lf_locked :: "(nat \<times> 'p feed_call) list"
  lf_returned :: "(nat \<times> ('p feed_order list \<times> 'p feed_order list)) list"

definition locked_start :: "'p feed \<Rightarrow> bool \<Rightarrow> (nat \<Rightarrow> 'p feed_call list) \<Rightarrow> 'p locked_feed" where
  "locked_start fd reenters progs = \<lparr>lf_feed = fd, lf_reenters = reenters, lf_mutex = None,
     lf_pc = (\<lambda>_. F_Outside), lf_todo = progs, lf_locked = [], lf_returned = []\<rparr>"

fun first_pc :: "'p feed_call \<Rightarrow> 'p feed_pc option" where
  "first_pc (Upsert side ord) = Some (F_Put side ord)"
| "first_pc (Remove side orderId) = Some (F_Erase side orderId)"
| "first_pc Snapshot = Some F_Copy_Bids"
| "first_pc (Set_Callback cb reenters) = None"

section \<open>Steps\<close>

text \<open>
  What the thread that holds the lock does next: the feed, and where the thread is then. The
  callback is tested and called by two reads of \<open>_callback\<close>; calling an empty \<open>std::function\<close>
  throws, which unlocks the mutex on the way out. No step leads on from \<open>F_Waiting\<close>.
\<close>

fun feed_action ::
  "((('p::linorder) feed_order \<Rightarrow> 'p feed_order \<Rightarrow> bool) \<Rightarrow> 'p feed_order list \<Rightarrow> 'p feed_order list)
    \<Rightarrow> bool \<Rightarrow> 'p feed_pc \<Rightarrow> 'p feed \<Rightarrow> ('p feed_pc \<times> 'p feed) option" where
  "feed_action srt reenters (F_Put side ord) fd =
     Some (F_Sort side, set_book side (put_order ord (fd_book side fd)) fd)"
| "feed_action srt reenters (F_Sort side) fd =
     Some (F_Cut side, set_book side (srt (better side) (fd_book side fd)) fd)"
| "feed_action srt reenters (F_Cut side) fd =
     Some (F_Test, if length (fd_book side fd) > fd_maxLevels fd
                   then set_book side (take (fd_maxLevels fd) (fd_book side fd)) fd else fd)"
| "feed_action srt reenters (F_Erase side orderId) fd =
     Some (F_Test, set_book side (filter (\<lambda>ord. fo_id ord \<noteq> orderId) (fd_book side fd)) fd)"
| "feed_action srt reenters F_Test fd = Some (if fd_callback fd then F_Call else F_Unlock, fd)"
| "feed_action srt reenters F_Call fd =
     Some (if fd_callback fd
           then (if reenters then F_Waiting else F_Unlock, fd\<lparr>fd_notified := fd_notified fd + 1\<rparr>)
           else (F_Thrown, fd))"
| "feed_action srt reenters F_Copy_Bids fd = Some (F_Copy_Asks (fd_bids fd), fd)"
| "feed_action srt reenters (F_Copy_Asks bids) fd = Some (F_Return bids (fd_asks fd), fd)"
| "feed_action srt reenters _ fd = None"

inductive feed_step ::
  "((('p::linorder) feed_order \<Rightarrow> 'p feed_order \<Rightarrow> bool) \<Rightarrow> 'p feed_order list \<Rightarrow> 'p feed_order list)
    \<Rightarrow> 'p locked_feed \<Rightarrow> 'p locked_feed \<Rightarrow> bool" for srt where
  fs_lock: "lf_pc s t = F_Outside \<Longrightarrow> lf_todo s t = c # cs \<Longrightarrow> first_pc c = Some pc \<Longrightarrow>
    lf_mutex s = None \<Longrightarrow>
    feed_step srt s (s\<lparr>lf_mutex := Some t, lf_pc := (lf_pc s)(t := pc), lf_todo := (lf_todo s)(t := cs),
      lf_locked := lf_locked s @ [(t, c)]\<rparr>)"
| fs_set: "lf_pc s t = F_Outside \<Longrightarrow> lf_todo s t = Set_Callback cb reenters # cs \<Longrightarrow>
    feed_step srt s (s\<lparr>lf_feed := setUpdateCallback cb (lf_feed s), lf_reenters := reenters,
      lf_todo := (lf_todo s)(t := cs)\<rparr>)"
| fs_action: "feed_action srt (lf_reenters s) (lf_pc s t) (lf_feed s) = Some (pc, fd) \<Longrightarrow>
    feed_step srt s (s\<lparr>lf_feed := fd, lf_pc := (lf_pc s)(t := pc),
      lf_mutex := (if pc = F_Thrown then None else lf_mutex s)\<rparr>)"
| fs_unlock: "lf_pc s t = F_Unlock \<Longrightarrow>
    feed_step srt s (s\<lparr>lf_mutex := None, lf_pc := (lf_pc s)(t := F_Outside)\<rparr>)"
| fs_return: "lf_pc s t = F_Return bids asks \<Longrightarrow>
    feed_step srt s (s\<lparr>lf_mutex := None, lf_pc := (lf_pc s)(t := F_Outside),
      lf_returned := lf_returned s @ [(t, (bids, asks))]\<rparr>)"

inductive_cases feed_stepE: "feed_step srt s s'"

section \<open>The sequential feed\<close>

text \<open>The calls one after the other, each run to its end, with what the snapshots return.\<close>

fun seq_call ::
  "((('p::linorder) feed_order \<Rightarrow> 'p feed_order \<Rightarrow> bool) \<Rightarrow> 'p feed_order list \<Rightarrow> 'p feed_order list)
    \<Rightarrow> 'p feed_call \<Rightarrow> 'p feed \<Rightarrow> 'p feed" where
  "seq_call srt (Upsert side ord) fd = upsert srt side ord fd"
| "seq_call srt (Remove side orderId) fd = feed_remove side orderId fd"
| "seq_call srt Snapshot fd = fd"
| "seq_call srt (Set_Callback cb reenters) fd = setUpdateCallback cb fd"

definition seq_feed ::
  "((('p::linorder) feed_order \<Rightarrow> 'p feed_order \<Rightarrow> bool) \<Rightarrow> 'p feed_order list \<Rightarrow> 'p feed_order list)
    \<Rightarrow> (nat \<times> 'p feed_call) list \<Rightarrow> 'p feed \<Rightarrow> 'p feed" where
  "seq_feed srt h fd = fold (\<lambda>(t, c). seq_call srt c) h fd"

fun seq_returned ::
  "((('p::linorder) feed_order \<Rightarrow> 'p feed_order \<Rightarrow> bool) \<Rightarrow> 'p feed_order list \<Rightarrow> 'p feed_order list)
    \<Rightarrow> (nat \<times> 'p feed_call) list \<Rightarrow> 'p feed
    \<Rightarrow> (nat \<times> ('p feed_order list \<times> 'p feed_order list)) list" where
  "seq_returned srt [] fd = []"
| "seq_returned srt ((t, c) # h) fd =
     (case c of Snapshot \<Rightarrow> [(t, snapshot fd)] | _ \<Rightarrow> []) @ seq_returned srt h (seq_call srt c fd)"

text \<open>Feeds with the same books; the flag and the count of the callback do not matter to them.\<close>

definition same_books :: "'p feed \<Rightarrow> 'p feed \<Rightarrow> bool" where
  "same_books fd fd' \<longleftrightarrow> snapshot fd = snapshot fd' \<and> fd_maxLevels fd = fd_maxLevels fd'"

lemma same_books_iff: "same_books fd fd' \<longleftrightarrow>
    (\<forall>side. fd_book side fd = fd_book side fd') \<and> fd_maxLevels fd = fd_maxLevels fd'"
  by (auto simp: same_books_def snapshot_def fd_book_def all_bool_eq)

lemma same_books_simps [simp]:
  "same_books fd fd"
  "same_books (setUpdateCallback cb fd) fd' \<longleftrightarrow> same_books fd fd'"
  "same_books (fd\<lparr>fd_notified := k\<rparr>) fd' \<longleftrightarrow> same_books fd fd'"
  "same_books (notify fd) fd' \<longleftrightarrow> same_books fd fd'"
  "same_books fd (notify fd') \<longleftrightarrow> same_books fd fd'"
  by (simp_all add: same_books_def snapshot_def setUpdateCallback_def)

lemma same_books_set_book:
  "same_books fd fd' \<Longrightarrow> b = b' \<Longrightarrow> same_books (set_book side b fd) (set_book side b' fd')"
  by (simp add: same_books_iff)

lemma set_book_twice [simp]: "set_book side b (set_book side b' fd) = set_book side b fd"
  by (simp add: set_book_def)

lemma seq_feed_snoc: "seq_feed srt (h @ [(t, c)]) fd = seq_call srt c (seq_feed srt h fd)"
  by (simp add: seq_feed_def)

lemma seq_feed_Nil [simp]: "seq_feed srt [] fd = fd"
  by (simp add: seq_feed_def)

lemma seq_returned_append:
  "seq_returned srt (h @ h') fd = seq_returned srt h fd @ seq_returned srt h' (seq_feed srt h fd)"
  by (induction h arbitrary: fd) (auto simp: seq_feed_def)

text \<open>The three statements of \<open>upsert\<close> that write the book, one after the other, are \<open>upsert\<close>.\<close>

lemma upsert_stages:
  "same_books (upsert srt side ord fd)
     (let b = srt (better side) (put_order ord (fd_book side fd))
      in if length b > fd_maxLevels fd then set_book side (take (fd_maxLevels fd) b) fd else set_book side b fd)"
  by (auto simp: upsert_def put_order_def Let_def)

section \<open>The invariant\<close>

fun is_update :: "'p feed_call \<Rightarrow> bool" where
  "is_update (Upsert side ord) = True"
| "is_update (Remove side orderId) = True"
| "is_update _ = False"

definition takes_lock :: "'p feed_call \<Rightarrow> bool" where
  "takes_lock c \<longleftrightarrow> first_pc c \<noteq> None"

definition outside :: "'p feed_pc \<Rightarrow> bool" where
  "outside pc \<longleftrightarrow> pc = F_Outside \<or> pc = F_Thrown"

text \<open>
  What holds of the feed while a thread is at \<open>pc\<close> in the call \<open>c\<close>, where \<open>base\<close> is what the calls
  that had the lock before made of the feed.
\<close>

fun holding ::
  "((('p::linorder) feed_order \<Rightarrow> 'p feed_order \<Rightarrow> bool) \<Rightarrow> 'p feed_order list \<Rightarrow> 'p feed_order list)
    \<Rightarrow> 'p feed_call \<Rightarrow> 'p feed \<Rightarrow> 'p feed \<Rightarrow> 'p feed_pc \<Rightarrow> bool" where
  "holding srt c base fd (F_Put side ord) \<longleftrightarrow> c = Upsert side ord \<and> same_books fd base"
| "holding srt c base fd (F_Sort side) \<longleftrightarrow> (\<exists>ord. c = Upsert side ord
     \<and> same_books fd (set_book side (put_order ord (fd_book side base)) base))"
| "holding srt c base fd (F_Cut side) \<longleftrightarrow> (\<exists>ord. c = Upsert side ord
     \<and> same_books fd (set_book side (srt (better side) (put_order ord (fd_book side base))) base))"
| "holding srt c base fd (F_Erase side orderId) \<longleftrightarrow> c = Remove side orderId \<and> same_books fd base"
| "holding srt c base fd F_Copy_Bids \<longleftrightarrow> c = Snapshot \<and> same_books fd base"
| "holding srt c base fd (F_Copy_Asks bids) \<longleftrightarrow> c = Snapshot \<and> same_books fd base \<and> bids = fd_bids base"
| "holding srt c base fd (F_Return bids asks) \<longleftrightarrow>
     c = Snapshot \<and> same_books fd base \<and> (bids, asks) = snapshot base"
| "holding srt c base fd F_Outside \<longleftrightarrow> False"
| "holding srt c base fd F_Thrown \<longleftrightarrow> False"
| "holding srt c base fd _ \<longleftrightarrow> is_update c \<and> same_books fd (seq_call srt c base)"

definition lock_inv ::
  "((('p::linorder) feed_order \<Rightarrow> 'p feed_order \<Rightarrow> bool) \<Rightarrow> 'p feed_order list \<Rightarrow> 'p feed_order list)
    \<Rightarrow> 'p feed \<Rightarrow> 'p locked_feed \<Rightarrow> bool" where
  "lock_inv srt fd0 s \<longleftrightarrow> (case lf_mutex s of
     None \<Rightarrow> (\<forall>t. outside (lf_pc s t)) \<and> same_books (lf_feed s) (seq_feed srt (lf_locked s) fd0)
       \<and> lf_returned s = seq_returned srt (lf_locked s) fd0
   | Some t \<Rightarrow> (\<forall>u. u \<noteq> t \<longrightarrow> outside (lf_pc s u))
       \<and> (\<exists>h c. lf_locked s = h @ [(t, c)] \<and> lf_returned s = seq_returned srt h fd0
            \<and> holding srt c (seq_feed srt h fd0) (lf_feed s) (lf_pc s t)))"

definition order_inv :: "(nat \<Rightarrow> 'p feed_call list) \<Rightarrow> 'p locked_feed \<Rightarrow> bool" where
  "order_inv progs s \<longleftrightarrow> (\<forall>t. map snd (filter (\<lambda>e. fst e = t) (lf_locked s))
     @ filter takes_lock (lf_todo s t) = filter takes_lock (progs t))"

text \<open>Only the thread that has the lock is inside.\<close>

lemma lock_inv_owner:
  "lock_inv srt fd0 s \<Longrightarrow> \<not> outside (lf_pc s t) \<Longrightarrow> lf_mutex s = Some t"
  by (cases "lf_mutex s") (simp_all add: lock_inv_def, metis)

lemma feed_action_inside: "feed_action srt r pc fd = Some res \<Longrightarrow> \<not> outside pc"
  by (auto simp: outside_def)

lemma first_pc_holding:
  "first_pc c = Some pc \<Longrightarrow> same_books fd base \<Longrightarrow> holding srt c base fd pc"
  by (cases c) auto

lemma update_returns_nothing: "is_update c \<Longrightarrow> (case c of Snapshot \<Rightarrow> x | _ \<Rightarrow> []) = []"
  by (cases c) auto

lemma same_books_trans: "same_books a b \<Longrightarrow> same_books c b \<Longrightarrow> same_books a c"
  by (simp add: same_books_def)

lemma same_books_cut:
  assumes "same_books fd (set_book side b base)"
  shows "same_books
      (if length (fd_book side fd) > fd_maxLevels fd then set_book side (take (fd_maxLevels fd) (fd_book side fd)) fd else fd)
      (if length b > fd_maxLevels base then set_book side (take (fd_maxLevels base) b) base else set_book side b base)"
proof -
  from assms have b: "fd_book side fd = b" "fd_maxLevels fd = fd_maxLevels base"
    by (simp_all add: same_books_iff)
  show ?thesis
  proof (cases "length b > fd_maxLevels base")
    case True
    then show ?thesis using same_books_set_book [OF assms refl, of side "take (fd_maxLevels base) b"] b by simp
  qed (use assms b in simp)
qed

text \<open>A statement of the thread that has the lock takes its stage to the next one.\<close>

lemma holding_action:
  assumes "feed_action srt r pc fd = Some (pc', fd')" "holding srt c base fd pc"
  shows "holding srt c base fd' pc' \<or> pc' = F_Thrown \<and> is_update c \<and> same_books fd' (seq_call srt c base)"
proof (cases pc)
  case (F_Sort side)
  then have "holding srt c base fd' pc'" using assms by (auto simp: same_books_iff)
  then show ?thesis by simp
next
  case (F_Cut side)
  then obtain ord where c: "c = Upsert side ord"
    and fd: "same_books fd (set_book side (srt (better side) (put_order ord (fd_book side base))) base)"
    using assms(2) by auto
  have "pc' = F_Test" "same_books fd' (upsert srt side ord base)"
    using assms(1) same_books_trans [OF same_books_cut [OF fd] upsert_stages [of srt side ord base, unfolded Let_def]]
    by (simp_all add: F_Cut)
  with c show ?thesis by simp
next
  case (F_Erase side i)
  then have "holding srt c base fd' pc'" using assms by (auto simp: same_books_iff feed_remove_def)
  then show ?thesis by simp
next
  case (F_Put side ord)
  then have "holding srt c base fd' pc'" using assms by (auto simp: same_books_iff)
  then show ?thesis by simp
next
  case (F_Copy_Bids)
  then show ?thesis using assms by (auto simp: same_books_def snapshot_def)
next
  case (F_Copy_Asks bids)
  then show ?thesis using assms by (auto simp: same_books_def snapshot_def)
qed (use assms in \<open>auto split: if_splits\<close>)

text \<open>Taking the lock, a statement, and giving the lock back keep the invariant.\<close>

lemma lock_inv_lock:
  assumes "lock_inv srt fd0 s" "lf_mutex s = None" "first_pc c = Some pc"
  shows "lock_inv srt fd0 (s\<lparr>lf_mutex := Some t, lf_pc := (lf_pc s)(t := pc), lf_todo := todo,
    lf_locked := lf_locked s @ [(t, c)]\<rparr>)"
  using assms first_pc_holding [OF assms(3), of "lf_feed s" "seq_feed srt (lf_locked s) fd0" srt]
  by (simp add: lock_inv_def)

lemma lock_inv_set:
  "lock_inv srt fd0 s \<Longrightarrow> lock_inv srt fd0 (s\<lparr>lf_feed := setUpdateCallback cb (lf_feed s), lf_reenters := r,
    lf_todo := todo\<rparr>)"
proof -
  have "holding srt c base (setUpdateCallback cb fd) pc = holding srt c base fd pc" for c base fd pc
    by (cases pc) simp_all
  then show "lock_inv srt fd0 s \<Longrightarrow> ?thesis" by (simp add: lock_inv_def split: option.splits)
qed

lemma lock_inv_action:
  assumes "lock_inv srt fd0 s" "feed_action srt r (lf_pc s t) (lf_feed s) = Some (pc, fd)"
  shows "lock_inv srt fd0 (s\<lparr>lf_feed := fd, lf_pc := (lf_pc s)(t := pc),
    lf_mutex := (if pc = F_Thrown then None else lf_mutex s)\<rparr>)"
proof -
  have m: "lf_mutex s = Some t"
    by (rule lock_inv_owner [OF assms(1) feed_action_inside [OF assms(2)]])
  with assms(1) obtain h c where h: "lf_locked s = h @ [(t, c)]" "lf_returned s = seq_returned srt h fd0"
    and hold: "holding srt c (seq_feed srt h fd0) (lf_feed s) (lf_pc s t)"
    and out: "\<And>u. u \<noteq> t \<Longrightarrow> outside (lf_pc s u)"
    by (auto simp: lock_inv_def)
  from holding_action [OF assms(2) hold]
  show ?thesis
  proof
    assume new: "holding srt c (seq_feed srt h fd0) fd pc"
    then have "pc \<noteq> F_Thrown" by auto
    with new h m out show ?thesis by (simp add: lock_inv_def)
  next
    assume "pc = F_Thrown \<and> is_update c \<and> same_books fd (seq_call srt c (seq_feed srt h fd0))"
    then show ?thesis using h out
      by (simp add: lock_inv_def outside_def seq_feed_snoc seq_returned_append update_returns_nothing)
  qed
qed

lemma lock_inv_unlock:
  assumes "lock_inv srt fd0 s" "lf_pc s t = F_Unlock"
  shows "lock_inv srt fd0 (s\<lparr>lf_mutex := None, lf_pc := (lf_pc s)(t := F_Outside)\<rparr>)"
proof -
  have m: "lf_mutex s = Some t" by (rule lock_inv_owner [OF assms(1)]) (simp add: assms(2) outside_def)
  with assms obtain h c where "lf_locked s = h @ [(t, c)]" "lf_returned s = seq_returned srt h fd0"
    "is_update c" "same_books (lf_feed s) (seq_call srt c (seq_feed srt h fd0))"
    "\<And>u. u \<noteq> t \<Longrightarrow> outside (lf_pc s u)"
    by (auto simp: lock_inv_def)
  then show ?thesis
    by (simp add: lock_inv_def outside_def seq_feed_snoc seq_returned_append update_returns_nothing)
qed

lemma lock_inv_return:
  assumes "lock_inv srt fd0 s" "lf_pc s t = F_Return bids asks"
  shows "lock_inv srt fd0 (s\<lparr>lf_mutex := None, lf_pc := (lf_pc s)(t := F_Outside),
    lf_returned := lf_returned s @ [(t, (bids, asks))]\<rparr>)"
proof -
  have m: "lf_mutex s = Some t" by (rule lock_inv_owner [OF assms(1)]) (simp add: assms(2) outside_def)
  with assms obtain h where "lf_locked s = h @ [(t, Snapshot)]" "lf_returned s = seq_returned srt h fd0"
    "same_books (lf_feed s) (seq_feed srt h fd0)" "(bids, asks) = snapshot (seq_feed srt h fd0)"
    "\<And>u. u \<noteq> t \<Longrightarrow> outside (lf_pc s u)"
    by (auto simp: lock_inv_def)
  then show ?thesis by (simp add: lock_inv_def outside_def seq_feed_snoc seq_returned_append)
qed

lemma lock_inv_step: "lock_inv srt fd0 s \<Longrightarrow> feed_step srt s s' \<Longrightarrow> lock_inv srt fd0 s'"
  by (erule feed_stepE)
    (simp_all add: lock_inv_lock lock_inv_set lock_inv_action lock_inv_unlock lock_inv_return)

text \<open>What the threads have called and have still to call is what they were given.\<close>

lemma order_inv_lock:
  assumes "order_inv progs s" "lf_todo s t = c # cs" "takes_lock c"
    and "lf_locked s' = lf_locked s @ [(t, c)]" "lf_todo s' = (lf_todo s)(t := cs)"
  shows "order_inv progs s'"
proof -
  have "map snd (filter (\<lambda>e. fst e = t) (lf_locked s)) @ filter takes_lock (c # cs)
      = filter takes_lock (progs t)"
    using assms(1,2) by (metis order_inv_def)
  then show ?thesis using assms by (simp add: order_inv_def)
qed

lemma order_inv_skip:
  assumes "order_inv progs s" "lf_todo s t = c # cs" "\<not> takes_lock c"
    and "lf_locked s' = lf_locked s" "lf_todo s' = (lf_todo s)(t := cs)"
  shows "order_inv progs s'"
proof -
  have "map snd (filter (\<lambda>e. fst e = t) (lf_locked s)) @ filter takes_lock (c # cs)
      = filter takes_lock (progs t)"
    using assms(1,2) by (metis order_inv_def)
  then show ?thesis using assms by (simp add: order_inv_def)
qed

lemma order_inv_step: "order_inv progs s \<Longrightarrow> feed_step srt s s' \<Longrightarrow> order_inv progs s'"
proof (erule feed_stepE)
  fix t c cs pc
  assume "order_inv progs s" "lf_todo s t = c # cs" "first_pc c = Some pc"
    and "s' = s\<lparr>lf_mutex := Some t, lf_pc := (lf_pc s)(t := pc), lf_todo := (lf_todo s)(t := cs),
      lf_locked := lf_locked s @ [(t, c)]\<rparr>"
  then show "order_inv progs s'" by - (rule order_inv_lock [of progs s t c cs], simp_all add: takes_lock_def)
next
  fix t cb r cs
  assume "order_inv progs s" "lf_todo s t = Set_Callback cb r # cs"
    and "s' = s\<lparr>lf_feed := setUpdateCallback cb (lf_feed s), lf_reenters := r, lf_todo := (lf_todo s)(t := cs)\<rparr>"
  then show "order_inv progs s'" by - (rule order_inv_skip [of progs s t "Set_Callback cb r" cs], simp_all add: takes_lock_def)
qed (simp_all add: order_inv_def)

interpretation fl: machine "feed_step srt" "\<lambda>s. \<exists>r. s = locked_start fd0 r progs"
  "\<lambda>s. lock_inv srt fd0 s \<and> order_inv progs s" for srt fd0 progs
proof unfold_locales
  fix s :: "'a locked_feed"
  assume "\<exists>r. s = locked_start fd0 r progs"
  then show "lock_inv srt fd0 s \<and> order_inv progs s"
    by (auto simp: locked_start_def lock_inv_def order_inv_def outside_def)
next
  fix s s' :: "'a locked_feed"
  assume "lock_inv srt fd0 s \<and> order_inv progs s" "feed_step srt s s'"
  then show "lock_inv srt fd0 s' \<and> order_inv progs s'"
    using lock_inv_step order_inv_step by blast
qed

end
