(* ===== verification/FeedRuns.thy ===== *)
theory FeedRuns
  imports FeedLock "HOL-Library.Sublist"
begin

text \<open>
  Runs of the depth book with threads (\<open>FeedLock\<close>): what a reader can see, that the calls of all
  threads come to an end when no callback calls the feed, that they do not when one does, and the
  race of \<open>setUpdateCallback\<close> with the call of the callback.
\<close>

section \<open>What a snapshot shows\<close>

lemma setUpdateCallback_ok: "feed_ok (setUpdateCallback cb fd) = feed_ok fd"
  by (simp add: setUpdateCallback_def feed_ok_def)

lemma seq_call_ok: "std_sort srt \<Longrightarrow> feed_ok fd \<Longrightarrow> feed_ok (seq_call srt c fd)"
  by (cases c) (simp_all add: upsert_ok remove_ok setUpdateCallback_ok)

lemma seq_feed_ok: "std_sort srt \<Longrightarrow> feed_ok fd \<Longrightarrow> feed_ok (seq_feed srt h fd)"
  by (induction h arbitrary: fd) (auto simp: seq_feed_def seq_call_ok)

lemma same_books_ok: "same_books fd fd' \<Longrightarrow> feed_ok fd = feed_ok fd'"
  by (auto simp: same_books_iff feed_ok_book)

definition snap_ok :: "nat \<Rightarrow> ('p::linorder) feed_order list \<times> 'p feed_order list \<Rightarrow> bool" where
  "snap_ok n books \<longleftrightarrow> side_ok True n (fst books) \<and> side_ok False n (snd books)"

lemma snapshot_ok: "feed_ok fd \<Longrightarrow> snap_ok (fd_maxLevels fd) (snapshot fd)"
  by (simp add: snap_ok_def snapshot_def feed_ok_def)

lemma seq_call_maxLevels: "std_sort srt \<Longrightarrow> fd_maxLevels (seq_call srt c fd) = fd_maxLevels fd"
  by (cases c) (simp_all add: upsert_book(3) remove_book(3) setUpdateCallback_def)

lemma seq_returned_ok:
  "std_sort srt \<Longrightarrow> feed_ok fd \<Longrightarrow> e \<in> set (seq_returned srt h fd) \<Longrightarrow> snap_ok (fd_maxLevels fd) (snd e)"
proof (induction h arbitrary: fd)
  case (Cons x h)
  obtain t c where x: "x = (t, c)" by fastforce
  have "snap_ok (fd_maxLevels fd) (snapshot fd)" by (rule snapshot_ok [OF Cons.prems(2)])
  moreover have "e \<in> set (seq_returned srt h (seq_call srt c fd)) \<Longrightarrow> snap_ok (fd_maxLevels fd) (snd e)"
    using Cons.IH [OF Cons.prems(1) seq_call_ok [OF Cons.prems(1,2), of c]]
    by (simp add: seq_call_maxLevels [OF Cons.prems(1)])
  ultimately show ?case using Cons.prems(3) by (cases c) (auto simp: x)
qed simp

text \<open>What was returned is what the calls that are through return.\<close>

lemma lock_inv_returned:
  assumes "lock_inv srt fd s"
  shows "\<exists>h. prefix h (lf_locked s) \<and> lf_returned s = seq_returned srt h fd"
proof (cases "lf_mutex s")
  case None
  with assms show ?thesis by (intro exI [of _ "lf_locked s"]) (simp add: lock_inv_def)
next
  case (Some t)
  with assms obtain h c where "lf_locked s = h @ [(t, c)]" "lf_returned s = seq_returned srt h fd"
    by (auto simp: lock_inv_def)
  then show ?thesis by (intro exI [of _ h]) simp
qed

section \<open>Every call comes to an end\<close>

text \<open>No callback calls the feed, neither the one that is registered nor one to come.\<close>

definition calm :: "'p locked_feed \<Rightarrow> bool" where
  "calm s \<longleftrightarrow> \<not> lf_reenters s \<and> (\<forall>t. lf_pc s t \<noteq> F_Waiting)
     \<and> (\<forall>t cb. Set_Callback cb True \<notin> set (lf_todo s t))"

definition few_threads :: "nat \<Rightarrow> 'p locked_feed \<Rightarrow> bool" where
  "few_threads n s \<longleftrightarrow> (\<forall>t \<ge> n. lf_pc s t = F_Outside \<and> lf_todo s t = [])"

fun pc_rank :: "'p feed_pc \<Rightarrow> nat" where
  "pc_rank (F_Put side ord) = 6"
| "pc_rank (F_Sort side) = 5"
| "pc_rank (F_Cut side) = 4"
| "pc_rank (F_Erase side orderId) = 4"
| "pc_rank F_Test = 3"
| "pc_rank F_Call = 2"
| "pc_rank F_Copy_Bids = 3"
| "pc_rank (F_Copy_Asks bids) = 2"
| "pc_rank (F_Return bids asks) = 1"
| "pc_rank F_Waiting = 1"
| "pc_rank F_Unlock = 1"
| "pc_rank F_Outside = 0"
| "pc_rank F_Thrown = 0"

definition work_left :: "nat \<Rightarrow> 'p locked_feed \<Rightarrow> nat" where
  "work_left n s = (\<Sum>t < n. 7 * length (lf_todo s t) + pc_rank (lf_pc s t))"

text \<open>All calls have returned or thrown.\<close>

definition all_returned :: "'p locked_feed \<Rightarrow> bool" where
  "all_returned s \<longleftrightarrow> (\<forall>t. lf_pc s t = F_Outside \<and> lf_todo s t = [] \<or> lf_pc s t = F_Thrown)"

lemma first_pc_rank: "first_pc c = Some pc \<Longrightarrow> pc_rank pc < 7"
  by (cases c) auto

lemma feed_action_rank: "feed_action srt r pc fd = Some (pc', fd') \<Longrightarrow> pc_rank pc' < pc_rank pc"
  by (cases pc) (auto split: if_splits)

lemma work_left_less:
  assumes "t < n" "7 * length (lf_todo s' t) + pc_rank (lf_pc s' t) < 7 * length (lf_todo s t) + pc_rank (lf_pc s t)"
    and "\<And>u. u \<noteq> t \<Longrightarrow> lf_todo s' u = lf_todo s u \<and> lf_pc s' u = lf_pc s u"
  shows "work_left n s' < work_left n s"
  unfolding work_left_def
proof (rule sum_strict_mono_ex1)
  show "\<forall>u \<in> {..<n}. 7 * length (lf_todo s' u) + pc_rank (lf_pc s' u) \<le> 7 * length (lf_todo s u) + pc_rank (lf_pc s u)"
    using assms(2,3) by (metis less_imp_le order_refl)
qed (use assms(1,2) in auto)

lemma few_threads_active:
  "few_threads n s \<Longrightarrow> lf_todo s t \<noteq> [] \<or> lf_pc s t \<noteq> F_Outside \<Longrightarrow> t < n"
  by (meson few_threads_def not_le)

lemma work_left_step: "few_threads n s \<Longrightarrow> feed_step srt s s' \<Longrightarrow> work_left n s' < work_left n s"
proof (erule feed_stepE)
  fix t c cs pc
  assume "few_threads n s" "lf_todo s t = c # cs" "lf_pc s t = F_Outside" "first_pc c = Some pc"
    and "s' = s\<lparr>lf_mutex := Some t, lf_pc := (lf_pc s)(t := pc), lf_todo := (lf_todo s)(t := cs),
      lf_locked := lf_locked s @ [(t, c)]\<rparr>"
  then show "work_left n s' < work_left n s"
    using first_pc_rank [of c pc] by (intro work_left_less [of t]) (auto intro: few_threads_active)
next
  fix t cb r cs
  assume "few_threads n s" "lf_todo s t = Set_Callback cb r # cs" "lf_pc s t = F_Outside"
    and "s' = s\<lparr>lf_feed := setUpdateCallback cb (lf_feed s), lf_reenters := r, lf_todo := (lf_todo s)(t := cs)\<rparr>"
  then show "work_left n s' < work_left n s" by (intro work_left_less [of t]) (auto intro: few_threads_active)
next
  fix t pc fd
  assume f: "few_threads n s" and a: "feed_action srt (lf_reenters s) (lf_pc s t) (lf_feed s) = Some (pc, fd)"
    and s': "s' = s\<lparr>lf_feed := fd, lf_pc := (lf_pc s)(t := pc), lf_mutex := (if pc = F_Thrown then None else lf_mutex s)\<rparr>"
  have "lf_pc s t \<noteq> F_Outside" using feed_action_inside [OF a] by (auto simp: outside_def)
  with f s' feed_action_rank [OF a] show "work_left n s' < work_left n s"
    by (intro work_left_less [of t]) (auto intro: few_threads_active)
next
  fix t
  assume "few_threads n s" "lf_pc s t = F_Unlock" "s' = s\<lparr>lf_mutex := None, lf_pc := (lf_pc s)(t := F_Outside)\<rparr>"
  then show "work_left n s' < work_left n s" by (intro work_left_less [of t]) (auto intro: few_threads_active)
next
  fix t bids asks
  assume "few_threads n s" "lf_pc s t = F_Return bids asks"
    "s' = s\<lparr>lf_mutex := None, lf_pc := (lf_pc s)(t := F_Outside), lf_returned := lf_returned s @ [(t, (bids, asks))]\<rparr>"
  then show "work_left n s' < work_left n s" by (intro work_left_less [of t]) (auto intro: few_threads_active)
qed

lemma few_threads_step: "few_threads n s \<Longrightarrow> feed_step srt s s' \<Longrightarrow> few_threads n s'"
  by (erule feed_stepE) (auto simp: few_threads_def)

lemma feed_action_calm: "feed_action srt False pc fd = Some (pc', fd') \<Longrightarrow> pc' \<noteq> F_Waiting"
  by (cases pc) (auto split: if_splits)

lemma first_pc_calm: "first_pc c = Some pc \<Longrightarrow> pc \<noteq> F_Waiting"
  by (cases c) auto

lemma calm_step: "calm s \<Longrightarrow> feed_step srt s s' \<Longrightarrow> calm s'"
proof (erule feed_stepE)
  fix t cb r cs
  assume "calm s" "lf_todo s t = Set_Callback cb r # cs"
    and s': "s' = s\<lparr>lf_feed := setUpdateCallback cb (lf_feed s), lf_reenters := r, lf_todo := (lf_todo s)(t := cs)\<rparr>"
  then have "\<not> r" "\<And>cb'. Set_Callback cb' True \<notin> set cs"
    unfolding calm_def by (metis (full_types) list.set_intros(1), metis list.set_intros(2))
  with \<open>calm s\<close> show "calm s'" by (simp add: calm_def s')
next
  fix t c cs pc
  assume "calm s" "lf_todo s t = c # cs" "first_pc c = Some pc"
    and s': "s' = s\<lparr>lf_mutex := Some t, lf_pc := (lf_pc s)(t := pc), lf_todo := (lf_todo s)(t := cs),
      lf_locked := lf_locked s @ [(t, c)]\<rparr>"
  moreover have "\<And>cb'. Set_Callback cb' True \<notin> set cs"
    using \<open>calm s\<close> \<open>lf_todo s t = c # cs\<close> unfolding calm_def by (metis list.set_intros(2))
  ultimately show "calm s'" using first_pc_calm by (simp add: calm_def s')
qed (auto simp: calm_def dest: feed_action_calm)

lemma action_or_rest:
  "(\<exists>res. feed_action srt r pc fd = Some res)
    \<or> pc \<in> {F_Outside, F_Waiting, F_Unlock, F_Thrown} \<or> (\<exists>bids asks. pc = F_Return bids asks)"
  by (cases pc) auto

text \<open>A thread that is inside and not waiting for its own lock can take a step.\<close>

lemma inside_steps:
  assumes "\<not> outside (lf_pc s t)" "lf_pc s t \<noteq> F_Waiting"
  shows "\<exists>s'. feed_step srt s s'"
proof -
  consider res where "feed_action srt (lf_reenters s) (lf_pc s t) (lf_feed s) = Some res"
    | "lf_pc s t = F_Unlock" | bids asks where "lf_pc s t = F_Return bids asks"
    using action_or_rest [of srt "lf_reenters s" "lf_pc s t" "lf_feed s"] assms by (auto simp: outside_def)
  then show ?thesis
  proof cases
    case 1
    then show ?thesis by (cases res) (blast intro: fs_action)
  qed (blast intro: fs_unlock fs_return)+
qed

lemma calm_progress:
  assumes "lock_inv srt fd0 s" "calm s" "\<not> all_returned s"
  shows "\<exists>s'. feed_step srt s s'"
proof -
  from assms(3) obtain t where t: "lf_pc s t \<noteq> F_Thrown" "lf_pc s t \<noteq> F_Outside \<or> lf_todo s t \<noteq> []"
    by (auto simp: all_returned_def)
  show ?thesis
  proof (cases "lf_mutex s")
    case None
    then have "outside (lf_pc s t)" using assms(1) by (simp add: lock_inv_def)
    with t have pc: "lf_pc s t = F_Outside" and "lf_todo s t \<noteq> []" by (auto simp: outside_def)
    then obtain c cs where todo: "lf_todo s t = c # cs" by (cases "lf_todo s t") auto
    show ?thesis
    proof (cases "first_pc c")
      case None
      then obtain cb r where "c = Set_Callback cb r" by (cases c) auto
      with pc todo show ?thesis by (blast intro: fs_set)
    next
      case (Some pc')
      with pc todo \<open>lf_mutex s = None\<close> show ?thesis by (blast intro: fs_lock)
    qed
  next
    case (Some u)
    then have "\<not> outside (lf_pc s u)" using assms(1) by (auto simp: lock_inv_def outside_def)
    moreover have "lf_pc s u \<noteq> F_Waiting" using assms(2) by (simp add: calm_def)
    ultimately show ?thesis by (rule inside_steps)
  qed
qed

interpretation calm_feed: ending_machine "feed_step srt"
  "\<lambda>s. s = locked_start fd0 False progs \<and> calm s \<and> few_threads n s"
  "\<lambda>s. (lock_inv srt fd0 s \<and> order_inv progs s) \<and> calm s \<and> few_threads n s"
  "work_left n" all_returned for srt fd0 progs n
proof unfold_locales
  fix s :: "'a locked_feed"
  assume "s = locked_start fd0 False progs \<and> calm s \<and> few_threads n s"
  then show "(lock_inv srt fd0 s \<and> order_inv progs s) \<and> calm s \<and> few_threads n s"
    using fl.inv_start by blast
next
  fix s s' :: "'a locked_feed"
  assume "(lock_inv srt fd0 s \<and> order_inv progs s) \<and> calm s \<and> few_threads n s" and "feed_step srt s s'"
  then show "(lock_inv srt fd0 s' \<and> order_inv progs s') \<and> calm s' \<and> few_threads n s'"
    and "work_left n s' < work_left n s"
    using fl.inv_step calm_step few_threads_step work_left_step by blast+
next
  fix s :: "'a locked_feed"
  assume "(lock_inv srt fd0 s \<and> order_inv progs s) \<and> calm s \<and> few_threads n s" "\<not> all_returned s"
  then show "\<exists>s'. feed_step srt s s'" using calm_progress by blast
qed

section \<open>A callback that calls the feed\<close>

text \<open>
  The thread waits for the mutex it holds. The invariant of runs with such a callback in place: no
  update gives the mutex back, so all the calls that did were snapshots.
\<close>

definition reentrant :: "'p locked_feed \<Rightarrow> bool" where
  "reentrant s \<longleftrightarrow> lf_reenters s \<and> fd_callback (lf_feed s)
     \<and> (\<forall>t cb r. Set_Callback cb r \<notin> set (lf_todo s t))
     \<and> (\<forall>t. lf_pc s t \<noteq> F_Unlock \<and> lf_pc s t \<noteq> F_Thrown)
     \<and> (\<forall>e \<in> set (case lf_mutex s of None \<Rightarrow> lf_locked s | Some t \<Rightarrow> butlast (lf_locked s)). \<not> is_update (snd e))"

lemma set_book_callback [simp]: "fd_callback (set_book side b fd) = fd_callback fd"
  by (simp add: set_book_def)

lemma reentrant_action:
  "feed_action srt True pc fd = Some (pc', fd') \<Longrightarrow> fd_callback fd
    \<Longrightarrow> fd_callback fd' \<and> pc' \<noteq> F_Unlock \<and> pc' \<noteq> F_Thrown"
  by (cases pc) auto

lemma first_pc_inside: "first_pc c = Some pc \<Longrightarrow> pc \<noteq> F_Unlock \<and> pc \<noteq> F_Thrown"
  by (cases c) auto

lemma reentrant_step:
  assumes "lock_inv srt fd0 s" "reentrant s" "feed_step srt s s'"
  shows "reentrant s'"
  using assms(3)
proof (rule feed_stepE)
  fix t c cs pc
  assume todo: "lf_todo s t = c # cs" and c: "first_pc c = Some pc" and m: "lf_mutex s = None"
    and s': "s' = s\<lparr>lf_mutex := Some t, lf_pc := (lf_pc s)(t := pc), lf_todo := (lf_todo s)(t := cs),
      lf_locked := lf_locked s @ [(t, c)]\<rparr>"
  have "Set_Callback cb r \<notin> set cs" for cb r
    using assms(2) todo unfolding reentrant_def by (metis list.set_intros(2))
  with m assms(2) first_pc_inside [OF c] show "reentrant s'" by (simp add: reentrant_def s')
next
  fix t cb r cs
  assume "lf_todo s t = Set_Callback cb r # cs"
  then show "reentrant s'" using assms(2) unfolding reentrant_def by (metis list.set_intros(1))
next
  fix t pc fd
  assume a: "feed_action srt (lf_reenters s) (lf_pc s t) (lf_feed s) = Some (pc, fd)"
    and s': "s' = s\<lparr>lf_feed := fd, lf_pc := (lf_pc s)(t := pc), lf_mutex := (if pc = F_Thrown then None else lf_mutex s)\<rparr>"
  have "lf_reenters s" "fd_callback (lf_feed s)" using assms(2) by (simp_all add: reentrant_def)
  with reentrant_action [of srt "lf_pc s t" "lf_feed s" pc fd] a
  have "fd_callback fd" "pc \<noteq> F_Unlock" "pc \<noteq> F_Thrown" by simp_all
  moreover have "lf_mutex s = Some t" by (rule lock_inv_owner [OF assms(1) feed_action_inside [OF a]])
  ultimately show "reentrant s'" using assms(2) by (simp add: reentrant_def s')
next
  fix t
  assume "lf_pc s t = F_Unlock"
  then show "reentrant s'" using assms(2) by (simp add: reentrant_def)
next
  fix t bids asks
  assume pc: "lf_pc s t = F_Return bids asks"
    and s': "s' = s\<lparr>lf_mutex := None, lf_pc := (lf_pc s)(t := F_Outside), lf_returned := lf_returned s @ [(t, (bids, asks))]\<rparr>"
  have m: "lf_mutex s = Some t" by (rule lock_inv_owner [OF assms(1)]) (simp add: pc outside_def)
  with assms(1) pc obtain h where "lf_locked s = h @ [(t, Snapshot)]" by (auto simp: lock_inv_def)
  with s' m assms(2) show "reentrant s'" by (simp add: reentrant_def)
qed

interpretation reentrant_feed: machine "feed_step srt"
  "\<lambda>s. s = locked_start fd0 True progs \<and> reentrant s"
  "\<lambda>s. lock_inv srt fd0 s \<and> reentrant s" for srt fd0 progs
proof unfold_locales
  fix s :: "'a locked_feed"
  assume "s = locked_start fd0 True progs \<and> reentrant s"
  then show "lock_inv srt fd0 s \<and> reentrant s" using fl.inv_start by blast
next
  fix s s' :: "'a locked_feed"
  assume "lock_inv srt fd0 s \<and> reentrant s" "feed_step srt s s'"
  then show "lock_inv srt fd0 s' \<and> reentrant s'" using lock_inv_step reentrant_step by blast
qed

lemma reentrant_updates:
  assumes "lock_inv srt fd0 s" "reentrant s" "\<exists>e \<in> set (lf_locked s). is_update (snd e)"
  shows "\<exists>t c h. lf_mutex s = Some t \<and> lf_locked s = h @ [(t, c)] \<and> is_update c
    \<and> (\<forall>e \<in> set h. \<not> is_update (snd e))"
proof -
  have "\<exists>t. lf_mutex s = Some t"
  proof (cases "lf_mutex s")
    case None
    with assms(2) have "\<forall>e \<in> set (lf_locked s). \<not> is_update (snd e)" by (simp add: reentrant_def)
    with assms(3) show ?thesis by blast
  qed blast
  then obtain t where m: "lf_mutex s = Some t" by blast
  with assms(1) obtain h c where h: "lf_locked s = h @ [(t, c)]" by (auto simp: lock_inv_def)
  with assms(2) m have "\<forall>e \<in> set h. \<not> is_update (snd e)" by (simp add: reentrant_def)
  with m h assms(3) show ?thesis by auto
qed

lemma locked_grows: "(feed_step srt)\<^sup>*\<^sup>* s s' \<Longrightarrow> prefix (lf_locked s) (lf_locked s')"
proof (induction rule: rtranclp_induct)
  case (step s1 s2)
  from step(2) have "prefix (lf_locked s1) (lf_locked s2)" by (rule feed_stepE) simp_all
  with step(3) show ?case by (rule prefix_order.order_trans)
qed simp

section \<open>Setting the callback while it is called\<close>

text \<open>
  The callback is found there, another thread removes it, and the call of the empty function
  throws: \<open>setUpdateCallback\<close> does not take the lock.
\<close>

lemma callback_race:
  assumes "lf_pc s t = F_Test" "fd_callback (lf_feed s)"
    and "u \<noteq> t" "lf_pc s u = F_Outside" "lf_todo s u = Set_Callback False r # cs"
  shows "\<exists>s'. (feed_step srt)\<^sup>*\<^sup>* s s' \<and> lf_pc s' t = F_Thrown \<and> \<not> fd_callback (lf_feed s')"
proof -
  obtain s1 where s1: "s1 = s\<lparr>lf_feed := lf_feed s, lf_pc := (lf_pc s)(t := F_Call),
      lf_mutex := (if F_Call = (F_Thrown :: 'a feed_pc) then None else lf_mutex s)\<rparr>" by blast
  obtain s2 where s2: "s2 = s1\<lparr>lf_feed := setUpdateCallback False (lf_feed s1), lf_reenters := r,
      lf_todo := (lf_todo s1)(u := cs)\<rparr>" by blast
  obtain s3 where s3: "s3 = s2\<lparr>lf_feed := lf_feed s2, lf_pc := (lf_pc s2)(t := F_Thrown),
      lf_mutex := (if F_Thrown = (F_Thrown :: 'a feed_pc) then None else lf_mutex s2)\<rparr>" by blast
  have "feed_step srt s s1" unfolding s1 by (rule fs_action) (simp add: assms(1,2))
  moreover have "feed_step srt s1 s2" unfolding s2 by (rule fs_set) (use assms(3-5) in \<open>simp_all add: s1\<close>)
  moreover have "feed_step srt s2 s3" unfolding s3
    by (rule fs_action) (simp add: s1 s2 setUpdateCallback_def)
  ultimately have "(feed_step srt)\<^sup>*\<^sup>* s s3"
    by (metis converse_rtranclp_into_rtranclp rtranclp.rtrancl_refl)
  moreover have "lf_pc s3 t = F_Thrown" "\<not> fd_callback (lf_feed s3)"
    by (simp_all add: s3 s2 setUpdateCallback_def)
  ultimately show ?thesis by blast
qed

end
