(* ===== verification/MarketData.thy ===== *)
theory MarketData
  imports OrderBookFeed
begin

text \<open>
  The two writers of the depth book: the generator of synthetic orders
  (\<^verbatim>\<open>libs/market-data/SyntheticDataInjector.h\<close>) and the pipeline that takes decoded orders
  (\<^verbatim>\<open>MarketDataPipeline.h\<close>).

  The floating-point expressions of the generator are arguments: \<open>bidAt mid i\<close> is
  \<open>midPrice - i * 0.01\<close>, \<open>askAt mid i\<close> is \<open>midPrice + i * 0.01\<close> and \<open>shift mid k\<close> is the middle
  price after the random step at the end of round \<open>k\<close>. \<open>draws k n\<close> is the \<open>n\<close>-th quantity drawn in round
  \<open>k\<close>. How often the loop runs before \<open>stop\<close> clears its flag is the argument \<open>rounds\<close>.

  The pool and the index the pipeline uses are classes that are not in the repository
  (\<open>allocate\<close> with three arguments, \<open>poolIndex\<close>, \<open>OrderIndex\<close>), so they are arguments too.
\<close>

section \<open>The generator\<close>

definition make_bid :: "('p \<Rightarrow> nat \<Rightarrow> 'p) \<Rightarrow> 'p \<Rightarrow> (nat \<Rightarrow> u32) \<Rightarrow> nat \<Rightarrow> 'p feed_order" where
  "make_bid bidAt mid draw i =
     \<lparr>fo_id = of_nat i + 1, fo_price = bidAt mid i, fo_quantity = draw i\<rparr>"

definition make_ask :: "('p \<Rightarrow> nat \<Rightarrow> 'p) \<Rightarrow> nat \<Rightarrow> 'p \<Rightarrow> (nat \<Rightarrow> u32) \<Rightarrow> nat \<Rightarrow> 'p feed_order" where
  "make_ask askAt levels mid draw i =
     \<lparr>fo_id = of_nat i + 1000, fo_price = askAt mid i, fo_quantity = draw (levels + i)\<rparr>"

text \<open>One round: the loop over the bids, then the loop over the asks.\<close>

definition inject_round ::
  "((('p::linorder) feed_order \<Rightarrow> 'p feed_order \<Rightarrow> bool) \<Rightarrow> 'p feed_order list \<Rightarrow> 'p feed_order list)
    \<Rightarrow> ('p \<Rightarrow> nat \<Rightarrow> 'p) \<Rightarrow> ('p \<Rightarrow> nat \<Rightarrow> 'p) \<Rightarrow> nat \<Rightarrow> (nat \<Rightarrow> u32) \<Rightarrow> 'p \<Rightarrow> 'p feed \<Rightarrow> 'p feed" where
  "inject_round srt bidAt askAt levels draw mid fd =
     (let fd1 = fold (\<lambda>i. upsert srt True (make_bid bidAt mid draw i)) [0..<levels] fd
      in fold (\<lambda>i. upsert srt False (make_ask askAt levels mid draw i)) [0..<levels] fd1)"

fun injectLoop ::
  "((('p::linorder) feed_order \<Rightarrow> 'p feed_order \<Rightarrow> bool) \<Rightarrow> 'p feed_order list \<Rightarrow> 'p feed_order list)
    \<Rightarrow> ('p \<Rightarrow> nat \<Rightarrow> 'p) \<Rightarrow> ('p \<Rightarrow> nat \<Rightarrow> 'p) \<Rightarrow> nat \<Rightarrow> (nat \<Rightarrow> nat \<Rightarrow> u32) \<Rightarrow> ('p \<Rightarrow> nat \<Rightarrow> 'p) \<Rightarrow> nat
    \<Rightarrow> nat \<Rightarrow> 'p \<Rightarrow> 'p feed \<Rightarrow> 'p \<times> 'p feed" where
  "injectLoop srt bidAt askAt levels draws shift 0 k mid fd = (mid, fd)"
| "injectLoop srt bidAt askAt levels draws shift (Suc rounds) k mid fd =
     injectLoop srt bidAt askAt levels draws shift rounds (Suc k) (shift mid k)
       (inject_round srt bidAt askAt levels (draws k) mid fd)"

definition bid_ids :: "nat \<Rightarrow> u64 set" where
  "bid_ids levels = (\<lambda>i. of_nat i + 1) ` {..<levels}"

definition ask_ids :: "nat \<Rightarrow> u64 set" where
  "ask_ids levels = (\<lambda>i. of_nat i + 1000) ` {..<levels}"

lemma of_nat_inj_on: "inj_on (\<lambda>i. of_nat i + c :: u64) {..<n}" if "n \<le> 2 ^ 64"
proof (rule inj_onI)
  fix i j assume "i \<in> {..<n}" "j \<in> {..<n}" "(of_nat i + c :: u64) = of_nat j + c"
  then have "unat (of_nat i :: u64) = unat (of_nat j :: u64)" "i < 2 ^ 64" "j < 2 ^ 64"
    using that by auto
  then show "i = j" by (simp add: unat_of_nat)
qed

lemma ids_card: "levels \<le> 2 ^ 64 \<Longrightarrow> card (bid_ids levels) = levels \<and> card (ask_ids levels) = levels"
  using of_nat_inj_on [of levels] by (simp add: bid_ids_def ask_ids_def card_image)

lemma round_batches:
  "inject_round srt bidAt askAt levels draw mid fd =
     fold (upsert srt False) (map (make_ask askAt levels mid draw) [0..<levels])
       (fold (upsert srt True) (map (make_bid bidAt mid draw) [0..<levels]) fd)"
  by (simp add: inject_round_def fold_map o_def)

lemma make_ids:
  "map fo_id (map (make_bid bidAt mid draw) [0..<levels]) = map (\<lambda>i. of_nat i + 1) [0..<levels]"
  "map fo_id (map (make_ask askAt levels mid draw) [0..<levels]) = map (\<lambda>i. of_nat i + 1000) [0..<levels]"
  by (simp_all add: make_bid_def make_ask_def)

lemma make_ids_set:
  "fo_id ` set (map (make_bid bidAt mid draw) [0..<levels]) = bid_ids levels"
  "fo_id ` set (map (make_ask askAt levels mid draw) [0..<levels]) = ask_ids levels"
  by (auto simp: make_bid_def make_ask_def bid_ids_def ask_ids_def image_image lessThan_atLeast0)

definition injected_ids :: "nat \<Rightarrow> 'p feed \<Rightarrow> bool" where
  "injected_ids levels fd \<longleftrightarrow> fo_id ` set (fd_bids fd) \<subseteq> bid_ids levels
     \<and> fo_id ` set (fd_asks fd) \<subseteq> ask_ids levels"

text \<open>Orders that use exactly the ids a side can have replace all its orders.\<close>

lemma batch_replaces:
  assumes "std_sort srt" "feed_ok fd" "distinct (map fo_id ords)"
    and "fo_id ` set (fd_book side fd) \<subseteq> fo_id ` set ords" "length ords \<le> fd_maxLevels fd"
  shows "feed_ok (fold (upsert srt side) ords fd)
    \<and> fd_maxLevels (fold (upsert srt side) ords fd) = fd_maxLevels fd
    \<and> fd_book (\<not> side) (fold (upsert srt side) ords fd) = fd_book (\<not> side) fd
    \<and> set (fd_book side (fold (upsert srt side) ords fd)) = set ords"
proof -
  have "card (fo_id ` set ords) \<le> fd_maxLevels fd"
    using assms(5) card_length [of "map fo_id ords"] by simp
  note b = upsert_batch [OF assms(1-3) order_refl assms(4) _ this]
  have "{x \<in> set (fd_book side fd). fo_id x \<notin> fo_id ` set ords} = {}" using assms(4) by auto
  with b show ?thesis by simp
qed

lemma make_distinct:
  assumes "levels \<le> 2 ^ 64"
  shows "distinct (map fo_id (map (make_bid bidAt mid draw) [0..<levels]))"
    "distinct (map fo_id (map (make_ask askAt levels mid draw) [0..<levels]))"
  unfolding make_ids using of_nat_inj_on [OF assms] by (auto simp: distinct_map inj_on_def)

text \<open>The first loop of a round replaces the bids and leaves the asks of the round before.\<close>

lemma bids_result:
  assumes s: "std_sort srt" and ok: "feed_ok fd" and ids: "injected_ids levels fd"
    and room: "levels \<le> fd_maxLevels fd" "levels \<le> 2 ^ 64"
    and fd1: "fd1 = fold (upsert srt True) (map (make_bid bidAt mid draw) [0..<levels]) fd"
  shows "feed_ok fd1" "fd_maxLevels fd1 = fd_maxLevels fd" "fd_asks fd1 = fd_asks fd"
    "set (fd_bids fd1) = make_bid bidAt mid draw ` {..<levels}" "injected_ids levels fd1"
proof -
  have "fo_id ` set (fd_book True fd) \<subseteq> fo_id ` set (map (make_bid bidAt mid draw) [0..<levels])"
    using ids unfolding make_ids_set by (simp add: injected_ids_def fd_book_def)
  note b = batch_replaces [OF s ok make_distinct(1) [OF room(2)] this]
  show res: "feed_ok fd1" "fd_maxLevels fd1 = fd_maxLevels fd" "fd_asks fd1 = fd_asks fd"
    "set (fd_bids fd1) = make_bid bidAt mid draw ` {..<levels}"
    using b room(1) by (simp_all add: fd1 fd_book_def lessThan_atLeast0)
  have "fo_id ` set (fd_bids fd1) = bid_ids levels"
    unfolding res(4) by (simp add: make_bid_def bid_ids_def image_image)
  with ids res(3) show "injected_ids levels fd1" by (simp add: injected_ids_def)
qed

text \<open>A round replaces all the generator's orders and keeps nothing of the round before.\<close>

lemma round_result:
  assumes s: "std_sort srt" and ok: "feed_ok fd" and ids: "injected_ids levels fd"
    and room: "levels \<le> fd_maxLevels fd" "levels \<le> 2 ^ 64"
  shows "feed_ok (inject_round srt bidAt askAt levels draw mid fd)
    \<and> fd_maxLevels (inject_round srt bidAt askAt levels draw mid fd) = fd_maxLevels fd
    \<and> injected_ids levels (inject_round srt bidAt askAt levels draw mid fd)
    \<and> set (fd_bids (inject_round srt bidAt askAt levels draw mid fd)) = make_bid bidAt mid draw ` {..<levels}
    \<and> set (fd_asks (inject_round srt bidAt askAt levels draw mid fd)) = make_ask askAt levels mid draw ` {..<levels}"
proof -
  let ?asks = "map (make_ask askAt levels mid draw) [0..<levels]"
  let ?fd1 = "fold (upsert srt True) (map (make_bid bidAt mid draw) [0..<levels]) fd"
  let ?fd2 = "fold (upsert srt False) ?asks ?fd1"
  note b = bids_result [OF assms refl, of bidAt mid draw]
  have "fo_id ` set (fd_book False ?fd1) \<subseteq> fo_id ` set ?asks"
    using b(5) unfolding make_ids_set by (simp add: injected_ids_def fd_book_def)
  note a = batch_replaces [OF s b(1) make_distinct(2) [OF room(2)] this]
  have fd2: "feed_ok ?fd2" "fd_maxLevels ?fd2 = fd_maxLevels fd" "fd_bids ?fd2 = fd_bids ?fd1"
    "set (fd_asks ?fd2) = make_ask askAt levels mid draw ` {..<levels}"
    using a room(1) b(2) by (simp_all add: fd_book_def lessThan_atLeast0)
  have "fo_id ` set (fd_asks ?fd2) = ask_ids levels"
    unfolding fd2(4) by (simp add: make_ask_def ask_ids_def image_image)
  then have "injected_ids levels ?fd2" using b(5) fd2(3) by (simp add: injected_ids_def)
  then show ?thesis unfolding round_batches using fd2 b(4) by simp
qed

lemma injectLoop_ok:
  assumes "std_sort srt" "feed_ok fd" "injected_ids levels fd" "levels \<le> fd_maxLevels fd" "levels \<le> 2 ^ 64"
    and "injectLoop srt bidAt askAt levels draws shift rounds k mid fd = (mid', fd')"
  shows "feed_ok fd' \<and> injected_ids levels fd' \<and> fd_maxLevels fd' = fd_maxLevels fd
    \<and> (0 < rounds \<longrightarrow> length (fd_bids fd') = levels \<and> length (fd_asks fd') = levels)"
  using assms
proof (induction rounds arbitrary: k mid fd)
  case (Suc rounds)
  let ?fd = "inject_round srt bidAt askAt levels (draws k) mid fd"
  note r = round_result [OF Suc.prems(1-5), of bidAt askAt "draws k" mid]
  have rest: "injectLoop srt bidAt askAt levels draws shift rounds (Suc k) (shift mid k) ?fd = (mid', fd')"
    using Suc.prems(6) by simp
  have "feed_ok fd' \<and> injected_ids levels fd' \<and> fd_maxLevels fd' = fd_maxLevels ?fd
    \<and> (0 < rounds \<longrightarrow> length (fd_bids fd') = levels \<and> length (fd_asks fd') = levels)"
    using Suc.IH [OF Suc.prems(1) _ _ _ Suc.prems(5) rest] r Suc.prems(4) by simp
  moreover have "length (fd_bids fd') = levels \<and> length (fd_asks fd') = levels" if "rounds = 0"
  proof -
    have fd': "fd' = ?fd" using rest that by simp
    have len: "length b = card (fo_id ` set b)" if "side_ok side n b" for side n and b :: "'a feed_order list"
      using that by (metis side_ok_def distinct_card length_map list.set_map)
    have "fo_id ` set (fd_bids ?fd) = bid_ids levels" "fo_id ` set (fd_asks ?fd) = ask_ids levels"
      using r make_ids_set [where levels = levels] by (simp_all add: lessThan_atLeast0)
    then show ?thesis
      using r len ids_card [OF Suc.prems(5)] unfolding fd' feed_ok_def by metis
  qed
  ultimately show ?case using r by (cases rounds) auto
qed simp

text \<open>The best price of a side.\<close>

definition best_price :: "bool \<Rightarrow> 'p feed \<Rightarrow> 'p option" where
  "best_price side fd = (case fd_book side fd of [] \<Rightarrow> None | x # _ \<Rightarrow> Some (fo_price x))"

lemma best_price_eq:
  assumes "side_ok side n (fd_book side fd)" "x \<in> set (fd_book side fd)"
    and "\<And>y. y \<in> set (fd_book side fd) \<Longrightarrow> \<not> better side y x"
  shows "best_price side fd = Some (fo_price x)"
proof (cases "fd_book side fd")
  case (Cons y ys)
  have "\<not> better side x y \<or> x = y"
    using assms(1,2) Cons by (auto simp: side_ok_def)
  moreover have "\<not> better side y x" using assms(3) Cons by simp
  ultimately have "fo_price y = fo_price x" by (cases side) (auto simp: better_def)
  with Cons show ?thesis by (simp add: best_price_def)
qed (use assms(2) in simp)

text \<open>The prices of the generator: the first of each side is the middle price.\<close>

definition quotes_ok :: "(('p::linorder) \<Rightarrow> nat \<Rightarrow> 'p) \<Rightarrow> ('p \<Rightarrow> nat \<Rightarrow> 'p) \<Rightarrow> bool" where
  "quotes_ok bidAt askAt \<longleftrightarrow> (\<forall>m. bidAt m 0 = m \<and> askAt m 0 = m \<and> (\<forall>i. bidAt m i \<le> m \<and> m \<le> askAt m i))"

lemma best_bid:
  assumes "feed_ok fd" "set (fd_bids fd) = make_bid bidAt mid draw ` {..<levels}" "0 < levels" "quotes_ok bidAt askAt"
  shows "best_price True fd = Some mid"
proof -
  let ?x = "make_bid bidAt mid draw 0"
  have "best_price True fd = Some (fo_price ?x)"
  proof (rule best_price_eq)
    show "side_ok True (fd_maxLevels fd) (fd_book True fd)" using assms(1) by (simp add: feed_ok_book)
    show "?x \<in> set (fd_book True fd)" using assms(2,3) by (simp add: fd_book_def)
    show "\<not> better True y ?x" if "y \<in> set (fd_book True fd)" for y
      using that assms(2,4) by (auto simp: fd_book_def better_def make_bid_def quotes_ok_def not_less)
  qed
  with assms(4) show ?thesis by (simp add: make_bid_def quotes_ok_def)
qed

lemma best_ask:
  assumes "feed_ok fd" "set (fd_asks fd) = make_ask askAt levels mid draw ` {..<levels}" "0 < levels" "quotes_ok bidAt askAt"
  shows "best_price False fd = Some mid"
proof -
  let ?x = "make_ask askAt levels mid draw 0"
  have "best_price False fd = Some (fo_price ?x)"
  proof (rule best_price_eq)
    show "side_ok False (fd_maxLevels fd) (fd_book False fd)" using assms(1) by (simp add: feed_ok_book)
    show "?x \<in> set (fd_book False fd)" using assms(2,3) by (simp add: fd_book_def)
    show "\<not> better False y ?x" if "y \<in> set (fd_book False fd)" for y
      using that assms(2,4) by (auto simp: fd_book_def better_def make_ask_def quotes_ok_def not_less)
  qed
  with assms(4) show ?thesis by (simp add: make_ask_def quotes_ok_def)
qed

text \<open>
  At the end of a round the two sides meet at the middle price; when the price then rises, the
  next round's bids stand above the asks until these are replaced too.
\<close>

lemma round_locked:
  assumes "std_sort srt" "feed_ok fd" "injected_ids levels fd" "levels \<le> fd_maxLevels fd" "levels \<le> 2 ^ 64"
    and "0 < levels" "quotes_ok bidAt askAt"
    and fd1: "fd1 = inject_round srt bidAt askAt levels draw mid fd"
    and fd2: "fd2 = fold (upsert srt True) (map (make_bid bidAt mid' draw') [0..<levels]) fd1"
  shows "best_price True fd1 = Some mid" "best_price False fd1 = Some mid"
    "best_price True fd2 = Some mid'" "best_price False fd2 = Some mid"
proof -
  have r: "feed_ok fd1" "fd_maxLevels fd1 = fd_maxLevels fd" "injected_ids levels fd1"
    "set (fd_bids fd1) = make_bid bidAt mid draw ` {..<levels}" "set (fd_asks fd1) = make_ask askAt levels mid draw ` {..<levels}"
    using round_result [OF assms(1-5)] by (simp_all add: fd1)
  have b: "feed_ok fd2" "fd_asks fd2 = fd_asks fd1" "set (fd_bids fd2) = make_bid bidAt mid' draw' ` {..<levels}"
    using bids_result [OF assms(1) r(1,3) _ assms(5) fd2] r(2) assms(4) by simp_all
  show "best_price True fd1 = Some mid" by (rule best_bid [OF r(1,4) assms(6,7)])
  show "best_price False fd1 = Some mid" by (rule best_ask [OF r(1,5) assms(6,7)])
  show "best_price True fd2 = Some mid'" by (rule best_bid [OF b(1,3) assms(6,7)])
  show "best_price False fd2 = Some mid"
    by (rule best_ask [OF b(1) _ assms(6,7)]) (simp add: b(2) r(5))
qed

lemma injectLoop_last:
  "injectLoop srt bidAt askAt levels draws shift (Suc rounds) k mid fd =
    (let (m, fd1) = injectLoop srt bidAt askAt levels draws shift rounds k mid fd
     in (shift m (k + rounds), inject_round srt bidAt askAt levels (draws (k + rounds)) m fd1))"
  by (induction rounds arbitrary: k mid fd) (simp_all add: case_prod_beta Let_def)

text \<open>The two ranges of ids are disjoint below 1000 levels only.\<close>

lemma id_ranges:
  assumes "levels \<le> 2 ^ 63"
  shows "bid_ids levels \<inter> ask_ids levels = {} \<longleftrightarrow> levels < 1000"
proof -
  have u: "unat (of_nat i + 1 :: u64) = i + 1" "unat (of_nat i + 1000 :: u64) = i + 1000" if "i < levels" for i
    using that assms by (simp_all add: unat_word_ariths unat_of_nat)
  show ?thesis
  proof
    assume disj: "bid_ids levels \<inter> ask_ids levels = {}"
    show "levels < 1000"
    proof (rule ccontr)
      assume "\<not> levels < 1000"
      then have "(1000 :: u64) \<in> bid_ids levels" "(1000 :: u64) \<in> ask_ids levels"
        unfolding bid_ids_def ask_ids_def
        by (auto intro: rev_image_eqI [of 999] rev_image_eqI [of 0])
      with disj show False by blast
    qed
  next
    assume "levels < 1000"
    then show "bid_ids levels \<inter> ask_ids levels = {}"
    proof (intro equals0I)
      fix x assume "x \<in> bid_ids levels \<inter> ask_ids levels"
      then obtain i j where "i < levels" "x = of_nat i + 1" "j < levels" "x = of_nat j + 1000"
        unfolding bid_ids_def ask_ids_def by blast
      then have "i + 1 = j + 1000" using u(1) [of i] u(2) [of j] by metis
      with \<open>i < levels\<close> \<open>levels < 1000\<close> show False by simp
    qed
  qed
qed

text \<open>
  \<open>start\<close> and \<open>stop\<close>. Starting a generator that was started and not stopped assigns a new thread to
  a joinable one, which ends the program (\<open>None\<close>). The loop sees the cleared flag after its sleep,
  so \<open>stop\<close> returns.
\<close>

record injector =
  in_running :: bool
  in_joinable :: bool

definition injector_new :: injector where
  "injector_new = \<lparr>in_running = False, in_joinable = False\<rparr>"

definition injector_start :: "injector \<Rightarrow> injector option" where
  "injector_start s =
     (let s1 = s\<lparr>in_running := True\<rparr>
      in if in_joinable s1 then None else Some (s1\<lparr>in_joinable := True\<rparr>))"

definition injector_stop :: "injector \<Rightarrow> injector" where
  "injector_stop s =
     (let s1 = s\<lparr>in_running := False\<rparr>
      in if in_joinable s1 then s1\<lparr>in_joinable := False\<rparr> else s1)"

lemma injector_restart:
  "injector_start s = Some s1 \<Longrightarrow> injector_start s1 = None
    \<and> (\<exists>s2. injector_start (injector_stop s1) = Some s2)"
  by (auto simp: injector_start_def injector_stop_def Let_def split: if_splits)

section \<open>The pipeline\<close>

text \<open>
  \<open>processOrder\<close> allocates, indexes, updates the book and calls the callback. The pointer that
  \<open>allocate\<close> returns is used unchecked, so a null pointer (\<open>None\<close>) is undefined.
\<close>

record ('p, 'pool, 'index) md_pipeline =
  md_pool :: 'pool
  md_index :: 'index
  md_feed :: "'p feed"
  md_callback :: bool
  md_calls :: "'p feed_order list"

definition processOrder ::
  "((('p::linorder) feed_order \<Rightarrow> 'p feed_order \<Rightarrow> bool) \<Rightarrow> 'p feed_order list \<Rightarrow> 'p feed_order list)
    \<Rightarrow> (u64 \<Rightarrow> 'p \<Rightarrow> u32 \<Rightarrow> 'pool \<Rightarrow> ('p feed_order \<times> 'i) option \<times> 'pool)
    \<Rightarrow> (u64 \<Rightarrow> 'i \<Rightarrow> 'index \<Rightarrow> 'index)
    \<Rightarrow> u64 \<Rightarrow> 'p \<Rightarrow> u32 \<Rightarrow> bool \<Rightarrow> ('p, 'pool, 'index) md_pipeline
    \<Rightarrow> ('p, 'pool, 'index) md_pipeline option" where
  "processOrder srt alloc insert_index order_id price quantity side md =
     (case alloc order_id price quantity (md_pool md) of
        (None, pool) \<Rightarrow> None
      | (Some (ord, poolIndex), pool) \<Rightarrow>
          Some (md\<lparr>md_pool := pool,
                   md_index := insert_index order_id poolIndex (md_index md),
                   md_feed := upsert srt side ord (md_feed md),
                   md_calls := (if md_callback md then md_calls md @ [ord] else md_calls md)\<rparr>))"

definition setOrderCallback :: "bool \<Rightarrow> ('p, 'pool, 'index) md_pipeline \<Rightarrow> ('p, 'pool, 'index) md_pipeline" where
  "setOrderCallback cb md = md\<lparr>md_callback := cb\<rparr>"

lemma processOrder_result:
  assumes "alloc order_id price quantity (md_pool md) = (Some (ord, i), pool)"
    and "std_sort srt" "feed_ok (md_feed md)" "md_callback md"
  shows "\<exists>md'. processOrder srt alloc insert_index order_id price quantity side md = Some md'
    \<and> feed_ok (md_feed md') \<and> md_calls md' = md_calls md @ [ord]
    \<and> md_index md' = insert_index order_id i (md_index md)"
  using assms upsert_ok [OF assms(2,3)] by (simp add: processOrder_def)

end
