(* ===== verification/MarketThreads.thy ===== *)
theory MarketThreads
  imports FeedRuns MarketData
begin

text \<open>
  The generator of synthetic orders as one thread of the depth book, with other threads that read
  it: \<^verbatim>\<open>SyntheticDataInjector.h\<close> over the feed with its mutex (\<open>FeedLock\<close>). The calls the generator
  makes are written out as a list, whose sequential run is \<open>injectLoop\<close>.
\<close>

definition round_calls ::
  "(('p::linorder) \<Rightarrow> nat \<Rightarrow> 'p) \<Rightarrow> ('p \<Rightarrow> nat \<Rightarrow> 'p) \<Rightarrow> nat \<Rightarrow> (nat \<Rightarrow> u32) \<Rightarrow> 'p \<Rightarrow> 'p feed_call list" where
  "round_calls bidAt askAt levels draw mid =
     map (\<lambda>i. Upsert True (make_bid bidAt mid draw i)) [0..<levels]
     @ map (\<lambda>i. Upsert False (make_ask askAt levels mid draw i)) [0..<levels]"

fun injector_calls ::
  "(('p::linorder) \<Rightarrow> nat \<Rightarrow> 'p) \<Rightarrow> ('p \<Rightarrow> nat \<Rightarrow> 'p) \<Rightarrow> nat \<Rightarrow> (nat \<Rightarrow> nat \<Rightarrow> u32) \<Rightarrow> ('p \<Rightarrow> nat \<Rightarrow> 'p) \<Rightarrow> nat
    \<Rightarrow> nat \<Rightarrow> 'p \<Rightarrow> 'p feed_call list" where
  "injector_calls bidAt askAt levels draws shift 0 k mid = []"
| "injector_calls bidAt askAt levels draws shift (Suc rounds) k mid =
     round_calls bidAt askAt levels (draws k) mid
     @ injector_calls bidAt askAt levels draws shift rounds (Suc k) (shift mid k)"

lemma seq_call_upsert: "seq_call srt (Upsert side ord) = upsert srt side ord"
  by (rule ext) simp

lemma round_calls_run:
  "fold (seq_call srt) (round_calls bidAt askAt levels draw mid) fd
    = inject_round srt bidAt askAt levels draw mid fd"
  by (simp add: round_calls_def inject_round_def fold_map o_def seq_call_upsert)

text \<open>Run one after the other, the calls are the loop.\<close>

lemma injector_calls_run:
  "fold (seq_call srt) (injector_calls bidAt askAt levels draws shift rounds k mid) fd
    = snd (injectLoop srt bidAt askAt levels draws shift rounds k mid fd)"
  by (induction rounds arbitrary: k mid fd) (simp_all add: round_calls_run)

text \<open>Each call inserts an order of its side's range of ids.\<close>

definition injects :: "nat \<Rightarrow> 'p feed_call \<Rightarrow> bool" where
  "injects levels c \<longleftrightarrow> (\<exists>side ord. c = Upsert side ord
     \<and> fo_id ord \<in> (if side then bid_ids levels else ask_ids levels))"

lemma round_calls_inject: "c \<in> set (round_calls bidAt askAt levels draw mid) \<Longrightarrow> injects levels c"
proof -
  assume "c \<in> set (round_calls bidAt askAt levels draw mid)"
  then consider i where "i < levels" "c = Upsert True (make_bid bidAt mid draw i)"
    | i where "i < levels" "c = Upsert False (make_ask askAt levels mid draw i)"
    by (auto simp: round_calls_def)
  then show ?thesis
    by cases (simp_all add: injects_def make_bid_def make_ask_def bid_ids_def ask_ids_def ex_bool_eq)
qed

lemma injector_calls_inject:
  "c \<in> set (injector_calls bidAt askAt levels draws shift rounds k mid) \<Longrightarrow> injects levels c"
proof (induction rounds arbitrary: k mid)
  case (Suc rounds)
  then show ?case using round_calls_inject by (metis Un_iff injector_calls.simps(2) set_append)
qed simp

lemma injects_locks: "injects levels c \<Longrightarrow> takes_lock c"
  by (auto simp: injects_def takes_lock_def)

lemma injects_not_set: "\<not> injects levels (Set_Callback cb reenters)"
  by (simp add: injects_def)

definition generated :: "nat \<Rightarrow> ('p::linorder) feed \<Rightarrow> bool" where
  "generated levels fd \<longleftrightarrow> feed_ok fd \<and> injected_ids levels fd"

definition side_ids :: "nat \<Rightarrow> bool \<Rightarrow> u64 set" where
  "side_ids levels side = (if side then bid_ids levels else ask_ids levels)"

lemma injected_ids_side:
  "injected_ids levels fd \<longleftrightarrow> (\<forall>side. fo_id ` set (fd_book side fd) \<subseteq> side_ids levels side)"
  by (simp add: injected_ids_def fd_book_def side_ids_def all_bool_eq)

lemma generated_upsert:
  assumes "std_sort srt" "generated levels fd" "injects levels c"
  shows "generated levels (seq_call srt c fd)"
proof -
  from assms(3) obtain side ord where c: "c = Upsert side ord"
    and ids: "fo_id ord \<in> (if side then bid_ids levels else ask_ids levels)" by (auto simp: injects_def)
  have ok: "feed_ok fd" using assms(2) by (simp add: generated_def)
  have new: "fo_id ` set (fd_book side (upsert srt side ord fd)) \<subseteq> insert (fo_id ord) (fo_id ` set (fd_book side fd))"
    using upsert_kept(1) [OF assms(1) ok, of side ord] by auto
  have "fo_id ` set (fd_book d (upsert srt side ord fd)) \<subseteq> side_ids levels d" for d
  proof (cases "d = side")
    case True
    have "fo_id ` set (fd_book side fd) \<subseteq> side_ids levels side"
      using assms(2) by (simp add: generated_def injected_ids_side)
    moreover have "fo_id ord \<in> side_ids levels side" using ids by (simp add: side_ids_def)
    ultimately have "insert (fo_id ord) (fo_id ` set (fd_book side fd)) \<subseteq> side_ids levels side" by simp
    then show ?thesis unfolding True by (rule subset_trans [OF new])
  next
    case False
    then have "fd_book d (upsert srt side ord fd) = fd_book d fd"
      using upsert_book(2) [OF assms(1), of side ord fd] by (cases d; cases side) simp_all
    with assms(2) show ?thesis by (simp add: generated_def injected_ids_side)
  qed
  then have "injected_ids levels (upsert srt side ord fd)" by (simp add: injected_ids_side)
  with upsert_ok [OF assms(1) ok] show ?thesis by (simp add: c generated_def)
qed

lemma generated_fold:
  "std_sort srt \<Longrightarrow> generated levels fd \<Longrightarrow> (\<And>c. c \<in> set cs \<Longrightarrow> injects levels c)
    \<Longrightarrow> generated levels (fold (seq_call srt) cs fd)"
proof (induction cs arbitrary: fd)
  case (Cons c cs)
  then show ?case using generated_upsert [OF Cons.prems(1,2), of c] by simp
qed simp

lemma generated_few:
  assumes "generated levels fd" "levels \<le> 2 ^ 64"
  shows "length (fd_bids fd) \<le> levels \<and> length (fd_asks fd) \<le> levels"
proof -
  have len: "length b = card (fo_id ` set b)" if "side_ok side n b" for side n and b :: "'a feed_order list"
    using that by (metis side_ok_def distinct_card length_map list.set_map)
  have fin: "finite (bid_ids levels)" "finite (ask_ids levels)" by (simp_all add: bid_ids_def ask_ids_def)
  have "card (fo_id ` set (fd_bids fd)) \<le> levels" "card (fo_id ` set (fd_asks fd)) \<le> levels"
    using assms(1) ids_card [OF assms(2)] card_mono [OF fin(1)] card_mono [OF fin(2)]
    by (auto simp: generated_def injected_ids_def)
  with len assms(1) show ?thesis by (metis generated_def feed_ok_def)
qed

section \<open>What readers see\<close>

text \<open>A snapshot of a sequential run is the state after some of its calls.\<close>

lemma seq_returned_prefix:
  "e \<in> set (seq_returned srt h fd) \<Longrightarrow> \<exists>h1. prefix h1 h \<and> snd e = snapshot (seq_feed srt h1 fd)"
proof (induction h arbitrary: fd)
  case (Cons x h)
  obtain t c where x: "x = (t, c)" by fastforce
  show ?case
  proof (cases "e \<in> set (seq_returned srt h (seq_call srt c fd))")
    case True
    from Cons.IH [OF this] obtain h1 where
      "prefix h1 h" "snd e = snapshot (seq_feed srt h1 (seq_call srt c fd))" by blast
    then show ?thesis by (intro exI [of _ "x # h1"]) (simp add: x seq_feed_def)
  next
    case False
    with Cons.prems have "snd e = snapshot fd" by (cases c) (auto simp: x)
    then show ?thesis by (intro exI [of _ "[]"]) simp
  qed
qed simp

text \<open>Where all others only read, the feed is what the one writer's calls make of it.\<close>

lemma seq_feed_writer:
  "(\<And>e. e \<in> set h \<Longrightarrow> fst e \<noteq> w \<Longrightarrow> snd e = Snapshot)
    \<Longrightarrow> seq_feed srt h fd = fold (seq_call srt) (map snd (filter (\<lambda>e. fst e = w) h)) fd"
proof (induction h arbitrary: fd)
  case (Cons x h)
  obtain t c where x: "x = (t, c)" by fastforce
  have "\<And>e. e \<in> set h \<Longrightarrow> fst e \<noteq> w \<Longrightarrow> snd e = Snapshot" using Cons.prems by auto
  from Cons.IH [OF this] Cons.prems [of x] show ?case by (auto simp: x seq_feed_def)
qed simp

lemma order_inv_locked:
  assumes "order_inv progs s" "e \<in> set (lf_locked s)"
  shows "snd e \<in> set (progs (fst e))"
proof -
  have "snd e \<in> set (map snd (filter (\<lambda>x. fst x = fst e) (lf_locked s)))" using assms(2) by auto
  moreover have "map snd (filter (\<lambda>x. fst x = fst e) (lf_locked s)) @ filter takes_lock (lf_todo s (fst e))
      = filter takes_lock (progs (fst e))"
    using assms(1) by (simp add: order_inv_def)
  ultimately have "snd e \<in> set (filter takes_lock (progs (fst e)))" by (metis Un_iff set_append)
  then show ?thesis by simp
qed

lemma readers_see_prefixes:
  assumes "order_inv progs s" "\<And>t c. t \<noteq> w \<Longrightarrow> c \<in> set (progs t) \<Longrightarrow> c = Snapshot"
    and "filter takes_lock (progs w) = progs w" "prefix h (lf_locked s)" "e \<in> set (seq_returned srt h fd)"
  shows "\<exists>p. prefix p (progs w) \<and> snd e = snapshot (fold (seq_call srt) p fd)"
proof -
  obtain h1 where h1: "prefix h1 h" "snd e = snapshot (seq_feed srt h1 fd)"
    using seq_returned_prefix [OF assms(5)] by blast
  then have pre: "prefix h1 (lf_locked s)" using assms(4) by (meson prefix_order.order_trans)
  have "snd x = Snapshot" if "x \<in> set h1" "fst x \<noteq> w" for x
    using assms(2) [OF that(2)] order_inv_locked [OF assms(1)] that(1) set_mono_prefix [OF pre] by blast
  then have feed: "seq_feed srt h1 fd = fold (seq_call srt) (map snd (filter (\<lambda>x. fst x = w) h1)) fd"
    by (rule seq_feed_writer)
  obtain rest where rest: "lf_locked s = h1 @ rest" using pre by (auto simp: prefix_def)
  have "map snd (filter (\<lambda>x. fst x = w) (lf_locked s)) @ filter takes_lock (lf_todo s w) = progs w"
    using assms(1,3) by (simp add: order_inv_def)
  then have "progs w = map snd (filter (\<lambda>x. fst x = w) h1)
      @ map snd (filter (\<lambda>x. fst x = w) rest) @ filter takes_lock (lf_todo s w)"
    by (simp add: rest)
  then have "prefix (map snd (filter (\<lambda>x. fst x = w) h1)) (progs w)" unfolding prefix_def by blast
  with feed h1(2) show ?thesis by auto
qed

end
