(* ===== verification/FeedInsert.thy ===== *)
theory FeedInsert
  imports OrderBookFeed
begin

text \<open>
  \<open>upsert\<close> appends and sorts the whole book on every update (\<^verbatim>\<open>OrderBookFeed.h\<close>: "optimize if
  needed"). The reference here takes the order's old entry out and puts the new one in its place
  in the sorted book. Both give the same prices in the same order, whatever \<open>std::sort\<close> does, and
  the same book when no two orders of the side have one price.
\<close>

fun place :: "bool \<Rightarrow> ('p::linorder) feed_order \<Rightarrow> 'p feed_order list \<Rightarrow> 'p feed_order list" where
  "place side ord [] = [ord]"
| "place side ord (x # xs) = (if better side ord x then ord # x # xs else x # place side ord xs)"

definition ref_upsert :: "bool \<Rightarrow> ('p::linorder) feed_order \<Rightarrow> 'p feed \<Rightarrow> 'p feed" where
  "ref_upsert side ord fd =
     notify (set_book side (take (fd_maxLevels fd)
       (place side ord (filter (\<lambda>x. fo_id x \<noteq> fo_id ord) (fd_book side fd)))) fd)"

lemma set_place [simp]: "set (place side ord xs) = insert ord (set xs)"
  by (induction xs) auto

lemma better_trans: "better side a b \<Longrightarrow> better side b c \<Longrightarrow> better side a c"
  by (cases side) (auto simp: better_def)

lemma better_irrefl: "\<not> better side a a"
  by (simp add: better_def)

lemma better_total: "fo_price a \<noteq> fo_price b \<Longrightarrow> \<not> better side a b \<Longrightarrow> better side b a"
  by (cases side) (auto simp: better_def)

lemma place_sorted:
  "sorted_wrt (better side) xs \<Longrightarrow> fo_price ord \<notin> fo_price ` set xs
    \<Longrightarrow> sorted_wrt (better side) (place side ord xs)"
proof (induction xs)
  case (Cons x xs)
  show ?case
  proof (cases "better side ord x")
    case True
    with Cons.prems show ?thesis by (auto intro: better_trans)
  next
    case False
    moreover have "fo_price ord \<noteq> fo_price x" using Cons.prems(2) by simp
    ultimately have "better side x ord" by (metis better_total)
    with False Cons show ?thesis by simp
  qed
qed simp

text \<open>A strictly sorted list is determined by its elements.\<close>

lemma strictly_sorted_unique:
  "sorted_wrt (better side) xs \<Longrightarrow> sorted_wrt (better side) ys \<Longrightarrow> set xs = set ys \<Longrightarrow> xs = ys"
proof (induction xs arbitrary: ys)
  case (Cons x xs)
  have irr: "\<not> (better side a b \<and> better side b a)" for a b :: "'a feed_order"
    by (cases side) (auto simp: better_def)
  obtain y ys' where ys: "ys = y # ys'" using Cons.prems(3) by (cases ys) auto
  have "x = y"
  proof (rule ccontr)
    assume "x \<noteq> y"
    then have "x \<in> set ys'" "y \<in> set xs" using Cons.prems(3) ys by auto
    then have "better side y x" "better side x y" using Cons.prems(1,2) ys by simp_all
    with irr show False by blast
  qed
  moreover have "x \<notin> set xs" "y \<notin> set ys'" using Cons.prems(1,2) ys irr by auto
  ultimately have "set xs = set ys'" using Cons.prems(3) ys by auto
  with Cons.IH [of ys'] Cons.prems ys \<open>x = y\<close> show ?case by simp
qed simp

lemma weakly_sorted_strict:
  "sorted_wrt (\<lambda>a b. \<not> better side b a) xs \<Longrightarrow> distinct (map fo_price xs) \<Longrightarrow> sorted_wrt (better side) xs"
proof (induction xs)
  case (Cons x xs)
  then have "better side x y" if "y \<in> set xs" for y
  proof -
    have "\<not> better side y x" "fo_price y \<noteq> fo_price x" using Cons.prems that by (auto simp: rev_image_eqI)
    then show ?thesis by (metis better_total)
  qed
  with Cons show ?case by simp
qed simp

lemma upsert_is_ref:
  assumes s: "std_sort srt" and ok: "feed_ok fd"
    and prices: "inj_on fo_price (insert ord {x \<in> set (fd_book side fd). fo_id x \<noteq> fo_id ord})"
  shows "upsert srt side ord fd = ref_upsert side ord fd"
proof -
  let ?b = "fd_book side fd" and ?old = "filter (\<lambda>x. fo_id x \<noteq> fo_id ord) (fd_book side fd)"
  have b: "sorted_wrt (\<lambda>x y. \<not> better side y x) ?b" "distinct (map fo_id ?b)"
    using ok by (simp_all add: feed_ok_book side_ok_def)
  let ?new = "srt (better side) (put_order ord ?b)"
  have set_new: "set ?new = insert ord (set ?old)"
    using std_sort_better(3) [OF s] put_order_set [OF b(2)] by simp
  have "distinct (map fo_id ?new)" using std_sort_better(5) [OF s] put_order_distinct [OF b(2)] by blast
  then have "distinct ?new" by (simp add: distinct_map)
  then have "distinct (map fo_price ?new)"
    using prices set_new by (simp add: distinct_map)
  then have new: "sorted_wrt (better side) ?new"
    using std_sort_better(2) [OF s] weakly_sorted_strict by blast
  have "distinct ?old" using b(2) by (simp add: distinct_map)
  then have "distinct (map fo_price ?old)"
    using prices by (auto simp: distinct_map intro: inj_on_subset)
  then have old: "sorted_wrt (better side) ?old"
    using b(1) by (intro weakly_sorted_strict sorted_wrt_filter)
  have "fo_price ord \<notin> fo_price ` set ?old"
  proof
    assume "fo_price ord \<in> fo_price ` set ?old"
    then obtain x where "x \<in> set ?old" "fo_price x = fo_price ord" by auto
    with inj_onD [OF prices, of x ord] show False by auto
  qed
  from place_sorted [OF old this] have "place side ord ?old = ?new"
    using strictly_sorted_unique [OF _ new] set_new by simp
  moreover have "upsert srt side ord fd = notify (set_book side (take (fd_maxLevels fd) ?new) fd)"
    by (auto simp: upsert_def put_order_def Let_def)
  ultimately show ?thesis by (simp add: ref_upsert_def)
qed

section \<open>Orders with equal prices\<close>

text \<open>Of orders with one price \<open>std::sort\<close> may put any first, but the prices are determined.\<close>

lemma place_weakly_sorted:
  "sorted_wrt (\<lambda>a b. \<not> better side b a) xs \<Longrightarrow> sorted_wrt (\<lambda>a b. \<not> better side b a) (place side ord xs)"
proof (induction xs)
  case (Cons x xs)
  then show ?case using better_trans [of side] better_irrefl [of side] by auto
qed (simp add: better_irrefl)

lemma weakly_sorted_prices:
  assumes "sorted_wrt (\<lambda>a b. \<not> better side b a) xs" "sorted_wrt (\<lambda>a b. \<not> better side b a) ys"
    and "mset (map fo_price xs) = mset (map fo_price ys)"
  shows "map fo_price xs = map fo_price ys"
proof (cases side)
  case True
  then have "sorted (rev (map fo_price xs))" "sorted (rev (map fo_price ys))"
    using assms(1,2) by (simp_all add: better_def sorted_wrt_map sorted_wrt_rev rev_map not_less)
  moreover have "mset (rev (map fo_price xs)) = mset (rev (map fo_price ys))" using assms(3) by simp
  ultimately have "rev (map fo_price xs) = rev (map fo_price ys)" by (metis properties_for_sort sorted_sort_id)
  then show ?thesis by simp
next
  case False
  then have "sorted (map fo_price xs)" "sorted (map fo_price ys)"
    using assms(1,2) by (simp_all add: better_def sorted_wrt_map not_less)
  with assms(3) show ?thesis by (metis properties_for_sort sorted_sort_id)
qed

lemma mset_place [simp]: "mset (place side ord xs) = add_mset ord (mset xs)"
  by (induction xs) auto

lemma upsert_prices_ref:
  assumes s: "std_sort srt" and ok: "feed_ok fd"
  shows "map fo_price (fd_book side (upsert srt side ord fd)) = map fo_price (fd_book side (ref_upsert side ord fd))"
proof -
  let ?b = "fd_book side fd" and ?old = "filter (\<lambda>x. fo_id x \<noteq> fo_id ord) (fd_book side fd)"
  have b: "sorted_wrt (\<lambda>x y. \<not> better side y x) ?b" "distinct (map fo_id ?b)"
    using ok by (simp_all add: feed_ok_book side_ok_def)
  have "distinct (put_order ord ?b)" using put_order_distinct [OF b(2)] by (simp add: distinct_map)
  moreover have "distinct (ord # ?old)" using b(2) by (simp add: distinct_map)
  moreover have "set (put_order ord ?b) = set (ord # ?old)" using put_order_set [OF b(2)] by simp
  ultimately have "mset (put_order ord ?b) = mset (ord # ?old)" by (metis set_eq_iff_mset_eq_distinct)
  then have "mset (map fo_price (srt (better side) (put_order ord ?b))) = mset (map fo_price (place side ord ?old))"
    using std_sort_better(1) [OF s] by simp
  moreover have "sorted_wrt (\<lambda>x y. \<not> better side y x) (place side ord ?old)"
    by (rule place_weakly_sorted [OF sorted_wrt_filter [OF b(1)]])
  ultimately have "map fo_price (srt (better side) (put_order ord ?b)) = map fo_price (place side ord ?old)"
    using weakly_sorted_prices [OF std_sort_better(2) [OF s]] by blast
  then show ?thesis by (simp add: upsert_book(1) [OF s] ref_upsert_def take_map [symmetric])
qed

text \<open>
  Already a stable sort can differ: an order that is put again with the price it shares with another stays
  before it in the one book and comes after it in the other.
\<close>

lemma equal_prices_differ:
  "\<exists>srt (fd :: int feed) ord. std_sort srt \<and> feed_ok fd \<and> upsert srt True ord fd \<noteq> ref_upsert True ord fd"
proof -
  let ?ord = "\<lambda>i q. \<lparr>fo_id = i, fo_price = 100 :: int, fo_quantity = q\<rparr>"
  let ?fd = "(feed_new 2)\<lparr>fd_bids := [?ord 1 5, ?ord 2 5]\<rparr>"
  have "feed_ok ?fd" by (simp add: feed_ok_def side_ok_def feed_new_def better_def)
  moreover have "fd_book True (upsert cmp_sort True (?ord 1 6) ?fd) = [?ord 1 6, ?ord 2 5]"
    by (simp add: upsert_def set_book_def notify_def fd_book_def feed_new_def cmp_sort_def better_def Let_def)
  moreover have "fd_book True (ref_upsert True (?ord 1 6) ?fd) = [?ord 2 5, ?ord 1 6]"
    by (simp add: ref_upsert_def notify_def set_book_def fd_book_def feed_new_def better_def)
  ultimately have "feed_ok ?fd \<and> upsert cmp_sort True (?ord 1 6) ?fd \<noteq> ref_upsert True (?ord 1 6) ?fd" by auto
  with std_sort_cmp_sort show ?thesis by blast
qed

end
