(* ===== verification/Sockets.thy ===== *)
theory Sockets
  imports Prelude
begin

unbundle bit_operations_syntax

text \<open>
  The socket classes: \<^verbatim>\<open>libs/networking/tcp/TcpClient.h\<close> and, under \<^verbatim>\<open>libs/networking/udp\<close>,
  \<^verbatim>\<open>UdpSocket.h\<close>, \<^verbatim>\<open>UdpMulticastSender.h\<close> and \<^verbatim>\<open>UdpMulticastReceiver.h\<close>.

  The results of the system calls are arguments. A constructor gives the object or the
  exception, with the calls it made, in order; from the calls follows which descriptors are open
  (\<open>open_fds\<close>). A destructor of C++ runs only for an object whose constructor returned.
\<close>

section \<open>Addresses\<close>

text \<open>
  \<open>sockaddr_in\<close>: the port is the 16-bit number that is stored, in network byte order, the address
  the four bytes \<open>inet_pton\<close> writes. \<open>htons\<close> depends on the byte order of the host, \<open>le\<close> for little
  endian.
\<close>

record sockaddr_in =
  sin_port :: u16
  sin_addr :: "u8 list"

definition htons :: "bool \<Rightarrow> u16 \<Rightarrow> u16" where
  "htons le p = (if le then push_bit 8 p OR drop_bit 8 p else p)"

definition INADDR_ANY :: "u8 list" where
  "INADDR_ANY = [0, 0, 0, 0]"

section \<open>System calls\<close>

text \<open>\<open>Sys_send\<close> and \<open>Sys_sendto\<close> carry the data and the result of the call.\<close>

datatype sys_call =
  Sys_socket int
| Sys_setsockopt int string int
| Sys_join int "u8 list"
| Sys_connect int sockaddr_in
| Sys_bind int sockaddr_in
| Sys_listen int int
| Sys_send int "u8 list" int
| Sys_sendto int "u8 list" sockaddr_in int
| Sys_close int

definition track_fd :: "sys_call \<Rightarrow> int set \<Rightarrow> int set" where
  "track_fd c S = (case c of
     Sys_socket fd \<Rightarrow> if fd < 0 then S else insert fd S
   | Sys_close fd \<Rightarrow> S - {fd}
   | _ \<Rightarrow> S)"

definition open_fds :: "sys_call list \<Rightarrow> int set" where
  "open_fds calls = fold track_fd calls {}"

lemma open_fds_snoc [simp]: "open_fds (calls @ [c]) = track_fd c (open_fds calls)"
  by (simp add: open_fds_def)

lemma open_fds_Nil [simp]: "open_fds [] = {}"
  by (simp add: open_fds_def)

lemma track_fd_simps [simp]:
  "track_fd (Sys_socket fd) S = (if fd < 0 then S else insert fd S)"
  "track_fd (Sys_setsockopt fd n v) S = S" "track_fd (Sys_connect fd a) S = S"
  "track_fd (Sys_join fd g) S = S" "track_fd (Sys_send fd bs r) S = S" "track_fd (Sys_sendto fd bs a r) S = S"
  "track_fd (Sys_bind fd a) S = S" "track_fd (Sys_listen fd b) S = S" "track_fd (Sys_close fd) S = S - {fd}"
  by (simp_all add: track_fd_def)

text \<open>\<open>static_cast<int>\<close> of a \<open>size_t\<close>.\<close>

definition int_cast :: "u64 \<Rightarrow> int" where
  "int_cast x = sint (ucast x :: u32)"

datatype socket_error =
  Socket_Failed
| Invalid_Host string
| Connect_Failed string u16
| Reuseaddr_Failed
| Bind_Failed u16
| Join_Failed string
| Ttl_Failed
| Loopback_Failed

section \<open>The TCP client\<close>

record tcp_client =
  tc_socket :: int
  tc_host :: string
  tc_port :: u16

text \<open>
  What the platform and the calls give: the byte order, the descriptor, the result of \<open>inet_pton\<close>
  with the address it writes, and the results of the other calls.
\<close>

record tcp_env =
  te_le :: bool
  te_socket :: int
  te_pton :: int
  te_addr :: "u8 list"
  te_connect :: int

definition tcp_options :: "int \<Rightarrow> bool \<Rightarrow> u64 \<Rightarrow> u64 \<Rightarrow> sys_call list" where
  "tcp_options fd enableNoDelay sendBufferSize recvBufferSize =
     (if enableNoDelay then [Sys_setsockopt fd ''TCP_NODELAY'' 1] else [])
     @ (if sendBufferSize > 0 then [Sys_setsockopt fd ''SO_SNDBUF'' (int_cast sendBufferSize)] else [])
     @ (if recvBufferSize > 0 then [Sys_setsockopt fd ''SO_RCVBUF'' (int_cast recvBufferSize)] else [])"

definition tcp_client_new ::
  "tcp_env \<Rightarrow> string \<Rightarrow> u16 \<Rightarrow> bool \<Rightarrow> u64 \<Rightarrow> u64 \<Rightarrow> (socket_error + tcp_client) \<times> sys_call list" where
  "tcp_client_new env host port enableNoDelay sendBufferSize recvBufferSize =
     (let fd = te_socket env; calls = [Sys_socket fd];
          addr = \<lparr>sin_port = htons (te_le env) port, sin_addr = te_addr env\<rparr>
      in if fd < 0 then (Inl Socket_Failed, calls)
         else if te_pton env \<noteq> 1 then (Inl (Invalid_Host host), calls @ [Sys_close fd])
         else if te_connect env < 0
              then (Inl (Connect_Failed host port), calls @ [Sys_connect fd addr] @ [Sys_close fd])
         else (Inr \<lparr>tc_socket = fd, tc_host = host, tc_port = port\<rparr>,
               calls @ [Sys_connect fd addr] @ tcp_options fd enableNoDelay sendBufferSize recvBufferSize))"

definition tcp_client_delete :: "tcp_client \<Rightarrow> sys_call list" where
  "tcp_client_delete c = (if tc_socket c \<ge> 0 then [Sys_close (tc_socket c)] else [])"

definition isConnected :: "tcp_client \<Rightarrow> bool" where
  "isConnected c \<longleftrightarrow> tc_socket c \<ge> 0"

text \<open>
  \<open>sendAll\<close>. \<open>snd_result k n\<close> is what the \<open>k\<close>-th call of \<open>::send\<close> returns when it is asked to send
  \<open>n\<close> bytes. A call that reads past the end of the data is undefined. The result is the return
  value with the bytes the socket has taken.
\<close>

fun sendAll_loop ::
  "(nat \<Rightarrow> nat \<Rightarrow> int) \<Rightarrow> u8 list \<Rightarrow> nat \<Rightarrow> nat \<Rightarrow> nat \<Rightarrow> u8 list \<Rightarrow> (bool \<times> u8 list) option" where
  "sendAll_loop snd_result data k ptr 0 sent = Some (True, sent)"
| "sendAll_loop snd_result data k ptr (Suc r) sent =
     (if ptr + Suc r > length data then None
      else let n = snd_result k (Suc r)
           in if n \<le> 0 then Some (False, sent)
              else sendAll_loop snd_result data (Suc k) (ptr + nat n) r
                     (sent @ take (nat n) (drop ptr data)))"

definition sendAll :: "(nat \<Rightarrow> nat \<Rightarrow> int) \<Rightarrow> u8 list \<Rightarrow> (bool \<times> u8 list) option" where
  "sendAll snd_result data = sendAll_loop snd_result data 0 0 (length data) []"

section \<open>The UDP sockets\<close>

record udp_socket =
  us_socket :: int
  us_address :: string
  us_port :: u16

text \<open>The two senders also keep the address they send to.\<close>

record udp_sender = udp_socket +
  us_destAddr :: sockaddr_in

record udp_env =
  ue_le :: bool
  ue_socket :: int
  ue_reuseaddr :: int
  ue_ttl :: int
  ue_loopback :: int
  ue_bind :: int
  ue_pton :: int
  ue_addr :: "u8 list"
  ue_membership :: int

definition udp_socket_new :: "udp_env \<Rightarrow> string \<Rightarrow> u16 \<Rightarrow> (socket_error + udp_sender) \<times> sys_call list" where
  "udp_socket_new env address port =
     (let fd = ue_socket env; calls = [Sys_socket fd]
      in if fd < 0 then (Inl Socket_Failed, calls)
         else if ue_pton env \<le> 0 then (Inl (Invalid_Host address), calls)
         else (Inr \<lparr>us_socket = fd, us_address = address, us_port = port,
                us_destAddr = \<lparr>sin_port = htons (ue_le env) port, sin_addr = ue_addr env\<rparr>\<rparr>, calls))"

definition udp_sender_new ::
  "udp_env \<Rightarrow> string \<Rightarrow> u16 \<Rightarrow> u8 \<Rightarrow> (socket_error + udp_sender) \<times> sys_call list" where
  "udp_sender_new env multicastAddr port ttl =
     (let fd = ue_socket env; calls = [Sys_socket fd]
      in if fd < 0 then (Inl Socket_Failed, calls)
         else let calls1 = calls @ [Sys_setsockopt fd ''IP_MULTICAST_TTL'' (uint ttl)]
           in if ue_ttl env < 0 then (Inl Ttl_Failed, calls1)
              else let calls2 = calls1 @ [Sys_setsockopt fd ''IP_MULTICAST_LOOP'' 1]
                in if ue_loopback env < 0 then (Inl Loopback_Failed, calls2)
                   else if ue_pton env \<le> 0 then (Inl (Invalid_Host multicastAddr), calls2)
                   else (Inr \<lparr>us_socket = fd, us_address = multicastAddr, us_port = port,
                     us_destAddr = \<lparr>sin_port = htons (ue_le env) port, sin_addr = ue_addr env\<rparr>\<rparr>, calls2))"

text \<open>\<open>reuseport\<close> says whether the platform defines \<open>SO_REUSEPORT\<close>.\<close>

definition udp_receiver_new ::
  "bool \<Rightarrow> udp_env \<Rightarrow> string \<Rightarrow> u16 \<Rightarrow> u64 \<Rightarrow> (socket_error + udp_socket) \<times> sys_call list" where
  "udp_receiver_new reuseport env multicastAddr port recvBufferSize =
     (let fd = ue_socket env; calls = [Sys_socket fd]
      in if fd < 0 then (Inl Socket_Failed, calls)
         else let calls1 = calls @ [Sys_setsockopt fd ''SO_REUSEADDR'' 1]
           in if ue_reuseaddr env < 0 then (Inl Reuseaddr_Failed, calls1)
              else let calls2 = calls1
                       @ (if reuseport then [Sys_setsockopt fd ''SO_REUSEPORT'' 1] else [])
                       @ [Sys_setsockopt fd ''SO_RCVBUF'' (int_cast recvBufferSize)]
                       @ [Sys_bind fd \<lparr>sin_port = htons (ue_le env) port, sin_addr = INADDR_ANY\<rparr>]
                in if ue_bind env < 0 then (Inl (Bind_Failed port), calls2)
                   else if ue_pton env \<noteq> 1 then (Inl (Invalid_Host multicastAddr), calls2)
                   else let calls3 = calls2 @ [Sys_join fd (ue_addr env)]
                     in if ue_membership env < 0 then (Inl (Join_Failed multicastAddr), calls3)
                        else (Inr \<lparr>us_socket = fd, us_address = multicastAddr, us_port = port\<rparr>, calls3))"

definition udp_socket_delete :: "udp_sender \<Rightarrow> sys_call list" where
  "udp_socket_delete s = (if us_socket s \<ge> 0 then [Sys_close (us_socket s)] else [])"

definition udp_sender_delete :: "udp_sender \<Rightarrow> sys_call list" where
  "udp_sender_delete s = (if us_socket s \<ge> 0 then [Sys_close (us_socket s)] else [])"

definition udp_receiver_delete :: "udp_socket \<Rightarrow> sys_call list" where
  "udp_receiver_delete s = (if us_socket s \<ge> 0 then [Sys_close (us_socket s)] else [])"

lemmas udp_deletes = udp_socket_delete_def udp_sender_delete_def udp_receiver_delete_def

section \<open>Descriptors\<close>

lemma open_fds_append: "open_fds (xs @ ys) = fold track_fd ys (open_fds xs)"
  by (simp add: open_fds_def)

lemma open_fds_socket: "open_fds (Sys_socket fd # calls) = fold track_fd calls (if fd < 0 then {} else {fd})"
  by (simp add: open_fds_def)

lemma tcp_client_new_fds:
  assumes "tcp_client_new env host port nd sb rb = (res, calls)"
  shows "case res of
      Inl err \<Rightarrow> open_fds calls = {}
    | Inr c \<Rightarrow> isConnected c \<and> tc_host c = host \<and> tc_port c = port
        \<and> open_fds calls = {tc_socket c} \<and> open_fds (calls @ tcp_client_delete c) = {}"
  using assms
  by (auto simp: tcp_client_new_def Let_def tcp_options_def isConnected_def tcp_client_delete_def
      open_fds_append open_fds_socket split: if_splits)

text \<open>A UDP constructor that throws after \<open>socket\<close> succeeded leaves the descriptor open.\<close>

lemma udp_socket_new_fds:
  assumes "udp_socket_new env address port = (res, calls)"
  shows "case res of
      Inl err \<Rightarrow> open_fds calls = (if err = Socket_Failed then {} else {ue_socket env})
    | Inr s \<Rightarrow> open_fds calls = {us_socket s} \<and> open_fds (calls @ udp_socket_delete s) = {}"
  using assms
  by (auto simp: udp_socket_new_def Let_def udp_socket_delete_def open_fds_append open_fds_socket
      split: if_splits)

lemma udp_sender_new_fds:
  assumes "udp_sender_new env address port ttl = (res, calls)"
  shows "case res of
      Inl err \<Rightarrow> open_fds calls = (if err = Socket_Failed then {} else {ue_socket env})
    | Inr s \<Rightarrow> open_fds calls = {us_socket s} \<and> open_fds (calls @ udp_sender_delete s) = {}"
  using assms
  by (auto simp: udp_sender_new_def Let_def udp_deletes open_fds_append open_fds_socket
      split: if_splits)

lemma udp_receiver_new_fds:
  assumes "udp_receiver_new reuseport env address port bufSize = (res, calls)"
  shows "case res of
      Inl err \<Rightarrow> open_fds calls = (if err = Socket_Failed then {} else {ue_socket env})
    | Inr s \<Rightarrow> open_fds calls = {us_socket s} \<and> open_fds (calls @ udp_receiver_delete s) = {}"
  using assms
  by (auto simp: udp_receiver_new_def Let_def udp_deletes open_fds_append open_fds_socket
      split: if_splits)

text \<open>The descriptors a UDP constructor leaves open, on either of its two ways out.\<close>

definition udp_leaves_open ::
  "('a udp_socket_scheme \<Rightarrow> sys_call list) \<Rightarrow> udp_env \<Rightarrow> (socket_error + 'a udp_socket_scheme) \<times> sys_call list \<Rightarrow> bool" where
  "udp_leaves_open destructor env res \<longleftrightarrow> (case res of
     (Inl err, calls) \<Rightarrow> open_fds calls = (if err = Socket_Failed then {} else {ue_socket env})
   | (Inr s, calls) \<Rightarrow> open_fds calls = {us_socket s} \<and> open_fds (calls @ destructor s) = {})"

lemma udp_constructors_open:
  "udp_leaves_open udp_socket_delete env (udp_socket_new env address port)"
  "udp_leaves_open udp_sender_delete env (udp_sender_new env address port ttl)"
  "udp_leaves_open udp_receiver_delete env (udp_receiver_new reuseport env address port bufSize)"
  using udp_socket_new_fds [of env address port] udp_sender_new_fds [of env address port ttl]
    udp_receiver_new_fds [of reuseport env address port bufSize]
  by (auto simp: udp_leaves_open_def split: prod.splits sum.splits)

section \<open>Sending everything\<close>

lemma sendAll_loop_done:
  assumes "\<And>k n. snd_result k n \<le> int n"
  shows "ptr + r = length data \<Longrightarrow>
    sendAll_loop snd_result data k ptr r sent = Some (True, out) \<longleftrightarrow>
      out = sent @ drop ptr data \<and> (\<forall>j < r. snd_result (k + j) (r - j) = 1)"
proof (induction r arbitrary: k ptr sent)
  case 0
  then show ?case by auto
next
  case (Suc r)
  let ?n = "snd_result k (Suc r)"
  have split: "(\<forall>j < Suc r. snd_result (k + j) (Suc r - j) = 1)
      \<longleftrightarrow> ?n = 1 \<and> (\<forall>j < r. snd_result (Suc k + j) (r - j) = 1)"
    by (auto simp: less_Suc_eq_0_disj)
  consider "?n \<le> 0" | "?n = 1" | "2 \<le> ?n" by linarith
  then show ?case
  proof cases
    case 1
    then show ?thesis using Suc.prems split by auto
  next
    case 2
    have "take 1 (drop ptr data) @ drop (Suc ptr) data = drop ptr data"
      by (metis append_take_drop_id drop_drop plus_1_eq_Suc)
    then show ?thesis using 2 Suc.IH [of "Suc ptr" "Suc k"] Suc.prems split by (simp add: Let_def)
  next
    case 3
    then have "r > 0" using assms [of k "Suc r"] by simp
    then obtain r' where r': "r = Suc r'" by (cases r) auto
    have "2 \<le> nat ?n" using 3 by linarith
    then have "length data < ptr + nat ?n + r" using Suc.prems by linarith
    then have "sendAll_loop snd_result data (Suc k) (ptr + nat ?n) r s = None" for s
      by (simp add: r')
    then show ?thesis using 3 Suc.prems split by (simp add: Let_def)
  qed
qed

text \<open>
  \<open>sendAll\<close> reports success without reading past the data exactly when every call of \<open>::send\<close>
  takes a single byte.
\<close>

lemma sendAll_success:
  assumes "\<And>k n. snd_result k n \<le> int n"
  shows "sendAll snd_result data = Some (True, out) \<longleftrightarrow>
    out = data \<and> (\<forall>k < length data. snd_result k (length data - k) = 1)"
  using sendAll_loop_done [where snd_result = snd_result and ptr = 0 and r = "length data" and data = data
      and k = 0 and sent = "[]" and out = out, OF assms]
  by (simp add: sendAll_def)

lemma sendAll_whole:
  assumes "2 \<le> length data"
  shows "sendAll (\<lambda>k n. int n) data = None"
proof -
  obtain x y rest where "data = x # y # rest" using assms by (cases data; cases "tl data") auto
  then show ?thesis by (simp add: sendAll_def Let_def)
qed

end
