(* ===== verification/TcpServer.thy ===== *)
theory TcpServer
  imports Sockets
begin

text \<open>
  \<^verbatim>\<open>libs/networking/tcp/TcpServer.h\<close>: the accept loop, one loop per client, and \<open>start\<close> and \<open>stop\<close>.

  A loop runs in a thread of its own against calls that may block. Its environment is the value
  the running flag has at each check (\<open>running k\<close> at the \<open>k\<close>-th) and the list of the results the
  blocking call ever gives; when the list is used up the thread is blocked in the call
  (\<open>Blocked\<close>) and does not end.
\<close>

datatype loop_end = Exited | Blocked

text \<open>What \<open>read\<close> or \<open>recv\<close> gives: some bytes, or zero or an error.\<close>

datatype recv_result = Received "u8 list" | No_Data

section \<open>State\<close>

text \<open>A thread object is joinable or not; a client thread is named by its descriptor.\<close>

record tcp_server =
  sv_port :: u16
  sv_backlog :: u64
  sv_running :: bool
  sv_acceptJoinable :: bool
  sv_clientThreads :: "int list"

definition tcp_server_new :: "u16 \<Rightarrow> u64 \<Rightarrow> tcp_server" where
  "tcp_server_new port backlog = \<lparr>sv_port = port, sv_backlog = backlog, sv_running = False,
     sv_acceptJoinable = False, sv_clientThreads = []\<rparr>"

text \<open>
  Assigning a new thread to \<open>_acceptThread\<close> while it is joinable ends the program
  (\<open>std::terminate\<close>), which is \<open>None\<close>.
\<close>

definition server_start :: "tcp_server \<Rightarrow> tcp_server option" where
  "server_start s =
     (let s1 = s\<lparr>sv_running := True\<rparr>
      in if sv_acceptJoinable s1 then None else Some (s1\<lparr>sv_acceptJoinable := True\<rparr>))"

text \<open>
  \<open>stop\<close>, with how the accept loop and the loops of the clients end: it joins them, so it does not
  return (\<open>None\<close>) while one of them is blocked.
\<close>

definition server_stop :: "loop_end \<Rightarrow> (int \<Rightarrow> loop_end) \<Rightarrow> tcp_server \<Rightarrow> tcp_server option" where
  "server_stop accept_end client_end s =
     (let s1 = s\<lparr>sv_running := False\<rparr>
      in if sv_acceptJoinable s1 \<and> accept_end = Blocked then None
         else let s2 = s1\<lparr>sv_acceptJoinable := False\<rparr>
           in if list_ex (\<lambda>fd. client_end fd = Blocked) (sv_clientThreads s2) then None
              else Some (s2\<lparr>sv_clientThreads := []\<rparr>))"

section \<open>The loops\<close>

text \<open>
  The accept loop: \<open>accepts\<close> are the results of \<open>::accept\<close>, \<open>clients\<close> the descriptors a client
  thread was started for.
\<close>

fun accept_loop :: "(nat \<Rightarrow> bool) \<Rightarrow> nat \<Rightarrow> int list \<Rightarrow> int list \<Rightarrow> loop_end \<times> int list" where
  "accept_loop running k [] clients = (if running k then (Blocked, clients) else (Exited, clients))"
| "accept_loop running k (clientFd # accepts) clients =
     (if running k
      then accept_loop running (Suc k) accepts (if clientFd \<ge> 0 then clients @ [clientFd] else clients)
      else (Exited, clients))"

record server_env =
  se_le :: bool
  se_socket :: int
  se_bind :: int
  se_listen :: int

definition listenLoop ::
  "server_env \<Rightarrow> (nat \<Rightarrow> bool) \<Rightarrow> int list \<Rightarrow> tcp_server \<Rightarrow> loop_end \<times> sys_call list \<times> int list" where
  "listenLoop env running accepts s =
     (let serverFd = se_socket env; calls = [Sys_socket serverFd]
      in if serverFd < 0 then (Exited, calls, [])
         else let calls1 = calls @ [Sys_setsockopt serverFd ''SO_REUSEADDR'' 1] 
                         @ [Sys_bind serverFd \<lparr>sin_port = htons (se_le env) (sv_port s), sin_addr = INADDR_ANY\<rparr>]
           in if se_bind env < 0 then (Exited, calls1 @ [Sys_close serverFd], [])
              else let calls2 = calls1 @ [Sys_listen serverFd (int_cast (sv_backlog s))]
                in if se_listen env < 0 then (Exited, calls2 @ [Sys_close serverFd], [])
                   else (case accept_loop running 0 accepts [] of
                           (Blocked, clients) \<Rightarrow> (Blocked, calls2, clients)
                         | (Exited, clients) \<Rightarrow> (Exited, calls2 @ [Sys_close serverFd], clients)))"

text \<open>A client's loop: the messages are the arguments of the callback.\<close>

fun client_read_loop ::
  "(nat \<Rightarrow> bool) \<Rightarrow> nat \<Rightarrow> recv_result list \<Rightarrow> u8 list list \<Rightarrow> loop_end \<times> u8 list list" where
  "client_read_loop running k [] msgs = (if running k then (Blocked, msgs) else (Exited, msgs))"
| "client_read_loop running k (r # rs) msgs =
     (if running k
      then (case r of
              No_Data \<Rightarrow> (Exited, msgs)
            | Received bytes \<Rightarrow> client_read_loop running (Suc k) rs (msgs @ [bytes]))
      else (Exited, msgs))"

definition clientLoop ::
  "(nat \<Rightarrow> bool) \<Rightarrow> recv_result list \<Rightarrow> int \<Rightarrow> loop_end \<times> u8 list list \<times> sys_call list" where
  "clientLoop running reads clientFd =
     (case client_read_loop running 0 reads [] of
        (Blocked, msgs) \<Rightarrow> (Blocked, msgs, [])
      | (Exited, msgs) \<Rightarrow> (Exited, msgs, [Sys_close clientFd]))"

section \<open>The accept loop\<close>

text \<open>
  The loop ends exactly when some check of the flag reads false, and it gets to check \<open>k\<close> only
  after \<open>k\<close> calls of \<open>accept\<close> returned.
\<close>

lemma accept_loop_exits:
  "fst (accept_loop running k accepts clients) = Exited
    \<longleftrightarrow> (\<exists>j \<le> length accepts. \<not> running (k + j))"
proof (induction accepts arbitrary: k clients)
  case Nil
  then show ?case by simp
next
  case (Cons a accepts)
  have "(\<exists>j \<le> Suc n. \<not> running (k + j)) \<longleftrightarrow> \<not> running k \<or> (\<exists>j \<le> n. \<not> running (Suc k + j))" for n
  proof
    assume "\<exists>j \<le> Suc n. \<not> running (k + j)"
    then obtain j where "j \<le> Suc n" "\<not> running (k + j)" by blast
    then show "\<not> running k \<or> (\<exists>j \<le> n. \<not> running (Suc k + j))" by (cases j) auto
  next
    assume "\<not> running k \<or> (\<exists>j \<le> n. \<not> running (Suc k + j))"
    then show "\<exists>j \<le> Suc n. \<not> running (k + j)"
      by (metis Suc_le_mono add_0_right add_Suc_shift le0)
  qed
  with Cons.IH [of "Suc k"] show ?case by auto
qed

lemma accept_loop_clients:
  "\<exists>n \<le> length accepts. snd (accept_loop running k accepts clients)
    = clients @ filter (\<lambda>fd. fd \<ge> 0) (take n accepts)"
proof (induction accepts arbitrary: k clients)
  case (Cons a accepts)
  show ?case
  proof (cases "running k")
    case True
    obtain n where "n \<le> length accepts"
      "snd (accept_loop running (Suc k) accepts (if a \<ge> 0 then clients @ [a] else clients))
        = (if a \<ge> 0 then clients @ [a] else clients) @ filter (\<lambda>fd. fd \<ge> 0) (take n accepts)"
      using Cons.IH by blast
    with True show ?thesis by (intro exI [of _ "Suc n"]) simp
  next
    case False
    then show ?thesis by (intro exI [of _ 0]) simp
  qed
qed simp

text \<open>Every way out of \<open>listenLoop\<close> closes the listening socket.\<close>

lemma listenLoop_closes:
  assumes "listenLoop env running accepts s = (Exited, calls, clients)"
  shows "open_fds calls = {}"
  using assms
  by (auto simp: listenLoop_def Let_def open_fds_append open_fds_socket
      split: if_splits prod.splits loop_end.splits)

lemma listenLoop_blocked:
  assumes "se_socket env \<ge> 0" "se_bind env \<ge> 0" "se_listen env \<ge> 0"
  shows "fst (listenLoop env running accepts s) = Blocked \<longleftrightarrow> (\<forall>k \<le> length accepts. running k)"
proof -
  have e: "fst (accept_loop running 0 accepts []) = Exited \<longleftrightarrow> (\<exists>j \<le> length accepts. \<not> running j)"
    using accept_loop_exits [of running 0] by simp
  show ?thesis
    using assms e
    by (cases "accept_loop running 0 accepts []"; cases "fst (accept_loop running 0 accepts [])")
      (auto simp: listenLoop_def Let_def)
qed

section \<open>A client's loop\<close>

fun received :: "recv_result list \<Rightarrow> u8 list list" where
  "received (Received bytes # rs) = bytes # received rs"
| "received _ = []"

lemma client_read_loop_msgs:
  "\<exists>n. snd (client_read_loop running k rs msgs) = msgs @ take n (received rs)"
proof (induction rs arbitrary: k msgs)
  case (Cons r rs)
  show ?case
  proof (cases r)
    case (Received bytes)
    show ?thesis
    proof (cases "running k")
      case True
      obtain n where "snd (client_read_loop running (Suc k) rs (msgs @ [bytes]))
          = (msgs @ [bytes]) @ take n (received rs)" using Cons.IH by blast
      with True Received show ?thesis by (intro exI [of _ "Suc n"]) simp
    next
      case False
      with Received show ?thesis by (intro exI [of _ 0]) simp
    qed
  next
    case No_Data
    then show ?thesis by (intro exI [of _ 0]) simp
  qed
qed simp

lemma client_read_loop_all:
  "(\<And>j. running j) \<Longrightarrow> client_read_loop running k rs msgs
    = (if No_Data \<in> set rs then Exited else Blocked, msgs @ received rs)"
proof (induction rs arbitrary: k msgs)
  case (Cons r rs)
  then show ?case by (cases r) auto
qed simp

lemma clientLoop_closes:
  "clientLoop running reads fd = (Exited, msgs, calls) \<Longrightarrow> calls = [Sys_close fd]"
  by (auto simp: clientLoop_def split: prod.splits loop_end.splits)

lemma clientLoop_all:
  "clientLoop (\<lambda>_. True) reads fd
    = (if No_Data \<in> set reads then (Exited, received reads, [Sys_close fd])
       else (Blocked, received reads, []))"
  by (simp add: clientLoop_def client_read_loop_all)

end
