(* ===== verification/Pipelines.thy ===== *)
theory Pipelines
  imports TcpServer Framing
begin

text \<open>
  The read loops that feed a decoder: \<^verbatim>\<open>libs/networking/pipeline\<close> (\<^verbatim>\<open>DecoderPipeline.h\<close>,
  \<^verbatim>\<open>EncoderPipeline.h\<close>, \<^verbatim>\<open>TcpPipeline.h\<close>, and the loop of \<^verbatim>\<open>UdpPipeline.h\<close>). The environment of a
  loop is as in \<open>TcpServer\<close>: the values of the running flag and the results of \<open>recv\<close>, used up when
  the thread blocks.
\<close>

section \<open>Decoder and encoder\<close>

text \<open>A stage with an optional callback; the calls are recorded with their argument.\<close>

record stage =
  st_callback :: bool
  st_calls :: "u8 list list"

definition stage_new :: stage where
  "stage_new = \<lparr>st_callback = False, st_calls = []\<rparr>"

definition subscribe :: "stage \<Rightarrow> stage" where
  "subscribe d = d\<lparr>st_callback := True\<rparr>"

definition decode :: "u8 list \<Rightarrow> stage \<Rightarrow> stage" where
  "decode buffer d = (if st_callback d then d\<lparr>st_calls := st_calls d @ [buffer]\<rparr> else d)"

definition setSendCallback :: "stage \<Rightarrow> stage" where
  "setSendCallback e = e\<lparr>st_callback := True\<rparr>"

definition encode_stage :: "u8 list \<Rightarrow> stage \<Rightarrow> stage" where
  "encode_stage buffer e = (if st_callback e then e\<lparr>st_calls := st_calls e @ [buffer]\<rparr> else e)"

section \<open>The TCP and UDP pipelines\<close>

record pipeline =
  pp_decoder :: stage
  pp_encoder :: stage
  pp_running :: bool
  pp_joinable :: bool

definition pipeline_new :: "stage \<Rightarrow> stage \<Rightarrow> pipeline" where
  "pipeline_new decoder encoder =
     \<lparr>pp_decoder = decoder, pp_encoder = encoder, pp_running = False, pp_joinable = False\<rparr>"

definition pipeline_start :: "pipeline \<Rightarrow> pipeline option" where
  "pipeline_start p =
     (let p1 = p\<lparr>pp_running := True\<rparr>
      in if pp_joinable p1 then None else Some (p1\<lparr>pp_joinable := True\<rparr>))"

definition pipeline_stop :: "loop_end \<Rightarrow> pipeline \<Rightarrow> pipeline option" where
  "pipeline_stop read_end p =
     (let p1 = p\<lparr>pp_running := False\<rparr>
      in if pp_joinable p1 \<and> read_end = Blocked then None
         else Some (p1\<lparr>pp_joinable := False\<rparr>))"

definition pipeline_send :: "u8 list \<Rightarrow> pipeline \<Rightarrow> pipeline" where
  "pipeline_send data p = p\<lparr>pp_encoder := encode_stage data (pp_encoder p)\<rparr>"

text \<open>\<open>TcpPipeline::readLoop\<close> ends when \<open>recv\<close> gives nothing; \<open>UdpPipeline::readLoop\<close> goes on.\<close>

fun tcp_readLoop :: "(nat \<Rightarrow> bool) \<Rightarrow> nat \<Rightarrow> recv_result list \<Rightarrow> stage \<Rightarrow> loop_end \<times> stage" where
  "tcp_readLoop running k [] d = (if running k then (Blocked, d) else (Exited, d))"
| "tcp_readLoop running k (r # rs) d =
     (if running k
      then (case r of
              No_Data \<Rightarrow> (Exited, d)
            | Received bytes \<Rightarrow> tcp_readLoop running (Suc k) rs (decode bytes d))
      else (Exited, d))"

fun udp_readLoop :: "(nat \<Rightarrow> bool) \<Rightarrow> nat \<Rightarrow> recv_result list \<Rightarrow> stage \<Rightarrow> loop_end \<times> stage" where
  "udp_readLoop running k [] d = (if running k then (Blocked, d) else (Exited, d))"
| "udp_readLoop running k (r # rs) d =
     (if running k
      then (case r of
              No_Data \<Rightarrow> udp_readLoop running (Suc k) rs d
            | Received bytes \<Rightarrow> udp_readLoop running (Suc k) rs (decode bytes d))
      else (Exited, d))"

section \<open>What the loops deliver\<close>

fun all_received :: "recv_result list \<Rightarrow> u8 list list" where
  "all_received [] = []"
| "all_received (Received bytes # rs) = bytes # all_received rs"
| "all_received (No_Data # rs) = all_received rs"

lemma decode_simps [simp]:
  "st_callback (decode b d) = st_callback d"
  "st_callback d \<Longrightarrow> st_calls (decode b d) = st_calls d @ [b]"
  "\<not> st_callback d \<Longrightarrow> decode b d = d"
  by (simp_all add: decode_def)

lemma tcp_readLoop_all:
  "(\<And>j. running j) \<Longrightarrow> st_callback d \<Longrightarrow>
    fst (tcp_readLoop running k rs d) = (if No_Data \<in> set rs then Exited else Blocked)
    \<and> st_calls (snd (tcp_readLoop running k rs d)) = st_calls d @ received rs"
proof (induction rs arbitrary: k d)
  case (Cons r rs)
  then show ?case by (cases r) auto
qed simp

lemma udp_readLoop_all:
  "(\<And>j. running j) \<Longrightarrow> st_callback d \<Longrightarrow>
    fst (udp_readLoop running k rs d) = Blocked
    \<and> st_calls (snd (udp_readLoop running k rs d)) = st_calls d @ all_received rs"
proof (induction rs arbitrary: k d)
  case (Cons r rs)
  then show ?case by (cases r) auto
qed simp

text \<open>
  A byte stream that is decoded through the pipeline reaches the framer chunk by chunk: the
  frames the framer makes of the callbacks are the frames of the stream.
\<close>

lemma tcp_pipeline_frames:
  assumes "\<And>j. running j" "st_callback d" "st_calls d = []"
    and "concat (received rs) = fold (encode le) ps [] @ rest" "split_frame_bytes le rest = None"
    and "\<And>p. p \<in> set ps \<Longrightarrow> frame_fits p" "\<And>c. c \<in> set (received rs) \<Longrightarrow> length c \<le> 4096"
    and "65536 + 4096 \<le> n"
  shows "\<exists>f. receive le (st_calls (snd (tcp_readLoop running 0 rs d))) (framer_new n) = Inr (ps, f)
    \<and> fr_buffer f = rest"
proof -
  have calls: "st_calls (snd (tcp_readLoop running 0 rs d)) = received rs"
    using tcp_readLoop_all [of running d 0 rs] assms(1-3) by simp
  obtain frames f where r: "receive le (received rs) (framer_new n) = Inr (frames, f)"
    using receive_no_overflow [of "received rs" 4096 "framer_new n" le] assms(7,8)
    by (auto simp: framer_new_def split_frame_bytes_def nextFrame_def)
  have "frames = ps \<and> fr_buffer f = rest"
    by (rule receive_encoded [OF r assms(4,5)]) (use assms(6) in simp)
  with r calls show ?thesis by simp
qed

end
