(* ===== verification/UdpPipeline.thy ===== *)
theory UdpPipeline
  imports Pipelines
begin

text \<open>
  \<^verbatim>\<open>libs/networking/pipeline/UdpPipeline.h\<close> with the \<open>recv\<close> of \<^verbatim>\<open>UdpMulticastReceiver.h\<close> it reads
  from. On a datagram socket a call of \<open>recv\<close> takes one datagram, the part of it that fits the
  buffer, and drops the rest.
\<close>

datatype datagram = Datagram "u8 list" | Recv_Error

definition udp_recv :: "nat \<Rightarrow> datagram \<Rightarrow> recv_result" where
  "udp_recv maxLen d =
     (case d of
        Recv_Error \<Rightarrow> No_Data
      | Datagram bytes \<Rightarrow> (if take maxLen bytes = [] then No_Data else Received (take maxLen bytes)))"

record udp_pipeline =
  up_receiver :: udp_socket
  up_sender :: udp_sender
  up_decoder :: stage
  up_encoder :: stage
  up_running :: bool
  up_joinable :: bool

definition udp_pipeline_new :: "udp_socket \<Rightarrow> udp_sender \<Rightarrow> stage \<Rightarrow> stage \<Rightarrow> udp_pipeline" where
  "udp_pipeline_new receiver sender decoder encoder =
     \<lparr>up_receiver = receiver, up_sender = sender, up_decoder = decoder, up_encoder = encoder,
      up_running = False, up_joinable = False\<rparr>"

text \<open>\<open>None\<close> is \<open>std::terminate\<close>: a new thread is assigned to a joinable one.\<close>

definition udp_pipeline_start :: "udp_pipeline \<Rightarrow> udp_pipeline option" where
  "udp_pipeline_start p =
     (let p1 = p\<lparr>up_running := True\<rparr>
      in if up_joinable p1 then None else Some (p1\<lparr>up_joinable := True\<rparr>))"

text \<open>\<open>None\<close>: the join does not return, the read loop is blocked in \<open>recv\<close>.\<close>

definition udp_pipeline_stop :: "loop_end \<Rightarrow> udp_pipeline \<Rightarrow> udp_pipeline option" where
  "udp_pipeline_stop read_end p =
     (let p1 = p\<lparr>up_running := False\<rparr>
      in if up_joinable p1
         then (if read_end = Blocked then None else Some (p1\<lparr>up_joinable := False\<rparr>))
         else Some p1)"

definition udp_pipeline_send :: "u8 list \<Rightarrow> udp_pipeline \<Rightarrow> udp_pipeline" where
  "udp_pipeline_send data p = p\<lparr>up_encoder := encode_stage data (up_encoder p)\<rparr>"

definition BUFFER_SIZE :: nat where
  "BUFFER_SIZE = 4096"

text \<open>The thread of \<open>readLoop\<close> against the datagrams that arrive at the socket.\<close>

definition udp_pipeline_readLoop ::
  "(nat \<Rightarrow> bool) \<Rightarrow> datagram list \<Rightarrow> udp_pipeline \<Rightarrow> loop_end \<times> udp_pipeline" where
  "udp_pipeline_readLoop running ds p =
     (let (read_end, decoder) = udp_readLoop running 0 (map (udp_recv BUFFER_SIZE) ds) (up_decoder p)
      in (read_end, p\<lparr>up_decoder := decoder\<rparr>))"

text \<open>What the decoder is given of a run of datagrams.\<close>

fun payloads :: "datagram list \<Rightarrow> u8 list list" where
  "payloads [] = []"
| "payloads (Recv_Error # ds) = payloads ds"
| "payloads (Datagram bytes # ds) = (if bytes = [] then payloads ds else take 4096 bytes # payloads ds)"

lemma udp_recv_simps:
  "udp_recv BUFFER_SIZE Recv_Error = No_Data"
  "udp_recv BUFFER_SIZE (Datagram bytes) = (if bytes = [] then No_Data else Received (take 4096 bytes))"
  by (simp_all add: udp_recv_def BUFFER_SIZE_def)

lemma all_received_payloads: "all_received (map (udp_recv BUFFER_SIZE) ds) = payloads ds"
  by (induction ds rule: payloads.induct) (simp_all add: udp_recv_simps)

text \<open>
  The loop ends at the first test of the flag that fails, after as many calls of \<open>recv\<close>, and has
  then handed on what those calls gave.
\<close>

lemma udp_readLoop_until:
  assumes "st_callback d" "\<And>j. j < n \<Longrightarrow> running (k + j)" "\<not> running (k + n)"
  shows "udp_readLoop running k rs d
    = (if n \<le> length rs then Exited else Blocked, d\<lparr>st_calls := st_calls d @ all_received (take n rs)\<rparr>)"
  using assms
proof (induction n arbitrary: k rs d)
  case 0
  then show ?case by (cases rs) simp_all
next
  case (Suc n)
  have run: "running k" using Suc.prems(2) [of 0] by simp
  have later: "\<And>j. j < n \<Longrightarrow> running (Suc k + j)" "\<not> running (Suc k + n)"
    using Suc.prems(2) [of "Suc j" for j] Suc.prems(3) by simp_all
  show ?case
  proof (cases rs)
    case Nil
    with run show ?thesis by simp
  next
    case (Cons r rs')
    show ?thesis
    proof (cases r)
      case No_Data
      with Cons run Suc.IH [OF Suc.prems(1) later] show ?thesis by simp
    next
      case (Received bytes)
      have "st_callback (decode bytes d)" using Suc.prems(1) by simp
      from Suc.IH [OF this later, of rs'] Cons Received run Suc.prems(1) show ?thesis
        by (simp add: decode_def)
    qed
  qed
qed

lemma udp_pipeline_until:
  assumes "st_callback (up_decoder p)" "\<And>j. j < n \<Longrightarrow> running j" "\<not> running n"
  shows "fst (udp_pipeline_readLoop running ds p) = (if n \<le> length ds then Exited else Blocked)
    \<and> st_calls (up_decoder (snd (udp_pipeline_readLoop running ds p)))
      = st_calls (up_decoder p) @ payloads (take n ds)"
proof -
  have "udp_readLoop running 0 (map (udp_recv BUFFER_SIZE) ds) (up_decoder p)
      = (if n \<le> length ds then Exited else Blocked,
         (up_decoder p)\<lparr>st_calls := st_calls (up_decoder p) @ payloads (take n ds)\<rparr>)"
    using udp_readLoop_until [of "up_decoder p" n running 0 "map (udp_recv BUFFER_SIZE) ds"] assms
    by (simp add: take_map all_received_payloads)
  then show ?thesis by (simp add: udp_pipeline_readLoop_def)
qed

end
