(* ===== verification/Datagrams.thy ===== *)
theory Datagrams
  imports UdpPipeline
begin

text \<open>
  Sending and receiving: \<open>send\<close> and \<open>recv\<close> of \<^verbatim>\<open>TcpClient.h\<close>, \<^verbatim>\<open>UdpSocket.h\<close>,
  \<^verbatim>\<open>UdpMulticastSender.h\<close> and \<^verbatim>\<open>UdpMulticastReceiver.h\<close>, and what a multicast sender and the
  pipeline of a receiver on another host do together.

  What the calls return is an argument. A packet has the port as two bytes on the wire, so hosts
  of either byte order can be on both ends.
\<close>

section \<open>The operations\<close>

definition tcp_send :: "int \<Rightarrow> tcp_client \<Rightarrow> u8 list \<Rightarrow> int \<times> sys_call list" where
  "tcp_send n c data = (n, [Sys_send (tc_socket c) data n])"

definition udp_socket_send :: "int \<Rightarrow> udp_sender \<Rightarrow> u8 list \<Rightarrow> int \<times> sys_call list" where
  "udp_socket_send n s data = (n, [Sys_sendto (us_socket s) data (us_destAddr s) n])"

definition udp_sender_send :: "int \<Rightarrow> udp_sender \<Rightarrow> u8 list \<Rightarrow> int \<times> sys_call list" where
  "udp_sender_send n s data = (n, [Sys_sendto (us_socket s) data (us_destAddr s) n])"

text \<open>
  \<open>recv\<close> writes what arrived, at most \<open>maxLen\<close> bytes of it, to the front of the buffer; to write
  past the end of the buffer is undefined (\<open>None\<close>).
\<close>

definition recv_into :: "nat \<Rightarrow> datagram \<Rightarrow> u8 list \<Rightarrow> (int \<times> u8 list) option" where
  "recv_into maxLen d buffer =
     (case d of
        Recv_Error \<Rightarrow> Some (-1, buffer)
      | Datagram bytes \<Rightarrow>
          (let got = take maxLen bytes; n = length got
           in if n > length buffer then None else Some (int n, memcpy_at buffer 0 got n)))"

definition tcp_recv :: "nat \<Rightarrow> datagram \<Rightarrow> u8 list \<Rightarrow> (int \<times> u8 list) option" where
  "tcp_recv maxLen d buffer = recv_into maxLen d buffer"

definition udp_receiver_recv :: "nat \<Rightarrow> datagram \<Rightarrow> u8 list \<Rightarrow> (int \<times> u8 list) option" where
  "udp_receiver_recv maxLen d buffer = recv_into maxLen d buffer"

text \<open>\<open>UdpSocket::recv\<close> also gives the address of the sender, if \<open>srcAddr\<close> is not null (\<open>None\<close>).\<close>

definition udp_socket_recv ::
  "nat \<Rightarrow> datagram \<Rightarrow> sockaddr_in \<Rightarrow> u8 list \<Rightarrow> sockaddr_in option
     \<Rightarrow> (int \<times> u8 list \<times> sockaddr_in option) option" where
  "udp_socket_recv len d from buffer srcAddr =
     map_option (\<lambda>(n, buffer').
         (n, buffer', if n < 0 then srcAddr else map_option (\<lambda>_. from) srcAddr))
       (recv_into len d buffer)"

text \<open>What a read loop makes of a call: the first \<open>n\<close> bytes of its buffer, if there are any.\<close>

definition loop_view :: "int \<times> u8 list \<Rightarrow> recv_result" where
  "loop_view r = (if fst r \<le> 0 then No_Data else Received (take (nat (fst r)) (snd r)))"

lemma recv_into_view:
  assumes "maxLen \<le> length buffer"
  shows "map_option loop_view (recv_into maxLen d buffer) = Some (udp_recv maxLen d)
    \<and> map_option (length \<circ> snd) (recv_into maxLen d buffer) = Some (length buffer)"
proof (cases d)
  case Recv_Error
  then show ?thesis by (simp add: recv_into_def udp_recv_def loop_view_def)
next
  case (Datagram bytes)
  let ?got = "take maxLen bytes"
  have got: "take (min (length bytes) maxLen) bytes = ?got"
    by (cases "length bytes \<le> maxLen") (simp_all add: min_absorb1 min_absorb2)
  then have r: "recv_into maxLen d buffer = Some (int (length ?got), ?got @ drop (length ?got) buffer)"
    using assms Datagram by (simp add: recv_into_def memcpy_at_def Let_def)
  from got have "loop_view (int (length ?got), ?got @ drop (length ?got) buffer) = udp_recv maxLen d"
    using Datagram by (auto simp: loop_view_def udp_recv_def)
  with r assms show ?thesis by simp
qed

section \<open>Ports on the wire\<close>

lemma htons_wire: "u16_bytes le (htons le p) = [ucast (drop_bit 8 p), ucast p]"
proof -
  have "(ucast (push_bit 8 p OR drop_bit 8 p) :: u8) = ucast (drop_bit 8 p)"
    "(ucast (drop_bit 8 (push_bit 8 p OR drop_bit 8 p)) :: u8) = ucast p"
    by (rule bit_word_eqI; auto simp: bit_simps)+
  then show ?thesis by (simp add: u16_bytes_def htons_def Let_def)
qed

lemma htons_wire_inject: "u16_bytes le (htons le p) = u16_bytes le' (htons le' q) \<longleftrightarrow> p = q"
proof
  assume "u16_bytes le (htons le p) = u16_bytes le' (htons le' q)"
  then have "(ucast (drop_bit 8 p) :: u8) = ucast (drop_bit 8 q)" "(ucast p :: u8) = ucast q"
    by (simp_all add: htons_wire)
  then have "u16_bytes True p = u16_bytes True q" by (simp add: u16_bytes_def Let_def)
  then show "p = q" by (metis append_Nil2 u16_bytes_roundtrip)
qed (simp add: htons_wire)

section \<open>From a multicast sender to a pipeline\<close>

text \<open>A packet as it is sent, and what of a sender's calls becomes packets.\<close>

record packet =
  pk_addr :: "u8 list"
  pk_port :: "u8 list"
  pk_data :: "u8 list"

fun sent_packets :: "bool \<Rightarrow> sys_call list \<Rightarrow> packet list" where
  "sent_packets le [] = []"
| "sent_packets le (Sys_sendto fd bytes a n # calls) =
     (if n < 0 then [] else [\<lparr>pk_addr = sin_addr a, pk_port = u16_bytes le (sin_port a), pk_data = bytes\<rparr>])
     @ sent_packets le calls"
| "sent_packets le (_ # calls) = sent_packets le calls"

definition bound_to :: "bool \<Rightarrow> sys_call list \<Rightarrow> int \<Rightarrow> u8 list \<Rightarrow> bool" where
  "bound_to le calls fd port \<longleftrightarrow>
     list_ex (\<lambda>c. case c of Sys_bind fd' a \<Rightarrow> fd' = fd \<and> u16_bytes le (sin_port a) = port | _ \<Rightarrow> False) calls"

definition joined_group :: "sys_call list \<Rightarrow> int \<Rightarrow> u8 list \<Rightarrow> bool" where
  "joined_group calls fd addr \<longleftrightarrow> Sys_join fd addr \<in> set calls"

text \<open>
  Which packets the kernel hands to a socket is a parameter: \<open>hands le calls fd pk\<close> for a socket on which
  a host has made \<open>calls\<close>. What is documented (\<^verbatim>\<open>ip(7)\<close>, \<^verbatim>\<open>udp(7)\<close>): it gets what is sent to the port it is
  bound to and a group it has joined, and nothing that is sent to another port. What is sent to its
  port and a group it has not joined it may get or not: with \<open>IP_MULTICAST_ALL\<close> at its default it
  gets it when any other socket of the host has joined that group.
\<close>

type_synonym kernel = "bool \<Rightarrow> sys_call list \<Rightarrow> int \<Rightarrow> packet \<Rightarrow> bool"

definition multicast_kernel :: "kernel \<Rightarrow> bool" where
  "multicast_kernel hands \<longleftrightarrow> (\<forall>le calls fd pk.
     (joined_group calls fd (pk_addr pk) \<and> bound_to le calls fd (pk_port pk) \<longrightarrow> hands le calls fd pk)
   \<and> (hands le calls fd pk \<longrightarrow> bound_to le calls fd (pk_port pk)))"

text \<open>Two kernels that do this, the second on a host where other sockets have joined \<open>groups\<close>.\<close>

definition strict_kernel :: kernel where
  "strict_kernel le calls fd pk \<longleftrightarrow> joined_group calls fd (pk_addr pk) \<and> bound_to le calls fd (pk_port pk)"

definition multicast_all :: "u8 list list \<Rightarrow> kernel" where
  "multicast_all groups le calls fd pk \<longleftrightarrow>
     (joined_group calls fd (pk_addr pk) \<or> pk_addr pk \<in> set groups) \<and> bound_to le calls fd (pk_port pk)"

lemma kernels_ok: "multicast_kernel strict_kernel" "multicast_kernel (multicast_all groups)"
  by (auto simp: multicast_kernel_def strict_kernel_def multicast_all_def)

text \<open>A run of sends, each with what the call returned, and the packets of it for a receiver.\<close>

definition sender_calls :: "udp_sender \<Rightarrow> (u8 list \<times> int) list \<Rightarrow> sys_call list" where
  "sender_calls s sends = concat (map (\<lambda>(data, n). snd (udp_sender_send n s data)) sends)"

definition delivered :: "kernel \<Rightarrow> bool \<Rightarrow> sys_call list \<Rightarrow> udp_socket \<Rightarrow> packet list \<Rightarrow> u8 list list" where
  "delivered hands le rcalls r pks = map pk_data (filter (hands le rcalls (us_socket r)) pks)"

lemma sent_packets_sender:
  "sent_packets le (sender_calls s sends) =
     map (\<lambda>(data, n). \<lparr>pk_addr = sin_addr (us_destAddr s), pk_port = u16_bytes le (sin_port (us_destAddr s)),
                        pk_data = data\<rparr>)
       (filter (\<lambda>(data, n). n \<ge> 0) sends)"
  by (induction sends) (auto simp: sender_calls_def udp_sender_send_def)

lemma udp_sender_new_dest:
  "udp_sender_new env addr port ttl = (Inr s, calls)
    \<Longrightarrow> us_destAddr s = \<lparr>sin_port = htons (ue_le env) port, sin_addr = ue_addr env\<rparr>"
  by (auto simp: udp_sender_new_def Let_def split: if_splits)

lemma udp_receiver_new_joins:
  assumes "udp_receiver_new reuseport env addr port bufSize = (Inr r, calls)"
  shows "joined_group calls (us_socket r) g \<longleftrightarrow> g = ue_addr env"
    and "bound_to (ue_le env) calls (us_socket r) p \<longleftrightarrow> p = u16_bytes (ue_le env) (htons (ue_le env) port)"
  using assms
  by (auto simp: udp_receiver_new_def Let_def joined_group_def bound_to_def split: if_splits)

text \<open>
  A receiver is handed what is sent to its group and port, whatever the byte orders of the hosts, and
  nothing that is sent to another port; on what is sent to its port and another group kernels differ.
\<close>

lemma multicast_delivered:
  assumes "udp_sender_new senv addr port ttl = (Inr s, calls)"
    and "udp_receiver_new reuseport renv addr' port' bufSize = (Inr r, rcalls)"
    and sent: "sent = map fst (filter (\<lambda>(data, n). n \<ge> 0) sends)"
    and pks: "pks = sent_packets (ue_le senv) (sender_calls s sends)"
  shows "multicast_kernel hands \<Longrightarrow> port = port' \<Longrightarrow> ue_addr senv = ue_addr renv \<Longrightarrow> delivered hands (ue_le renv) rcalls r pks = sent"
    and "multicast_kernel hands \<Longrightarrow> port \<noteq> port' \<Longrightarrow> delivered hands (ue_le renv) rcalls r pks = []"
    and "delivered strict_kernel (ue_le renv) rcalls r pks = (if port = port' \<and> ue_addr senv = ue_addr renv then sent else [])"
    and "delivered (multicast_all groups) (ue_le renv) rcalls r pks
      = (if port = port' \<and> (ue_addr senv = ue_addr renv \<or> ue_addr senv \<in> set groups) then sent else [])"
proof -
  note join = udp_receiver_new_joins [OF assms(2)]
  let ?pk = "\<lambda>data. \<lparr>pk_addr = ue_addr senv, pk_port = u16_bytes (ue_le senv) (htons (ue_le senv) port), pk_data = data\<rparr>"
  have pk: "pks = map ?pk sent"
    by (simp add: pks sent sent_packets_sender udp_sender_new_dest [OF assms(1)] case_prod_unfold)
  have to: "joined_group rcalls (us_socket r) (pk_addr (?pk data)) \<longleftrightarrow> ue_addr senv = ue_addr renv"
    "bound_to (ue_le renv) rcalls (us_socket r) (pk_port (?pk data)) \<longleftrightarrow> port = port'" for data
    using join by (simp_all add: htons_wire_inject)
  have all: "delivered hands (ue_le renv) rcalls r pks = (if P then sent else [])"
    if "\<And>data. hands (ue_le renv) rcalls (us_socket r) (?pk data) \<longleftrightarrow> P" for hands P
    using that by (simp add: delivered_def pk filter_map comp_def)
  show "delivered strict_kernel (ue_le renv) rcalls r pks = (if port = port' \<and> ue_addr senv = ue_addr renv then sent else [])"
    by (rule all) (use to in \<open>auto simp: strict_kernel_def\<close>)
  show "delivered (multicast_all groups) (ue_le renv) rcalls r pks
      = (if port = port' \<and> (ue_addr senv = ue_addr renv \<or> ue_addr senv \<in> set groups) then sent else [])"
    by (rule all) (use to in \<open>auto simp: multicast_all_def\<close>)
  assume k: "multicast_kernel hands"
  show "delivered hands (ue_le renv) rcalls r pks = sent" if "port = port'" "ue_addr senv = ue_addr renv"
  proof -
    have "hands (ue_le renv) rcalls (us_socket r) (?pk data)" for data
      using k to that unfolding multicast_kernel_def by blast
    with all [of hands True] show ?thesis by simp
  qed
  show "delivered hands (ue_le renv) rcalls r pks = []" if "port \<noteq> port'"
  proof -
    have "\<not> hands (ue_le renv) rcalls (us_socket r) (?pk data)" for data
      using k to(2) that unfolding multicast_kernel_def by blast
    with all [of hands False] show ?thesis by simp
  qed
qed

lemma payloads_Datagram: "payloads (map Datagram bs) = map (take 4096) (filter (\<lambda>b. b \<noteq> []) bs)"
  by (induction bs) simp_all

lemma set_payloads: "set (payloads ds) = take 4096 ` {b. Datagram b \<in> set ds \<and> b \<noteq> []}"
  by (induction ds rule: payloads.induct) auto

end
