(* ===== verification/ServerThreads.thy ===== *)
theory ServerThreads
  imports TcpServer Machines
begin

text \<open>
  The object \<open>TcpServer\<close> with its threads: the owner, which calls \<open>start\<close> and \<open>stop\<close> (the
  destructor is \<open>stop\<close>), the accept thread and one thread for every client. One step is one system
  call, one access of the flag, one join, or the beginning or the end of a callback; the threads
  move in any order.

  What a call returns is part of the step. Of the kernel only this is used: a new descriptor is
  not one that is open, and \<open>read\<close> gives no more bytes than the buffer has.
\<close>

section \<open>State\<close>

text \<open>Where \<open>listenLoop\<close> is; the arguments are \<open>serverFd\<close> and \<open>clientFd\<close>.\<close>

datatype accept_pc =
  A_Socket
| A_Option int
| A_Bind int
| A_Listen int
| A_Check int
| A_Accept int
| A_Emplace int int
| A_Pause int
| A_Close int

text \<open>\<open>_acceptThread\<close>: no thread, a running one, or one that has ended and is still joinable.\<close>

datatype accept_thread = T_None | T_Running accept_pc | T_Ended

text \<open>Where \<open>clientLoop\<close> is; \<open>L_InCall\<close> is inside the callback.\<close>

datatype client_pc = L_Check | L_Read | L_Call "u8 list" | L_InCall | L_Close | L_Done

record client_thread =
  ct_fd :: int
  ct_conn :: nat
  ct_pc :: client_pc

datatype server_op = Serve_Start | Serve_Stop

text \<open>The owner: between its calls, at one of the joins of \<open>stop\<close>, or after \<open>std::terminate\<close>.\<close>

datatype server_owner = W_Ready | W_JoinAccept | W_JoinClient nat | W_Terminated

text \<open>
  \<open>lv_open\<close> are the open descriptors. The histories are what \<open>read\<close> gave and what the callback
  was called with, by the number of the connection.
\<close>

record live_server =
  lv_running :: bool
  lv_accept :: accept_thread
  lv_clients :: "client_thread list"
  lv_owner :: server_owner
  lv_ops :: "server_op list"
  lv_open :: "int set"
  lv_conns :: nat
  lv_received :: "(nat \<times> u8 list) list"
  lv_called :: "(nat \<times> u8 list) list"

definition live_new :: "server_op list \<Rightarrow> live_server" where
  "live_new ops = \<lparr>lv_running = False, lv_accept = T_None, lv_clients = [], lv_owner = W_Ready,
     lv_ops = ops, lv_open = {}, lv_conns = 0, lv_received = [], lv_called = []\<rparr>"

section \<open>Steps\<close>

text \<open>
  A step of the accept thread, \<open>n\<close> being what the call returns; the result has no program counter
  when the thread ends.
\<close>

fun accept_next :: "int \<Rightarrow> accept_pc \<Rightarrow> live_server \<Rightarrow> (accept_pc option \<times> live_server) option" where
  "accept_next n A_Socket s =
     (if n < 0 then Some (None, s)
      else if n \<in> lv_open s then None
      else Some (Some (A_Option n), s\<lparr>lv_open := insert n (lv_open s)\<rparr>))"
| "accept_next n (A_Option serverFd) s = Some (Some (A_Bind serverFd), s)"
| "accept_next n (A_Bind serverFd) s = Some (Some (if n < 0 then A_Close serverFd else A_Listen serverFd), s)"
| "accept_next n (A_Listen serverFd) s = Some (Some (if n < 0 then A_Close serverFd else A_Check serverFd), s)"
| "accept_next n (A_Check serverFd) s =
     Some (Some (if lv_running s then A_Accept serverFd else A_Close serverFd), s)"
| "accept_next n (A_Accept serverFd) s =
     (if n < 0 then Some (Some (A_Pause serverFd), s)
      else if n \<in> lv_open s then None
      else Some (Some (A_Emplace serverFd n), s\<lparr>lv_open := insert n (lv_open s)\<rparr>))"
| "accept_next n (A_Pause serverFd) s = Some (Some (A_Check serverFd), s)"
| "accept_next n (A_Emplace serverFd clientFd) s =
     Some (Some (A_Check serverFd),
       s\<lparr>lv_clients := lv_clients s @ [\<lparr>ct_fd = clientFd, ct_conn = lv_conns s, ct_pc = L_Check\<rparr>],
         lv_conns := Suc (lv_conns s)\<rparr>)"
| "accept_next n (A_Close serverFd) s = Some (None, s\<lparr>lv_open := lv_open s - {serverFd}\<rparr>)"

text \<open>A step of a client thread, \<open>r\<close> being what \<open>read\<close> gives.\<close>

definition client_next :: "recv_result \<Rightarrow> client_thread \<Rightarrow> live_server \<Rightarrow> (client_thread \<times> live_server) option" where
  "client_next r c s =
     (case ct_pc c of
        L_Check \<Rightarrow> Some (c\<lparr>ct_pc := if lv_running s then L_Read else L_Close\<rparr>, s)
      | L_Read \<Rightarrow> (case r of
            No_Data \<Rightarrow> Some (c\<lparr>ct_pc := L_Close\<rparr>, s)
          | Received bytes \<Rightarrow>
              (if bytes = [] \<or> length bytes > 1024 then None
               else Some (c\<lparr>ct_pc := L_Call bytes\<rparr>, s\<lparr>lv_received := lv_received s @ [(ct_conn c, bytes)]\<rparr>)))
      | L_Call message \<Rightarrow> Some (c\<lparr>ct_pc := L_InCall\<rparr>, s\<lparr>lv_called := lv_called s @ [(ct_conn c, message)]\<rparr>)
      | L_InCall \<Rightarrow> Some (c\<lparr>ct_pc := L_Check\<rparr>, s)
      | L_Close \<Rightarrow> Some (c\<lparr>ct_pc := L_Done\<rparr>, s\<lparr>lv_open := lv_open s - {ct_fd c}\<rparr>)
      | L_Done \<Rightarrow> None)"

definition serve_start :: "live_server \<Rightarrow> live_server" where
  "serve_start s =
     (let s1 = s\<lparr>lv_running := True\<rparr>
      in if lv_accept s1 = T_None then s1\<lparr>lv_accept := T_Running A_Socket\<rparr>
         else s1\<lparr>lv_owner := W_Terminated\<rparr>)"

definition serve_stop :: "live_server \<Rightarrow> live_server" where
  "serve_stop s =
     (let s1 = s\<lparr>lv_running := False\<rparr>
      in s1\<lparr>lv_owner := (if lv_accept s1 = T_None then W_JoinClient 0 else W_JoinAccept)\<rparr>)"

definition serve_owner :: "live_server \<Rightarrow> live_server option" where
  "serve_owner s =
     (case lv_owner s of
        W_Ready \<Rightarrow> (case lv_ops s of
            [] \<Rightarrow> None
          | Serve_Start # ops \<Rightarrow> Some (serve_start (s\<lparr>lv_ops := ops\<rparr>))
          | Serve_Stop # ops \<Rightarrow> Some (serve_stop (s\<lparr>lv_ops := ops\<rparr>)))
      | W_JoinAccept \<Rightarrow>
          (if lv_accept s = T_Ended then Some (s\<lparr>lv_accept := T_None, lv_owner := W_JoinClient 0\<rparr>) else None)
      | W_JoinClient i \<Rightarrow>
          (if i < length (lv_clients s)
           then (if ct_pc (lv_clients s ! i) = L_Done then Some (s\<lparr>lv_owner := W_JoinClient (Suc i)\<rparr>) else None)
           else Some (s\<lparr>lv_clients := [], lv_owner := W_Ready\<rparr>))
      | W_Terminated \<Rightarrow> None)"

datatype server_mover = By_Owner | By_Accept int | By_Client nat recv_result

definition server_next :: "server_mover \<Rightarrow> live_server \<Rightarrow> live_server option" where
  "server_next m s =
     (if lv_owner s = W_Terminated then None
      else case m of
        By_Owner \<Rightarrow> serve_owner s
      | By_Accept n \<Rightarrow>
          (case lv_accept s of
             T_Running pc \<Rightarrow>
               map_option (\<lambda>(pc', s'). s'\<lparr>lv_accept := (case pc' of None \<Rightarrow> T_Ended | Some p \<Rightarrow> T_Running p)\<rparr>)
                 (accept_next n pc s)
           | _ \<Rightarrow> None)
      | By_Client i r \<Rightarrow>
          (if i < length (lv_clients s)
           then map_option (\<lambda>(c, s'). s'\<lparr>lv_clients := (lv_clients s')[i := c]\<rparr>)
                  (client_next r (lv_clients s ! i) s)
           else None))"

inductive server_moves :: "live_server \<Rightarrow> live_server \<Rightarrow> bool" where
  moves: "server_next m s = Some s' \<Longrightarrow> server_moves s s'"

inductive_cases server_movesE: "server_moves s s'"

fun server_run :: "server_mover list \<Rightarrow> live_server \<Rightarrow> live_server option" where
  "server_run [] s = Some s"
| "server_run (m # ms) s = Option.bind (server_next m s) (server_run ms)"

lemma server_run_steps: "server_run ms s = Some s' \<Longrightarrow> server_moves\<^sup>*\<^sup>* s s'"
proof (induction ms arbitrary: s)
  case (Cons m ms)
  then obtain s1 where "server_next m s = Some s1" "server_run ms s1 = Some s'"
    by (auto simp: bind_eq_Some_conv)
  with Cons.IH show ?case by (meson server_moves.moves converse_rtranclp_into_rtranclp)
qed simp

section \<open>The invariant\<close>

text \<open>The descriptors the threads still have to close.\<close>

fun accept_fds :: "accept_thread \<Rightarrow> int list" where
  "accept_fds (T_Running pc) = (case pc of
     A_Socket \<Rightarrow> [] | A_Option fd \<Rightarrow> [fd] | A_Bind fd \<Rightarrow> [fd] | A_Listen fd \<Rightarrow> [fd] | A_Check fd \<Rightarrow> [fd]
   | A_Accept fd \<Rightarrow> [fd] | A_Emplace fd n \<Rightarrow> [fd, n] | A_Pause fd \<Rightarrow> [fd] | A_Close fd \<Rightarrow> [fd])"
| "accept_fds _ = []"

definition client_fds :: "client_thread list \<Rightarrow> int list" where
  "client_fds cs = map ct_fd (filter (\<lambda>c. ct_pc c \<noteq> L_Done) cs)"

definition fds_inv :: "live_server \<Rightarrow> bool" where
  "fds_inv s \<longleftrightarrow> distinct (accept_fds (lv_accept s) @ client_fds (lv_clients s))
     \<and> lv_open s = set (accept_fds (lv_accept s) @ client_fds (lv_clients s))"

definition joins_inv :: "live_server \<Rightarrow> bool" where
  "joins_inv s \<longleftrightarrow> (case lv_owner s of
     W_Ready \<Rightarrow> lv_accept s = T_None \<longrightarrow> lv_clients s = []
   | W_JoinAccept \<Rightarrow> \<not> lv_running s \<and> lv_accept s \<noteq> T_None
   | W_JoinClient i \<Rightarrow> \<not> lv_running s \<and> lv_accept s = T_None \<and> i \<le> length (lv_clients s)
       \<and> (\<forall>j < i. ct_pc (lv_clients s ! j) = L_Done)
   | W_Terminated \<Rightarrow> True)"

text \<open>The messages of a connection, and the one its thread has read and not yet handed on.\<close>

definition of_conn :: "nat \<Rightarrow> (nat \<times> u8 list) list \<Rightarrow> u8 list list" where
  "of_conn k log = map snd (filter (\<lambda>e. fst e = k) log)"

fun held :: "client_pc \<Rightarrow> u8 list list" where
  "held (L_Call message) = [message]"
| "held _ = []"

definition log_inv :: "live_server \<Rightarrow> bool" where
  "log_inv s \<longleftrightarrow> distinct (map ct_conn (lv_clients s))
     \<and> (\<forall>c \<in> set (lv_clients s). ct_conn c < lv_conns s
          \<and> of_conn (ct_conn c) (lv_received s) = of_conn (ct_conn c) (lv_called s) @ held (ct_pc c))
     \<and> (\<forall>k. k \<notin> ct_conn ` set (lv_clients s) \<longrightarrow> of_conn k (lv_received s) = of_conn k (lv_called s))
     \<and> (\<forall>e \<in> set (lv_received s). fst e < lv_conns s \<and> 0 < length (snd e) \<and> length (snd e) \<le> 1024)"

definition server_inv :: "live_server \<Rightarrow> bool" where
  "server_inv s \<longleftrightarrow> fds_inv s \<and> joins_inv s \<and> log_inv s"

subsection \<open>Descriptors\<close>

definition fd_left :: "client_thread \<Rightarrow> int list" where
  "fd_left c = (if ct_pc c = L_Done then [] else [ct_fd c])"

lemma client_fds_split:
  assumes "i < length cs"
  obtains as bs where "client_fds cs = as @ fd_left (cs ! i) @ bs"
    "\<And>c. client_fds (cs[i := c]) = as @ fd_left c @ bs"
proof
  show "client_fds cs = client_fds (take i cs) @ fd_left (cs ! i) @ client_fds (drop (Suc i) cs)"
    by (subst id_take_nth_drop [OF assms]) (simp add: client_fds_def fd_left_def)
  show "client_fds (cs[i := c]) = client_fds (take i cs) @ fd_left c @ client_fds (drop (Suc i) cs)" for c
    by (simp add: upd_conv_take_nth_drop [OF assms] client_fds_def fd_left_def)
qed

lemma client_fds_simps [simp]:
  "client_fds [] = []" "client_fds (cs @ [c]) = client_fds cs @ fd_left c"
  by (simp_all add: client_fds_def fd_left_def)

lemma fds_inv_accept:
  assumes "fds_inv s" "lv_accept s = T_Running pc" "accept_next n pc s = Some (pc', s')"
  shows "fds_inv (s'\<lparr>lv_accept := (case pc' of None \<Rightarrow> T_Ended | Some p \<Rightarrow> T_Running p)\<rparr>)"
proof -
  have inv: "distinct (accept_fds (T_Running pc) @ client_fds (lv_clients s))"
    "lv_open s = set (accept_fds (T_Running pc)) \<union> set (client_fds (lv_clients s))"
    using assms(1,2) by (simp_all add: fds_inv_def)
  show ?thesis
    using assms(3) inv
    by (cases pc) (simp_all add: fds_inv_def fd_left_def insert_commute split: if_splits, safe,
        auto simp: fd_left_def)
qed

lemma client_next_props:
  assumes "client_next r c s = Some (c', s')"
  shows "ct_fd c' = ct_fd c" "ct_conn c' = ct_conn c" "ct_pc c \<noteq> L_Done"
    "lv_open s' = (if ct_pc c' = L_Done then lv_open s - {ct_fd c} else lv_open s)"
    "lv_clients s' = lv_clients s" "lv_accept s' = lv_accept s" "lv_owner s' = lv_owner s"
    "lv_running s' = lv_running s" "lv_ops s' = lv_ops s" "lv_conns s' = lv_conns s"
  using assms by (auto simp: client_next_def split: client_pc.splits recv_result.splits if_splits)

lemma fds_inv_client:
  assumes "fds_inv s" "i < length (lv_clients s)" "client_next r (lv_clients s ! i) s = Some (c, s')"
  shows "fds_inv (s'\<lparr>lv_clients := (lv_clients s')[i := c]\<rparr>)"
proof -
  obtain as bs where fds: "client_fds (lv_clients s) = as @ fd_left (lv_clients s ! i) @ bs"
    "\<And>c. client_fds ((lv_clients s)[i := c]) = as @ fd_left c @ bs"
    using client_fds_split [OF assms(2)] by metis
  show ?thesis
    using assms(1) client_next_props [OF assms(3)] by (auto simp: fds_inv_def fds fd_left_def)
qed

text \<open>The owner changes no descriptor; when it clears the threads, they are done.\<close>

lemma fds_inv_owner:
  assumes "fds_inv s" "joins_inv s" "serve_owner s = Some s'"
  shows "fds_inv s'"
proof -
  have "client_fds (lv_clients s) = []" if "lv_owner s = W_JoinClient i" "\<not> i < length (lv_clients s)" for i
    using assms(2) that by (auto simp: joins_inv_def client_fds_def filter_empty_conv in_set_conv_nth)
  with assms show ?thesis
    by (auto simp: serve_owner_def serve_start_def serve_stop_def Let_def fds_inv_def
        split: server_owner.splits list.splits server_op.splits if_splits)
qed

subsection \<open>Joins\<close>

lemma accept_next_props:
  assumes "accept_next n pc s = Some (pc', s')"
  shows "lv_owner s' = lv_owner s" "lv_running s' = lv_running s" "lv_ops s' = lv_ops s" "lv_accept s' = lv_accept s"
    "lv_received s' = lv_received s" "lv_called s' = lv_called s"
  using assms by (cases pc; auto split: if_splits)+

lemma joins_inv_accept:
  assumes "joins_inv s" "lv_accept s = T_Running pc" "accept_next n pc s = Some (pc', s')"
  shows "joins_inv (s'\<lparr>lv_accept := (case pc' of None \<Rightarrow> T_Ended | Some p \<Rightarrow> T_Running p)\<rparr>)"
  using assms accept_next_props [OF assms(3)]
  by (auto simp: joins_inv_def split: server_owner.splits option.splits)

lemma joins_inv_client:
  assumes "joins_inv s" "i < length (lv_clients s)" "client_next r (lv_clients s ! i) s = Some (c, s')"
  shows "joins_inv (s'\<lparr>lv_clients := (lv_clients s')[i := c]\<rparr>)"
proof -
  have "lv_clients s \<noteq> []" using assms(2) by auto
  then show ?thesis
    using assms(1,2) client_next_props [OF assms(3)]
    by (auto simp: joins_inv_def nth_list_update split: server_owner.splits)
qed

lemma joins_inv_owner:
  assumes "joins_inv s" "serve_owner s = Some s'"
  shows "joins_inv s'"
  using assms
  by (auto simp: serve_owner_def serve_start_def serve_stop_def Let_def joins_inv_def less_Suc_eq
      split: server_owner.splits list.splits server_op.splits if_splits)

subsection \<open>Messages\<close>

lemma of_conn_snoc [simp]:
  "of_conn k (log @ [(j, m)]) = of_conn k log @ (if j = k then [m] else [])"
  by (simp add: of_conn_def)

lemma of_conn_fresh: "(\<forall>e \<in> set log. fst e < k) \<Longrightarrow> of_conn k log = []"
  by (auto simp: of_conn_def filter_empty_conv)

text \<open>What a step of a client's thread does to the messages of its connection, and to others.\<close>

lemma client_next_log:
  assumes "client_next r c s = Some (c', s')"
    and "of_conn (ct_conn c) (lv_received s) = of_conn (ct_conn c) (lv_called s) @ held (ct_pc c)"
  shows "of_conn (ct_conn c) (lv_received s') = of_conn (ct_conn c) (lv_called s') @ held (ct_pc c')"
    "k \<noteq> ct_conn c \<Longrightarrow> of_conn k (lv_received s') = of_conn k (lv_received s)"
    "k \<noteq> ct_conn c \<Longrightarrow> of_conn k (lv_called s') = of_conn k (lv_called s)"
  using assms by (auto simp: client_next_def split: client_pc.splits recv_result.splits if_splits)

lemma client_next_read:
  assumes "client_next r c s = Some (c', s')" "e \<in> set (lv_received s')"
  shows "e \<in> set (lv_received s) \<or> fst e = ct_conn c \<and> 0 < length (snd e) \<and> length (snd e) \<le> 1024"
  using assms by (auto simp: client_next_def split: client_pc.splits recv_result.splits if_splits)

lemma log_inv_client:
  assumes inv: "log_inv s" and i: "i < length (lv_clients s)"
    and step: "client_next r (lv_clients s ! i) s = Some (c, s')"
  shows "log_inv (s'\<lparr>lv_clients := (lv_clients s')[i := c]\<rparr>)"
proof -
  let ?c = "lv_clients s ! i" and ?cs = "(lv_clients s)[i := c]"
  note props = client_next_props [OF step]
  have c: "?c \<in> set (lv_clients s)" using i by simp
  have conns: "map ct_conn ?cs = map ct_conn (lv_clients s)"
    using i props(2) by (simp add: map_update list_update_same_conv)
  have own: "of_conn (ct_conn ?c) (lv_received s) = of_conn (ct_conn ?c) (lv_called s) @ held (ct_pc ?c)"
    using inv c by (simp add: log_inv_def)
  note log = client_next_log [OF step own]
  have others: "ct_conn d \<noteq> ct_conn ?c" if "d \<in> set ?cs" "d \<noteq> c" for d
  proof -
    from that(1) obtain j where j: "j < length ?cs" "?cs ! j = d" unfolding in_set_conv_nth by blast
    then have "j \<noteq> i" using that(2) i by auto
    with j i inv show ?thesis
      by (auto simp: log_inv_def distinct_conv_nth)
  qed
  have old: "d \<in> set (lv_clients s)" if "d \<in> set ?cs" "d \<noteq> c" for d
    using that set_update_subset_insert by fastforce
  have "ct_conn d < lv_conns s
      \<and> of_conn (ct_conn d) (lv_received s') = of_conn (ct_conn d) (lv_called s') @ held (ct_pc d)"
    if d: "d \<in> set ?cs" for d
  proof (cases "d = c")
    case True
    with log(1) props(2) inv c show ?thesis by (simp add: log_inv_def)
  next
    case False
    from old [OF d False] inv log(2,3) [OF others [OF d False]] show ?thesis by (simp add: log_inv_def)
  qed
  moreover have "of_conn k (lv_received s') = of_conn k (lv_called s')"
    if "k \<notin> ct_conn ` set ?cs" for k
  proof -
    have "k \<notin> ct_conn ` set (lv_clients s)" using that conns by (metis list.set_map)
    moreover from this c have "k \<noteq> ct_conn ?c" by blast
    ultimately show ?thesis using inv log(2,3) [of k] by (simp add: log_inv_def)
  qed
  moreover have "distinct (map ct_conn ?cs)" unfolding conns using inv by (simp add: log_inv_def)
  moreover have "fst e < lv_conns s \<and> 0 < length (snd e) \<and> length (snd e) \<le> 1024"
    if "e \<in> set (lv_received s')" for e
    using client_next_read [OF step that] inv c by (auto simp: log_inv_def)
  ultimately show ?thesis using props by (simp add: log_inv_def)
qed

lemma log_inv_accept:
  assumes inv: "log_inv s" and step: "accept_next n pc s = Some (pc', s')"
  shows "log_inv (s'\<lparr>lv_accept := a\<rparr>)"
proof (cases "\<exists>serverFd clientFd. pc = A_Emplace serverFd clientFd")
  case True
  then obtain clientFd where s': "s' = s\<lparr>lv_clients := lv_clients s @ [\<lparr>ct_fd = clientFd, ct_conn = lv_conns s, ct_pc = L_Check\<rparr>],
      lv_conns := Suc (lv_conns s)\<rparr>" using step by auto
  have "lv_conns s \<notin> ct_conn ` set (lv_clients s)" using inv by (auto simp: log_inv_def)
  moreover from this have "of_conn (lv_conns s) (lv_received s) = of_conn (lv_conns s) (lv_called s)"
    using inv by (simp add: log_inv_def)
  ultimately show ?thesis using inv by (auto simp: log_inv_def s' less_Suc_eq)
next
  case False
  then have "lv_clients s' = lv_clients s \<and> lv_conns s' = lv_conns s"
    using step by (cases pc) (auto split: if_splits)
  with inv accept_next_props [OF step] show ?thesis by (simp add: log_inv_def)
qed

lemma log_inv_owner:
  assumes "log_inv s" "joins_inv s" "serve_owner s = Some s'"
  shows "log_inv s'"
proof (cases "lv_clients s' = lv_clients s")
  case True
  moreover have "lv_received s' = lv_received s \<and> lv_called s' = lv_called s \<and> lv_conns s' = lv_conns s"
    using assms(3) by (auto simp: serve_owner_def serve_start_def serve_stop_def Let_def
        split: server_owner.splits list.splits server_op.splits if_splits)
  ultimately show ?thesis using assms(1) by (simp add: log_inv_def)
next
  case False
  then obtain i where o: "lv_owner s = W_JoinClient i" "\<not> i < length (lv_clients s)"
    and s': "s' = s\<lparr>lv_clients := [], lv_owner := W_Ready\<rparr>"
    using assms(3) by (auto simp: serve_owner_def serve_start_def serve_stop_def Let_def
        split: server_owner.splits list.splits server_op.splits if_splits)
  have finished: "held (ct_pc c) = []" if "c \<in> set (lv_clients s)" for c
    using assms(2) o that by (auto simp: joins_inv_def in_set_conv_nth)
  have "of_conn k (lv_received s) = of_conn k (lv_called s)" for k
  proof (cases "k \<in> ct_conn ` set (lv_clients s)")
    case True
    with assms(1) finished show ?thesis by (auto simp: log_inv_def)
  next
    case False
    with assms(1) show ?thesis by (simp add: log_inv_def)
  qed
  with assms(1) show ?thesis by (simp add: log_inv_def s')
qed

lemma server_inv_new: "server_inv (live_new ops)"
  by (simp add: server_inv_def fds_inv_def joins_inv_def log_inv_def live_new_def of_conn_def)

lemma server_inv_next:
  assumes "server_inv s" "server_next m s = Some s'"
  shows "server_inv s'"
proof (cases m)
  case By_Owner
  with assms have "serve_owner s = Some s'" by (simp add: server_next_def split: if_splits)
  with assms(1) show ?thesis
    by (auto simp: server_inv_def intro: fds_inv_owner joins_inv_owner log_inv_owner)
next
  case (By_Accept n)
  with assms(2) obtain pc pc' s1 where "lv_accept s = T_Running pc" "accept_next n pc s = Some (pc', s1)"
    "s' = s1\<lparr>lv_accept := (case pc' of None \<Rightarrow> T_Ended | Some p \<Rightarrow> T_Running p)\<rparr>"
    by (auto simp: server_next_def split: if_splits accept_thread.splits)
  with assms(1) show ?thesis
    by (auto simp only: server_inv_def intro: fds_inv_accept joins_inv_accept log_inv_accept)
next
  case (By_Client i r)
  with assms(2) obtain c s1 where "i < length (lv_clients s)" "client_next r (lv_clients s ! i) s = Some (c, s1)"
    "s' = s1\<lparr>lv_clients := (lv_clients s1)[i := c]\<rparr>"
    by (auto simp: server_next_def split: if_splits)
  with assms(1) show ?thesis
    by (auto simp only: server_inv_def intro: fds_inv_client joins_inv_client log_inv_client)
qed

interpretation server: machine server_moves "\<lambda>s. \<exists>ops. s = live_new ops" server_inv
  by unfold_locales (auto simp: server_inv_new elim!: server_movesE intro: server_inv_next)

section \<open>Stopping\<close>

text \<open>
  How many steps a thread has left once the flag is cleared, each blocking call returning once: an
  accept that is under way can still make one client thread, which then ends at its first test.
\<close>

fun accept_rank :: "accept_thread \<Rightarrow> nat" where
  "accept_rank (T_Running pc) = (case pc of
     A_Socket \<Rightarrow> 6 | A_Option _ \<Rightarrow> 5 | A_Bind _ \<Rightarrow> 4 | A_Listen _ \<Rightarrow> 3 | A_Check _ \<Rightarrow> 2
   | A_Accept _ \<Rightarrow> 7 | A_Emplace _ _ \<Rightarrow> 6 | A_Pause _ \<Rightarrow> 3 | A_Close _ \<Rightarrow> 1)"
| "accept_rank _ = 0"

fun client_rank :: "client_pc \<Rightarrow> nat" where
  "client_rank L_Read = 5"
| "client_rank (L_Call _) = 4"
| "client_rank L_InCall = 3"
| "client_rank L_Check = 2"
| "client_rank L_Close = 1"
| "client_rank L_Done = 0"

fun owner_rank :: "server_owner \<Rightarrow> nat \<Rightarrow> nat" where
  "owner_rank W_JoinAccept n = n + 2"
| "owner_rank (W_JoinClient i) n = n - i + 1"
| "owner_rank _ n = 0"

definition stop_rank :: "live_server \<Rightarrow> nat" where
  "stop_rank s = accept_rank (lv_accept s) + sum_list (map (\<lambda>c. client_rank (ct_pc c)) (lv_clients s))
     + owner_rank (lv_owner s) (length (lv_clients s))"

fun joining :: "server_owner \<Rightarrow> bool" where
  "joining W_JoinAccept \<longleftrightarrow> True"
| "joining (W_JoinClient i) \<longleftrightarrow> True"
| "joining _ \<longleftrightarrow> False"

definition stopped :: "live_server \<Rightarrow> bool" where
  "stopped s \<longleftrightarrow> lv_owner s = W_Ready \<and> lv_accept s = T_None"

text \<open>The last call of the owner is a \<open>stop\<close> that is under way or has returned.\<close>

definition stopping :: "live_server \<Rightarrow> bool" where
  "stopping s \<longleftrightarrow> server_inv s \<and> lv_ops s = []
     \<and> (stopped s \<or> joining (lv_owner s))"

lemma stopping_accept:
  assumes "stopping s" "\<not> stopped s" "lv_accept s = T_Running pc" "accept_next n pc s = Some (pc', s1)"
    and "s' = s1\<lparr>lv_accept := (case pc' of None \<Rightarrow> T_Ended | Some p \<Rightarrow> T_Running p)\<rparr>"
  shows "stop_rank s' < stop_rank s"
proof -
  have "lv_owner s = W_JoinAccept" "\<not> lv_running s"
    using assms(1-3) by (cases "lv_owner s"; simp add: stopping_def server_inv_def joins_inv_def)+
  then show ?thesis
    using assms(3-5) by (cases pc) (auto simp: stop_rank_def split: if_splits)
qed

lemma sum_list_update_less:
  fixes f :: "'a \<Rightarrow> nat"
  assumes "i < length xs" "f x < f (xs ! i)"
  shows "sum_list (map f (xs[i := x])) < sum_list (map f xs)"
proof -
  have "sum_list (map f xs) = sum_list (map f (take i xs)) + f (xs ! i) + sum_list (map f (drop (Suc i) xs))"
    by (subst id_take_nth_drop [OF assms(1)]) simp
  with assms show ?thesis by (simp add: upd_conv_take_nth_drop)
qed

lemma client_next_rank:
  assumes "client_next r c s = Some (c', s')" "\<not> lv_running s"
  shows "client_rank (ct_pc c') < client_rank (ct_pc c)"
  using assms by (auto simp: client_next_def split: client_pc.splits recv_result.splits if_splits)

lemma stopping_client:
  assumes "stopping s" "\<not> stopped s" "i < length (lv_clients s)" "client_next r (lv_clients s ! i) s = Some (c, s1)"
    and "s' = s1\<lparr>lv_clients := (lv_clients s1)[i := c]\<rparr>"
  shows "stop_rank s' < stop_rank s"
proof -
  have "\<not> lv_running s"
    using assms(1,2) by (cases "lv_owner s") (simp_all add: stopping_def server_inv_def joins_inv_def)
  from sum_list_update_less [where f = "\<lambda>c. client_rank (ct_pc c)", OF assms(3) client_next_rank [OF assms(4) this]]
  show ?thesis
    using client_next_props [OF assms(4)] assms(5) by (simp add: stop_rank_def)
qed

lemma stopped_clients: "server_inv s \<Longrightarrow> stopped s \<Longrightarrow> lv_clients s = [] \<and> lv_open s = {}"
  by (auto simp: stopped_def server_inv_def joins_inv_def fds_inv_def)

text \<open>When \<open>stop\<close> has returned nothing moves; before, every step brings it nearer.\<close>

lemma stopping_next:
  assumes "stopping s" "server_next m s = Some s'"
  shows "\<not> stopped s" "stop_rank s' < stop_rank s" "lv_ops s' = []"
    "stopped s' \<or> joining (lv_owner s')"
proof -
  show not: "\<not> stopped s"
  proof
    assume st: "stopped s"
    moreover have "lv_clients s = []" "lv_ops s = []"
      using stopped_clients [of s] assms(1) st by (simp_all add: stopping_def)
    ultimately show False
      using assms(2) by (cases m) (simp_all add: server_next_def serve_owner_def stopped_def)
  qed
  show "stop_rank s' < stop_rank s"
  proof (cases m)
    case By_Owner
    with assms not show ?thesis
      by (cases "lv_owner s") (auto simp: stopping_def server_next_def serve_owner_def stop_rank_def stopped_def
          server_inv_def joins_inv_def split: if_splits)
  next
    case (By_Accept n)
    with assms(2) show ?thesis
      by (auto simp: server_next_def split: if_splits accept_thread.splits
          intro!: stopping_accept [OF assms(1) not])
  next
    case (By_Client i r)
    with assms(2) show ?thesis
      by (auto simp: server_next_def split: if_splits intro!: stopping_client [OF assms(1) not])
  qed
  have same: "lv_ops s' = lv_ops s \<and> lv_owner s' = lv_owner s" if "m \<noteq> By_Owner"
    using that assms(2)
    by (cases m) (auto simp: server_next_def accept_next_props client_next_props
        split: if_splits accept_thread.splits)
  have owner: "lv_ops s' = [] \<and> (stopped s' \<or> joining (lv_owner s'))"
    if "m = By_Owner"
    using that assms not
    by (cases "lv_owner s") (auto simp: stopping_def server_next_def serve_owner_def stopped_def server_inv_def
        joins_inv_def split: if_splits)
  show "lv_ops s' = []" "stopped s' \<or> joining (lv_owner s')"
    using same owner not assms(1) by (cases "m = By_Owner"; auto simp: stopping_def)+
qed

lemma accept_can_step: "\<exists>n r. accept_next n pc s = Some r"
  by (cases pc) (auto intro: exI [of _ "- 1"])

lemma client_can_step: "ct_pc c \<noteq> L_Done \<Longrightarrow> \<exists>r x. client_next r c s = Some x"
  by (cases "ct_pc c") (auto simp: client_next_def intro: exI [of _ No_Data])

lemma stopping_progress:
  assumes "stopping s" "\<not> stopped s"
  shows "\<exists>s'. server_moves s s'"
proof -
  have "\<exists>m s'. server_next m s = Some s'"
  proof (cases "lv_owner s = W_JoinAccept")
    case True
    then have "lv_accept s \<noteq> T_None" using assms(1) by (simp add: stopping_def server_inv_def joins_inv_def)
    then consider "lv_accept s = T_Ended" | pc where "lv_accept s = T_Running pc" by (cases "lv_accept s") auto
    then show ?thesis
    proof cases
      case 1
      with True have "server_next By_Owner s \<noteq> None" by (simp add: server_next_def serve_owner_def)
      then show ?thesis by blast
    next
      case (2 pc)
      obtain n r where "accept_next n pc s = Some r" using accept_can_step by blast
      with True 2 have "server_next (By_Accept n) s \<noteq> None" by (simp add: server_next_def)
      then show ?thesis by blast
    qed
  next
    case False
    then obtain i where i: "lv_owner s = W_JoinClient i"
      using assms by (cases "lv_owner s") (simp_all add: stopping_def)
    show ?thesis
    proof (cases "i < length (lv_clients s) \<and> ct_pc (lv_clients s ! i) \<noteq> L_Done")
      case True
      then obtain r x where "client_next r (lv_clients s ! i) s = Some x" using client_can_step by blast
      with True i have "server_next (By_Client i r) s \<noteq> None" by (simp add: server_next_def)
      then show ?thesis by blast
    next
      case False
      with i have "server_next By_Owner s \<noteq> None" by (auto simp: server_next_def serve_owner_def)
      then show ?thesis by blast
    qed
  qed
  then show ?thesis by (auto intro: server_moves.moves)
qed

interpretation server_ends: ending_machine server_moves stopping stopping stop_rank stopped
proof
  show "stopping s'" if "stopping s" "server_moves s s'" for s s'
    using that(2)
  proof (rule server_movesE)
    fix m assume "server_next m s = Some s'"
    with that(1) stopping_next [OF that(1) this] server_inv_next [OF _ this] show ?thesis
      by (simp add: stopping_def)
  qed
  show "stop_rank s' < stop_rank s" if "stopping s" "server_moves s s'" for s s'
    using that by (auto elim!: server_movesE dest: stopping_next)
qed (auto intro: stopping_progress)

text \<open>
  A client that is connected holds \<open>stop\<close> up: as long as its thread does not move, because \<open>read\<close>
  has nothing to give, nobody clears the list it is in.
\<close>

lemma silent_client_next:
  assumes "server_inv s" "server_next m s = Some s'" "\<And>r. m \<noteq> By_Client i r"
    and "i < length (lv_clients s)" "ct_pc (lv_clients s ! i) \<noteq> L_Done"
  shows "i < length (lv_clients s') \<and> lv_clients s' ! i = lv_clients s ! i"
proof (cases m)
  case By_Owner
  have "j < length (lv_clients s)" if "lv_owner s = W_JoinClient j" for j
  proof (rule ccontr)
    assume "\<not> j < length (lv_clients s)"
    with that assms(1,4,5) show False by (simp add: server_inv_def joins_inv_def)
  qed
  with By_Owner assms(2,4) show ?thesis
    by (auto simp: server_next_def serve_owner_def serve_start_def serve_stop_def Let_def
        split: if_splits server_owner.splits list.splits server_op.splits)
next
  case (By_Accept n)
  with assms(2) obtain pc r s1 where "accept_next n pc s = Some (r, s1)" "lv_clients s' = lv_clients s1"
    by (auto simp: server_next_def split: if_splits accept_thread.splits)
  with assms(4) show ?thesis by (cases pc) (auto simp: nth_append split: if_splits)
next
  case (By_Client j r)
  with assms(3) have "j \<noteq> i" by blast
  with By_Client assms(2,4) show ?thesis
    by (auto simp: server_next_def client_next_props split: if_splits)
qed

lemma silent_client_run:
  assumes "server_run ms s = Some s'" "server_inv s" "\<And>r. By_Client i r \<notin> set ms"
    and "i < length (lv_clients s)" "ct_pc (lv_clients s ! i) \<noteq> L_Done"
  shows "server_inv s' \<and> i < length (lv_clients s')"
  using assms
proof (induction ms arbitrary: s)
  case (Cons m ms)
  from Cons.prems(1) obtain s1 where s1: "server_next m s = Some s1" "server_run ms s1 = Some s'"
    by (auto simp: bind_eq_Some_conv)
  have "m \<noteq> By_Client i r" for r using Cons.prems(3) [of r] by auto
  from silent_client_next [OF Cons.prems(2) s1(1) this Cons.prems(4,5)] show ?case
    using Cons.IH [OF s1(2) server_inv_next [OF Cons.prems(2) s1(1)]] Cons.prems(3,5) by simp
qed simp

lemma silent_client:
  assumes "server_run ms s = Some s'" "server_inv s" "\<And>r. By_Client i r \<notin> set ms"
    and "i < length (lv_clients s)" "ct_pc (lv_clients s ! i) \<noteq> L_Done"
  shows "\<not> stopped s'"
  using silent_client_run [OF assms] stopped_clients [of s'] by auto

text \<open>The callback gets the messages of a connection in order; at most the last one read is on its way.\<close>

lemma log_inv_conn:
  assumes "log_inv s"
  shows "\<exists>rest. of_conn k (lv_received s) = of_conn k (lv_called s) @ rest \<and> length rest \<le> 1"
proof (cases "k \<in> ct_conn ` set (lv_clients s)")
  case True
  then obtain c where "c \<in> set (lv_clients s)" "k = ct_conn c" by blast
  with assms show ?thesis
    by (cases "ct_pc c") (force simp: log_inv_def)+
next
  case False
  with assms show ?thesis by (simp add: log_inv_def)
qed

end
