(* ===== verification/ServerFrames.thy ===== *)
theory ServerFrames
  imports ServerThreads Framing
begin

text \<open>
  Framed messages through \<open>TcpServer\<close>: what a framer behind the callback gets out of the chunks
  that the client threads read, for every interleaving of the threads.
\<close>

section \<open>A framer for every connection\<close>

lemma of_conn_mem: "e \<in> set log \<Longrightarrow> snd e \<in> set (of_conn (fst e) log)"
  by (auto simp: of_conn_def)

lemma of_conn_fst: "m \<in> set (of_conn k log) \<Longrightarrow> (k, m) \<in> set log"
  by (auto simp: of_conn_def)

lemma called_received:
  assumes "log_inv s" "e \<in> set (lv_called s)"
  shows "e \<in> set (lv_received s)"
proof -
  obtain rest where "of_conn (fst e) (lv_received s) = of_conn (fst e) (lv_called s) @ rest"
    using log_inv_conn [OF assms(1)] by blast
  with of_conn_mem [OF assms(2)] have "snd e \<in> set (of_conn (fst e) (lv_received s))" by simp
  from of_conn_fst [OF this] show ?thesis by simp
qed

lemma called_sizes: "log_inv s \<Longrightarrow> c \<in> set (of_conn k (lv_called s)) \<Longrightarrow> length c \<le> 1024"
  using called_received [of s "(k, c)"] of_conn_fst [of c k "lv_called s"] by (fastforce simp: log_inv_def)

text \<open>With one connection the callback sees that connection's chunks and nothing else.\<close>

lemma single_conn_called:
  assumes "log_inv s" "lv_conns s \<le> 1"
  shows "map snd (lv_called s) = of_conn 0 (lv_called s)"
proof -
  have "fst e = 0" if "e \<in> set (lv_called s)" for e
    using called_received [OF assms(1) that] assms by (fastforce simp: log_inv_def)
  then have "filter (\<lambda>e. fst e = 0) (lv_called s) = lv_called s" by (simp add: filter_id_conv)
  then show ?thesis by (simp add: of_conn_def)
qed

lemma server_frames_conn:
  assumes "log_inv s" "concat (of_conn k (lv_received s)) @ more_bytes = fold (encode le) ps []"
    and "\<And>p. p \<in> set ps \<Longrightarrow> frame_fits p" "65536 + 1024 \<le> n"
  shows "\<exists>frames f. receive le (of_conn k (lv_called s)) (framer_new n) = Inr (frames, f)
    \<and> (\<exists>later. ps = frames @ later)
    \<and> (more_bytes = [] \<and> of_conn k (lv_called s) = of_conn k (lv_received s) \<longrightarrow> frames = ps \<and> fr_buffer f = [])"
proof -
  let ?chunks = "of_conn k (lv_called s)"
  have none: "split_frame_bytes le [] = None" by (simp add: split_frame_bytes_def nextFrame_def)
  obtain frames f where r: "receive le ?chunks (framer_new n) = Inr (frames, f)"
    using receive_no_overflow [of ?chunks 1024 "framer_new n" le] called_sizes [OF assms(1)] assms(4) none
    by (auto simp: framer_new_def)
  obtain rest where "of_conn k (lv_received s) = ?chunks @ rest"
    using log_inv_conn [OF assms(1)] by blast
  then have "concat ?chunks @ (concat rest @ more_bytes) = fold (encode le) ps []" using assms(2) by simp
  with r show ?thesis
    using receive_part [OF r _ assms(3)] receive_encoded [OF r _ none assms(3)] assms(2) by auto
qed

section \<open>One framer for all connections\<close>

text \<open>
  The callback gets the bytes without the connection they came from. Two clients, one message
  each: the first in two chunks, the second's between them.
\<close>

definition two_clients :: "server_mover list" where
  "two_clients = [By_Owner, By_Accept 3, By_Accept 0, By_Accept 0, By_Accept 0, By_Accept 0, By_Accept 4,
     By_Accept 0, By_Accept 0, By_Accept 5, By_Accept 0,
     By_Client 0 No_Data, By_Client 0 (Received [2, 0]), By_Client 0 No_Data, By_Client 0 No_Data,
     By_Client 1 No_Data, By_Client 1 (Received [1, 0, 67]), By_Client 1 No_Data, By_Client 1 No_Data,
     By_Client 0 No_Data, By_Client 0 (Received [65, 66]), By_Client 0 No_Data, By_Client 0 No_Data]"

lemma two_clients_run:
  "\<exists>s. server_run two_clients (live_new [Serve_Start]) = Some s \<and> lv_conns s = 2
    \<and> lv_called s = [(0, [2, 0]), (1, [1, 0, 67]), (0, [65, 66])] \<and> lv_received s = lv_called s"
  by (simp add: two_clients_def server_next_def serve_owner_def serve_start_def live_new_def client_next_def Let_def)

lemma two_clients_frames:
  "\<exists>f. receive True [[2, 0], [1, 0, 67], [65, 66]] (framer_new 66560) = Inr ([[1, 0]], f)"
  by (simp add: framer_new_def framer_push_def drain.simps nextFrame_def bytes_u16_def Let_def)

end
