(* ===== verification/ConnectionManager.thy ===== *)
theory ConnectionManager
  imports Pipelines
begin

text \<open>
  \<^verbatim>\<open>libs/networking/tcp/TcpConnectionManager.h\<close>: the connections, the receive threads and what their
  references refer to. \<open>startAll\<close> captures a reference to the \<open>unique_ptr\<close> inside the vector, so
  the model has the vector's capacity and the number of the allocation its elements are in: when
  \<open>emplace_back\<close> finds the vector full it moves the elements to a new allocation, and references
  into the old one dangle. How the capacity grows is up to the library: the argument \<open>grow\<close>, of
  which the standard says that it makes room.
\<close>

section \<open>State and operations\<close>

text \<open>A thread is recorded by the element its reference was made to: an allocation and an index.\<close>

record conn_manager =
  cm_clients :: "tcp_client list"
  cm_capacity :: nat
  cm_storage :: nat
  cm_threads :: "(nat \<times> nat) list"
  cm_running :: bool

definition conn_manager_new :: conn_manager where
  "conn_manager_new = \<lparr>cm_clients = [], cm_capacity = 0, cm_storage = 0, cm_threads = [], cm_running = False\<rparr>"

definition emplace_client :: "(nat \<Rightarrow> nat) \<Rightarrow> tcp_client \<Rightarrow> conn_manager \<Rightarrow> conn_manager" where
  "emplace_client grow client m =
     (if length (cm_clients m) = cm_capacity m
      then m\<lparr>cm_clients := cm_clients m @ [client], cm_capacity := grow (cm_capacity m),
             cm_storage := cm_storage m + 1\<rparr>
      else m\<lparr>cm_clients := cm_clients m @ [client]\<rparr>)"

text \<open>The client is made first; when that throws the manager is as before.\<close>

definition addConnection ::
  "(nat \<Rightarrow> nat) \<Rightarrow> tcp_env \<Rightarrow> string \<Rightarrow> u16 \<Rightarrow> conn_manager
    \<Rightarrow> (socket_error + conn_manager) \<times> sys_call list" where
  "addConnection grow env host port m =
     (case tcp_client_new env host port True 0 0 of
        (Inl err, calls) \<Rightarrow> (Inl err, calls)
      | (Inr client, calls) \<Rightarrow> (Inr (emplace_client grow client m), calls))"

definition startAll :: "conn_manager \<Rightarrow> conn_manager" where
  "startAll m = m\<lparr>cm_running := True,
     cm_threads := cm_threads m @ map (Pair (cm_storage m)) [0..<length (cm_clients m)]\<rparr>"

text \<open>\<open>None\<close>: a join does not return, its thread is blocked in \<open>recv\<close>. The destructor is \<open>stopAll\<close>.\<close>

definition stopAll :: "(nat \<times> nat \<Rightarrow> loop_end) \<Rightarrow> conn_manager \<Rightarrow> conn_manager option" where
  "stopAll thread_end m =
     (let m1 = m\<lparr>cm_running := False\<rparr>
      in if list_ex (\<lambda>t. thread_end t = Blocked) (cm_threads m1) then None
         else Some (m1\<lparr>cm_threads := []\<rparr>))"

text \<open>
  The body of a thread. When nothing is received it sleeps and tries again, on the same socket;
  \<open>isConnected\<close> only says that a descriptor was ever obtained.
\<close>

fun conn_loop ::
  "tcp_client \<Rightarrow> (nat \<Rightarrow> bool) \<Rightarrow> nat \<Rightarrow> recv_result list \<Rightarrow> u8 list list \<Rightarrow> loop_end \<times> u8 list list" where
  "conn_loop client running k [] msgs =
     (if running k \<and> isConnected client then (Blocked, msgs) else (Exited, msgs))"
| "conn_loop client running k (r # rs) msgs =
     (if running k \<and> isConnected client
      then (case r of
              No_Data \<Rightarrow> conn_loop client running (Suc k) rs msgs
            | Received bytes \<Rightarrow> conn_loop client running (Suc k) rs (msgs @ [bytes]))
      else (Exited, msgs))"

section \<open>The loop of a connection\<close>

lemma emplace_client_simps [simp]:
  "cm_clients (emplace_client grow c m) = cm_clients m @ [c]"
  "cm_threads (emplace_client grow c m) = cm_threads m"
  "cm_running (emplace_client grow c m) = cm_running m"
  by (simp_all add: emplace_client_def)

text \<open>No result of \<open>recv\<close> ends the loop of a connection: only the flag does.\<close>

lemma conn_loop_exits:
  assumes "isConnected client"
  shows "fst (conn_loop client running k rs msgs) = Exited \<longleftrightarrow> (\<exists>j \<le> length rs. \<not> running (k + j))"
proof -
  have "fst (conn_loop client running k rs msgs) = fst (accept_loop running k (map (\<lambda>_. 0) rs) cs)" for cs
  proof (induction rs arbitrary: k msgs cs)
    case (Cons r rs)
    then show ?case using assms by (cases r) auto
  qed (use assms in simp)
  then show ?thesis using accept_loop_exits [of running k "map (\<lambda>_. 0) rs"] by simp
qed

lemma conn_loop_msgs:
  "(\<And>j. running j) \<Longrightarrow> isConnected client \<Longrightarrow>
    conn_loop client running k rs msgs = (Blocked, msgs @ all_received rs)"
proof (induction rs arbitrary: k msgs)
  case (Cons r rs)
  then show ?case by (cases r) auto
qed simp

lemma addConnection_result:
  assumes "addConnection grow env host port m = (res, calls)"
  shows "case res of
      Inl err \<Rightarrow> open_fds calls = {}
    | Inr m' \<Rightarrow> (\<exists>c. cm_clients m' = cm_clients m @ [c] \<and> isConnected c \<and> open_fds calls = {tc_socket c})
        \<and> cm_threads m' = cm_threads m \<and> cm_running m' = cm_running m"
proof (cases "tcp_client_new env host port True 0 0")
  case (Pair r cs)
  with tcp_client_new_fds [OF Pair] assms show ?thesis
    by (auto simp: addConnection_def split: sum.splits)
qed


section \<open>References into the vector\<close>

text \<open>The connection a thread works on; \<open>None\<close> when its reference dangles.\<close>

definition thread_client :: "conn_manager \<Rightarrow> nat \<times> nat \<Rightarrow> tcp_client option" where
  "thread_client m t = (if fst t = cm_storage m then array_get (cm_clients m) (snd t) else None)"

definition refs_valid :: "conn_manager \<Rightarrow> bool" where
  "refs_valid m \<longleftrightarrow> length (cm_clients m) \<le> cm_capacity m \<and> (\<forall>t \<in> set (cm_threads m). thread_client m t \<noteq> None)"

lemma refs_valid_new: "refs_valid conn_manager_new"
  by (simp add: refs_valid_def conn_manager_new_def)

lemma refs_valid_startAll: "refs_valid m \<Longrightarrow> refs_valid (startAll m)"
  by (auto simp: refs_valid_def startAll_def thread_client_def array_get_def split: if_splits)

lemma refs_valid_stopAll: "refs_valid m \<Longrightarrow> stopAll thread_end m = Some m' \<Longrightarrow> refs_valid m'"
  by (auto simp: refs_valid_def stopAll_def Let_def split: if_splits)

text \<open>
  Adding a connection keeps the references of running threads exactly when the vector has room,
  or no thread runs.
\<close>

lemma emplace_client_refs:
  assumes "\<And>c. c < grow c" "refs_valid m"
  shows "refs_valid (emplace_client grow client m)
    \<longleftrightarrow> cm_threads m = [] \<or> length (cm_clients m) < cm_capacity m"
proof (cases "length (cm_clients m) = cm_capacity m")
  case True
  have old: "fst t = cm_storage m" if "t \<in> set (cm_threads m)" for t
    using assms(2) that by (auto simp: refs_valid_def thread_client_def split: if_splits)
  have "(\<forall>t \<in> set (cm_threads m). thread_client (emplace_client grow client m) t \<noteq> None)
      \<longleftrightarrow> cm_threads m = []"
    using old True by (cases "cm_threads m") (auto simp: thread_client_def emplace_client_def)
  moreover have "Suc (cm_capacity m) \<le> grow (cm_capacity m)" using assms(1) by (simp add: Suc_le_eq)
  ultimately show ?thesis using True by (simp add: refs_valid_def emplace_client_def)
next
  case False
  have "thread_client (emplace_client grow client m) t \<noteq> None" if "thread_client m t \<noteq> None" for t
    using that False by (auto simp: thread_client_def emplace_client_def array_get_def split: if_splits)
  with False assms(2) show ?thesis by (auto simp: refs_valid_def emplace_client_def)
qed

text \<open>All threads that ran lose their connection when the vector moves.\<close>

lemma emplace_client_dangles:
  assumes "refs_valid m" "length (cm_clients m) = cm_capacity m" "t \<in> set (cm_threads m)"
  shows "thread_client (emplace_client grow client m) t = None"
  using assms by (auto simp: refs_valid_def thread_client_def emplace_client_def split: if_splits)

text \<open>A second \<open>startAll\<close> starts a second thread on every connection.\<close>

lemma startAll_twice:
  assumes "i < length (cm_clients m)"
  shows "count_list (cm_threads (startAll m)) (cm_storage m, i) = count_list (cm_threads m) (cm_storage m, i) + 1"
proof -
  have "count_list (map (Pair s) [0..<n]) (s, i) = 1" if "i < n" for s :: nat and n
    using that by (induction n) (auto simp: count_list_0_iff less_Suc_eq)
  with assms show ?thesis by (simp add: startAll_def)
qed

text \<open>
  Calls in a row, where \<open>Add\<close> is an \<open>addConnection\<close> that succeeds and every thread ends when it is
  told to. When connections are added only while no thread runs, no reference dangles.
\<close>

datatype cm_op = Add tcp_client | Start_All | Stop_All

fun cm_run :: "(nat \<Rightarrow> nat) \<Rightarrow> cm_op list \<Rightarrow> conn_manager \<Rightarrow> conn_manager option" where
  "cm_run grow [] m = Some m"
| "cm_run grow (Add c # ops) m = cm_run grow ops (emplace_client grow c m)"
| "cm_run grow (Start_All # ops) m = cm_run grow ops (startAll m)"
| "cm_run grow (Stop_All # ops) m = Option.bind (stopAll (\<lambda>t. Exited) m) (cm_run grow ops)"

fun quiet_adds :: "bool \<Rightarrow> cm_op list \<Rightarrow> bool" where
  "quiet_adds started [] = True"
| "quiet_adds started (Add c # ops) = (\<not> started \<and> quiet_adds started ops)"
| "quiet_adds started (Start_All # ops) = quiet_adds True ops"
| "quiet_adds started (Stop_All # ops) = quiet_adds False ops"

lemma cm_run_valid:
  assumes "\<And>c. c < grow c" "refs_valid m" "quiet_adds started ops" "\<not> started \<Longrightarrow> cm_threads m = []"
  shows "\<exists>m'. cm_run grow ops m = Some m' \<and> refs_valid m'"
  using assms
proof (induction ops arbitrary: m started)
  case (Cons op ops)
  show ?case
  proof (cases op)
    case (Add c)
    then have "cm_threads m = []" "quiet_adds started ops" using Cons.prems(3,4) by auto
    moreover have "refs_valid (emplace_client grow c m)"
      using emplace_client_refs [OF assms(1) Cons.prems(2), of c] \<open>cm_threads m = []\<close> by simp
    ultimately show ?thesis using Cons.IH [OF assms(1), of "emplace_client grow c m" started] Add by simp
  next
    case Start_All
    then have "quiet_adds True ops" using Cons.prems(3) by simp
    from Cons.IH [OF assms(1) refs_valid_startAll [OF Cons.prems(2)] this] Start_All show ?thesis by simp
  next
    case Stop_All
    obtain m1 where m1: "stopAll (\<lambda>t. Exited) m = Some m1" "cm_threads m1 = []"
      by (auto simp: stopAll_def list_ex_iff Let_def)
    have "quiet_adds False ops" using Cons.prems(3) Stop_All by simp
    from Cons.IH [OF assms(1) refs_valid_stopAll [OF Cons.prems(2) m1(1)] this] m1 Stop_All
    show ?thesis by simp
  qed
qed simp

end
