(* ===== verification/ManagerThreads.thy ===== *)
theory ManagerThreads
  imports ConnectionManager ServerThreads
begin

text \<open>
  The object \<open>TcpConnectionManager\<close> with its threads: the owner, which calls \<open>addConnection\<close>,
  \<open>startAll\<close> and \<open>stopAll\<close> (the destructor is \<open>stopAll\<close>), and the receive threads. One step is one
  access of the flag, one use of the captured reference, one system call, one join, or the
  beginning or the end of a callback; the threads move in any order. \<open>startAll\<close> makes one thread in
  a step, and that thread can move before the next is made.

  To use a reference that dangles is undefined; \<open>lm_fault\<close> records it, and nothing is said of what
  comes after. A call of \<open>addConnection\<close> that throws changes nothing and is left out.
\<close>

section \<open>State\<close>

text \<open>
  Where the body of a thread is. \<open>M_Connected\<close> and \<open>M_Enter\<close> use the reference, for \<open>isConnected\<close> and
  for the call of \<open>recv\<close>; inside the call (\<open>M_InRecv\<close>) only the client is used, which does not move.
\<close>

datatype manager_pc =
  M_Check | M_Connected | M_Enter | M_InRecv | M_Call "u8 list" | M_InCall | M_Sleep | M_Done

datatype manager_owner = M_Ready | M_Starting nat | M_Joining nat

text \<open>The thread \<open>i\<close> has the reference \<open>cm_threads ! i\<close> and the program counter \<open>lm_pcs ! i\<close>.\<close>

record live_manager =
  lm_manager :: conn_manager
  lm_pcs :: "manager_pc list"
  lm_owner :: manager_owner
  lm_ops :: "cm_op list"
  lm_fault :: bool
  lm_received :: "(nat \<times> u8 list) list"
  lm_called :: "(nat \<times> u8 list) list"

definition live_manager_new :: "cm_op list \<Rightarrow> live_manager" where
  "live_manager_new ops = \<lparr>lm_manager = conn_manager_new, lm_pcs = [], lm_owner = M_Ready, lm_ops = ops,
     lm_fault = False, lm_received = [], lm_called = []\<rparr>"

section \<open>Steps\<close>

text \<open>A step of a thread, \<open>r\<close> being what \<open>recv\<close> gives.\<close>

definition reader_next :: "recv_result \<Rightarrow> nat \<times> nat \<Rightarrow> manager_pc \<Rightarrow> live_manager \<Rightarrow> (manager_pc \<times> live_manager) option" where
  "reader_next r ref pc s =
     (case pc of
        M_Check \<Rightarrow> Some (if cm_running (lm_manager s) then M_Connected else M_Done, s)
      | M_Connected \<Rightarrow> (case thread_client (lm_manager s) ref of
            None \<Rightarrow> Some (M_Connected, s\<lparr>lm_fault := True\<rparr>)
          | Some client \<Rightarrow> Some (if isConnected client then M_Enter else M_Done, s))
      | M_Enter \<Rightarrow> (case thread_client (lm_manager s) ref of
            None \<Rightarrow> Some (M_Enter, s\<lparr>lm_fault := True\<rparr>)
          | Some client \<Rightarrow> Some (M_InRecv, s))
      | M_InRecv \<Rightarrow> (case r of
            No_Data \<Rightarrow> Some (M_Sleep, s)
          | Received bytes \<Rightarrow>
              (if bytes = [] \<or> length bytes > 4096 then None
               else Some (M_Call bytes, s\<lparr>lm_received := lm_received s @ [(snd ref, bytes)]\<rparr>)))
      | M_Call message \<Rightarrow> Some (M_InCall, s\<lparr>lm_called := lm_called s @ [(snd ref, message)]\<rparr>)
      | M_InCall \<Rightarrow> Some (M_Check, s)
      | M_Sleep \<Rightarrow> Some (M_Check, s)
      | M_Done \<Rightarrow> None)"

definition start_reader :: "nat \<Rightarrow> live_manager \<Rightarrow> live_manager" where
  "start_reader i s =
     (let m = lm_manager s
      in s\<lparr>lm_manager := m\<lparr>cm_threads := cm_threads m @ [(cm_storage m, i)]\<rparr>,
           lm_pcs := lm_pcs s @ [M_Check], lm_owner := M_Starting (Suc i)\<rparr>)"

definition manager_call :: "(nat \<Rightarrow> nat) \<Rightarrow> cm_op \<Rightarrow> live_manager \<Rightarrow> live_manager" where
  "manager_call grow op s =
     (case op of
        Add client \<Rightarrow> s\<lparr>lm_manager := emplace_client grow client (lm_manager s)\<rparr>
      | Start_All \<Rightarrow> s\<lparr>lm_manager := (lm_manager s)\<lparr>cm_running := True\<rparr>, lm_owner := M_Starting 0\<rparr>
      | Stop_All \<Rightarrow> s\<lparr>lm_manager := (lm_manager s)\<lparr>cm_running := False\<rparr>, lm_owner := M_Joining 0\<rparr>)"

definition manager_owner_next :: "(nat \<Rightarrow> nat) \<Rightarrow> live_manager \<Rightarrow> live_manager option" where
  "manager_owner_next grow s =
     (case lm_owner s of
        M_Ready \<Rightarrow> (case lm_ops s of
            [] \<Rightarrow> None
          | op # ops \<Rightarrow> Some (manager_call grow op (s\<lparr>lm_ops := ops\<rparr>)))
      | M_Starting i \<Rightarrow>
          Some (if i < length (cm_clients (lm_manager s)) then start_reader i s else s\<lparr>lm_owner := M_Ready\<rparr>)
      | M_Joining i \<Rightarrow>
          (if i < length (lm_pcs s)
           then (if lm_pcs s ! i = M_Done then Some (s\<lparr>lm_owner := M_Joining (Suc i)\<rparr>) else None)
           else Some (s\<lparr>lm_manager := (lm_manager s)\<lparr>cm_threads := []\<rparr>, lm_pcs := [], lm_owner := M_Ready\<rparr>)))"

datatype manager_mover = Owner_Moves | Reader_Moves nat recv_result

definition manager_next :: "(nat \<Rightarrow> nat) \<Rightarrow> manager_mover \<Rightarrow> live_manager \<Rightarrow> live_manager option" where
  "manager_next grow m s =
     (if lm_fault s then None
      else case m of
        Owner_Moves \<Rightarrow> manager_owner_next grow s
      | Reader_Moves i r \<Rightarrow>
          (if i < length (lm_pcs s)
           then map_option (\<lambda>(pc, s'). s'\<lparr>lm_pcs := (lm_pcs s')[i := pc]\<rparr>)
                  (reader_next r (cm_threads (lm_manager s) ! i) (lm_pcs s ! i) s)
           else None))"

inductive manager_moves :: "(nat \<Rightarrow> nat) \<Rightarrow> live_manager \<Rightarrow> live_manager \<Rightarrow> bool" for grow where
  manager_moves: "manager_next grow m s = Some s' \<Longrightarrow> manager_moves grow s s'"

inductive_cases manager_movesE: "manager_moves grow s s'"

fun manager_run :: "(nat \<Rightarrow> nat) \<Rightarrow> manager_mover list \<Rightarrow> live_manager \<Rightarrow> live_manager option" where
  "manager_run grow [] s = Some s"
| "manager_run grow (m # ms) s = Option.bind (manager_next grow m s) (manager_run grow ms)"

lemma manager_run_steps: "manager_run grow ms s = Some s' \<Longrightarrow> (manager_moves grow)\<^sup>*\<^sup>* s s'"
proof (induction ms arbitrary: s)
  case (Cons m ms)
  then obtain s1 where "manager_next grow m s = Some s1" "manager_run grow ms s1 = Some s'"
    by (auto simp: bind_eq_Some_conv)
  with Cons.IH show ?case by (meson manager_moves.manager_moves converse_rtranclp_into_rtranclp)
qed simp

text \<open>What moved, as cases.\<close>

lemma manager_next_cases:
  assumes "manager_next grow m s = Some s'"
  obtains (Owner) "\<not> lm_fault s" "manager_owner_next grow s = Some s'"
  | (Reader) i r pc s1 where "\<not> lm_fault s" "i < length (lm_pcs s)"
      "reader_next r (cm_threads (lm_manager s) ! i) (lm_pcs s ! i) s = Some (pc, s1)"
      "s' = s1\<lparr>lm_pcs := (lm_pcs s1)[i := pc]\<rparr>"
  using assms by (auto simp: manager_next_def split: if_splits manager_mover.splits)

lemma reader_next_keeps:
  assumes "reader_next r ref pc s = Some (pc', s')"
  shows "lm_manager s' = lm_manager s" "lm_pcs s' = lm_pcs s" "lm_owner s' = lm_owner s" "lm_ops s' = lm_ops s"
    "pc \<noteq> M_Done"
  using assms
  by (auto simp: reader_next_def split: manager_pc.splits option.splits recv_result.splits if_splits)

section \<open>The owner and its threads\<close>

definition mgr_owner_inv :: "live_manager \<Rightarrow> bool" where
  "mgr_owner_inv s \<longleftrightarrow> length (lm_pcs s) = length (cm_threads (lm_manager s))
     \<and> (case lm_owner s of
          M_Ready \<Rightarrow> \<not> cm_running (lm_manager s) \<longrightarrow> lm_pcs s = []
        | M_Starting i \<Rightarrow> cm_running (lm_manager s)
        | M_Joining i \<Rightarrow> \<not> cm_running (lm_manager s) \<and> (\<forall>j < i. j < length (lm_pcs s) \<longrightarrow> lm_pcs s ! j = M_Done))"

lemma mgr_owner_inv_next:
  assumes "mgr_owner_inv s" "manager_next grow m s = Some s'"
  shows "mgr_owner_inv s'"
  using assms(2)
proof (cases rule: manager_next_cases)
  case Owner
  then show ?thesis using assms(1)
    by (auto simp: mgr_owner_inv_def manager_owner_next_def manager_call_def start_reader_def Let_def less_Suc_eq
        split: manager_owner.splits list.splits cm_op.splits if_splits)
next
  case (Reader i r pc s1)
  have "lm_pcs s ! i \<noteq> M_Done" using reader_next_keeps(5) [OF Reader(3)] .
  then show ?thesis using assms(1) reader_next_keeps [OF Reader(3)] Reader(2,4)
    by (auto simp: mgr_owner_inv_def nth_list_update split: manager_owner.splits)
qed

subsection \<open>References\<close>

definition mgr_refs_inv :: "live_manager \<Rightarrow> bool" where
  "mgr_refs_inv s \<longleftrightarrow> \<not> lm_fault s \<and> refs_valid (lm_manager s) \<and> quiet_adds (cm_running (lm_manager s)) (lm_ops s)"

lemma refs_valid_cong:
  assumes "refs_valid m" "cm_clients m' = cm_clients m" "cm_capacity m' = cm_capacity m" "cm_storage m' = cm_storage m"
    and "set (cm_threads m') \<subseteq> set (cm_threads m) \<union> {(cm_storage m, i) | i. i < length (cm_clients m)}"
  shows "refs_valid m'"
proof -
  have same: "thread_client m' t = thread_client m t" for t using assms(2,4) by (simp add: thread_client_def)
  have "thread_client m (cm_storage m, i) \<noteq> None" if "i < length (cm_clients m)" for i
    using that by (simp add: thread_client_def array_get_def)
  with assms(1,2,3,5) same show ?thesis by (auto simp: refs_valid_def)
qed

lemma mgr_refs_inv_owner:
  assumes "\<And>c. c < grow c" "mgr_owner_inv s" "mgr_refs_inv s" "manager_owner_next grow s = Some s'"
  shows "mgr_refs_inv s'"
proof (cases "lm_owner s")
  case M_Ready
  then obtain op ops where ops: "lm_ops s = op # ops" "s' = manager_call grow op (s\<lparr>lm_ops := ops\<rparr>)"
    using assms(4) by (auto simp: manager_owner_next_def split: list.splits)
  have valid: "refs_valid (lm_manager s)" "quiet_adds (cm_running (lm_manager s)) (op # ops)" "\<not> lm_fault s"
    using assms(3) ops(1) by (simp_all add: mgr_refs_inv_def)
  show ?thesis
  proof (cases op)
    case (Add c)
    then have "\<not> cm_running (lm_manager s)" using valid(2) by simp
    then have "cm_threads (lm_manager s) = []" using assms(2) M_Ready by (auto simp: mgr_owner_inv_def)
    then have "refs_valid (emplace_client grow c (lm_manager s))"
      using emplace_client_refs [OF assms(1) valid(1)] by simp
    then show ?thesis using Add valid(2,3) ops(2) by (auto simp: mgr_refs_inv_def manager_call_def)
  next
    case Start_All
    have "refs_valid ((lm_manager s)\<lparr>cm_running := True\<rparr>)" by (rule refs_valid_cong [OF valid(1)]) auto
    then show ?thesis using Start_All valid(2,3) ops(2) by (simp add: mgr_refs_inv_def manager_call_def)
  next
    case Stop_All
    have "refs_valid ((lm_manager s)\<lparr>cm_running := False\<rparr>)" by (rule refs_valid_cong [OF valid(1)]) auto
    then show ?thesis using Stop_All valid(2,3) ops(2) by (simp add: mgr_refs_inv_def manager_call_def)
  qed
next
  case (M_Starting i)
  have "refs_valid ((lm_manager s)\<lparr>cm_threads := cm_threads (lm_manager s) @ [(cm_storage (lm_manager s), i)]\<rparr>)"
    if "i < length (cm_clients (lm_manager s))"
    by (rule refs_valid_cong [of "lm_manager s"]) (use assms(3) that in \<open>auto simp: mgr_refs_inv_def\<close>)
  with M_Starting assms(3,4) show ?thesis
    by (auto simp: manager_owner_next_def start_reader_def mgr_refs_inv_def Let_def split: if_splits)
next
  case (M_Joining i)
  have "refs_valid ((lm_manager s)\<lparr>cm_threads := []\<rparr>)"
    by (rule refs_valid_cong [of "lm_manager s"]) (use assms(3) in \<open>auto simp: mgr_refs_inv_def\<close>)
  with M_Joining assms(3,4) show ?thesis
    by (auto simp: manager_owner_next_def mgr_refs_inv_def split: if_splits)
qed

lemma mgr_refs_inv_next:
  assumes "\<And>c. c < grow c" "mgr_owner_inv s" "mgr_refs_inv s" "manager_next grow m s = Some s'"
  shows "mgr_refs_inv s'"
  using assms(4)
proof (cases rule: manager_next_cases)
  case Owner
  then show ?thesis using mgr_refs_inv_owner assms(1-3) by blast
next
  case (Reader i r pc s1)
  have "cm_threads (lm_manager s) ! i \<in> set (cm_threads (lm_manager s))"
    using Reader(2) assms(2) by (simp add: mgr_owner_inv_def)
  then have "thread_client (lm_manager s) (cm_threads (lm_manager s) ! i) \<noteq> None"
    using assms(3) by (auto simp: mgr_refs_inv_def refs_valid_def)
  then have "lm_fault s1 = lm_fault s" using Reader(3)
    by (auto simp: reader_next_def split: manager_pc.splits recv_result.splits if_splits)
  then show ?thesis using assms(3) reader_next_keeps [OF Reader(3)] Reader(4) by (simp add: mgr_refs_inv_def)
qed

interpretation quiet_manager: machine "manager_moves grow" "\<lambda>s. \<exists>ops. quiet_adds False ops \<and> s = live_manager_new ops"
  "\<lambda>s. (\<forall>c. c < grow c) \<longrightarrow> mgr_owner_inv s \<and> mgr_refs_inv s" for grow
proof unfold_locales
  fix s assume "\<exists>ops. quiet_adds False ops \<and> s = live_manager_new ops"
  then show "(\<forall>c. c < grow c) \<longrightarrow> mgr_owner_inv s \<and> mgr_refs_inv s"
    using refs_valid_new by (auto simp: mgr_owner_inv_def mgr_refs_inv_def live_manager_new_def conn_manager_new_def)
next
  fix s s' assume "(\<forall>c. c < grow c) \<longrightarrow> mgr_owner_inv s \<and> mgr_refs_inv s" "manager_moves grow s s'"
  then show "(\<forall>c. c < grow c) \<longrightarrow> mgr_owner_inv s' \<and> mgr_refs_inv s'"
    using mgr_refs_inv_next mgr_owner_inv_next by (auto elim!: manager_movesE)
qed

subsection \<open>One thread for a connection\<close>

text \<open>No \<open>startAll\<close> follows a \<open>startAll\<close> without a \<open>stopAll\<close> between.\<close>

fun single_starts :: "bool \<Rightarrow> cm_op list \<Rightarrow> bool" where
  "single_starts started [] = True"
| "single_starts started (Add c # ops) = single_starts started ops"
| "single_starts started (Start_All # ops) = (\<not> started \<and> single_starts True ops)"
| "single_starts started (Stop_All # ops) = single_starts False ops"

abbreviation conns_of :: "live_manager \<Rightarrow> nat list" where
  "conns_of s \<equiv> map snd (cm_threads (lm_manager s))"

fun unhandled :: "manager_pc \<Rightarrow> u8 list list" where
  "unhandled (M_Call message) = [message]"
| "unhandled _ = []"

definition mgr_order_inv :: "live_manager \<Rightarrow> bool" where
  "mgr_order_inv s \<longleftrightarrow> single_starts (cm_running (lm_manager s)) (lm_ops s) \<and> distinct (conns_of s)
     \<and> (\<forall>i. lm_owner s = M_Starting i \<longrightarrow> set (conns_of s) \<subseteq> {..<i})
     \<and> (\<forall>j < length (lm_pcs s). of_conn (conns_of s ! j) (lm_received s)
          = of_conn (conns_of s ! j) (lm_called s) @ unhandled (lm_pcs s ! j))
     \<and> (\<forall>k. k \<notin> set (conns_of s) \<longrightarrow> of_conn k (lm_received s) = of_conn k (lm_called s))"

text \<open>What a step of a reader adds to the two histories.\<close>

lemma reader_next_log:
  assumes "reader_next r ref pc s = Some (pc', s')"
  shows "\<exists>ms cs. (\<forall>k. of_conn k (lm_received s') = of_conn k (lm_received s) @ (if snd ref = k then ms else []))
    \<and> (\<forall>k. of_conn k (lm_called s') = of_conn k (lm_called s) @ (if snd ref = k then cs else []))
    \<and> unhandled pc @ ms = cs @ unhandled pc'"
proof (cases pc)
  case M_InRecv
  show ?thesis
  proof (cases r)
    case No_Data
    with M_InRecv assms show ?thesis by (intro exI [of _ "[]"]) (auto simp: reader_next_def)
  next
    case (Received bytes)
    with M_InRecv assms show ?thesis
      by (intro exI [of _ "[bytes]"] exI [of _ "[]"]) (auto simp: reader_next_def of_conn_snoc split: if_splits)
  qed
next
  case (M_Call m)
  with assms show ?thesis
    by (intro exI [of _ "[]"] exI [of _ "[m]"]) (auto simp: reader_next_def of_conn_snoc)
qed (use assms in \<open>auto simp: reader_next_def split: option.splits if_splits intro!: exI [of _ "[]"]\<close>)

lemma mgr_order_inv_reader:
  assumes "mgr_order_inv s" "length (lm_pcs s) = length (cm_threads (lm_manager s))" "i < length (lm_pcs s)"
    and "reader_next r (cm_threads (lm_manager s) ! i) (lm_pcs s ! i) s = Some (pc, s1)"
  shows "mgr_order_inv (s1\<lparr>lm_pcs := (lm_pcs s1)[i := pc]\<rparr>)"
proof -
  let ?k = "conns_of s ! i"
  have k: "snd (cm_threads (lm_manager s) ! i) = ?k" using assms(2,3) by simp
  obtain ms cs where log: "\<And>k. of_conn k (lm_received s1) = of_conn k (lm_received s) @ (if ?k = k then ms else [])"
    "\<And>k. of_conn k (lm_called s1) = of_conn k (lm_called s) @ (if ?k = k then cs else [])"
    "unhandled (lm_pcs s ! i) @ ms = cs @ unhandled pc"
    using reader_next_log [OF assms(4)] unfolding k by blast
  note keeps = reader_next_keeps [OF assms(4)]
  have "distinct (conns_of s)" using assms(1) by (simp add: mgr_order_inv_def)
  then have neq: "?k \<noteq> conns_of s ! j" if "j < length (lm_pcs s)" "j \<noteq> i" for j
    using that assms(2,3) nth_eq_iff_index_eq [of "conns_of s" i j] by auto
  have "of_conn (conns_of s ! j) (lm_received s1)
      = of_conn (conns_of s ! j) (lm_called s1) @ unhandled ((lm_pcs s)[i := pc] ! j)"
    if j: "j < length (lm_pcs s)" for j
  proof (cases "j = i")
    case True
    then have "of_conn ?k (lm_received s) = of_conn ?k (lm_called s) @ unhandled (lm_pcs s ! i)"
      using assms(1,3) by (simp add: mgr_order_inv_def)
    then show ?thesis using True assms(3) log by simp
  next
    case False
    with neq [OF j] show ?thesis using assms(1) j log(1,2) by (simp add: mgr_order_inv_def)
  qed
  moreover have "of_conn k (lm_received s1) = of_conn k (lm_called s1)" if "k \<notin> set (conns_of s)" for k
  proof -
    have "?k \<in> set (conns_of s)" using assms(2,3) by (intro nth_mem) simp
    with that have "?k \<noteq> k" by blast
    with that show ?thesis using assms(1) log(1,2) by (simp add: mgr_order_inv_def)
  qed
  ultimately show ?thesis using assms(1) keeps by (simp add: mgr_order_inv_def)
qed

lemma mgr_order_inv_owner:
  assumes "mgr_owner_inv s" "mgr_order_inv s" "manager_owner_next grow s = Some s'"
  shows "mgr_order_inv s'"
proof (cases "lm_owner s")
  case M_Ready
  then obtain op ops where ops: "lm_ops s = op # ops" "s' = manager_call grow op (s\<lparr>lm_ops := ops\<rparr>)"
    using assms(3) by (auto simp: manager_owner_next_def split: list.splits)
  show ?thesis
  proof (cases op)
    case Start_All
    then have "\<not> cm_running (lm_manager s)" using assms(2) ops(1) by (simp add: mgr_order_inv_def)
    then have "cm_threads (lm_manager s) = []" using assms(1) M_Ready by (auto simp: mgr_owner_inv_def)
    with Start_All show ?thesis using assms(2) ops by (auto simp: mgr_order_inv_def manager_call_def)
  qed (use assms(2) ops M_Ready in \<open>auto simp: mgr_order_inv_def manager_call_def\<close>)
next
  case (M_Starting i)
  show ?thesis
  proof (cases "i < length (cm_clients (lm_manager s))")
    case True
    then have s': "s' = start_reader i s" using assms(3) M_Starting by (simp add: manager_owner_next_def)
    have len: "length (lm_pcs s) = length (cm_threads (lm_manager s))" using assms(1) by (simp add: mgr_owner_inv_def)
    have new: "i \<notin> set (conns_of s)" "set (conns_of s) \<subseteq> {..<Suc i}"
      using assms(2) M_Starting by (fastforce simp: mgr_order_inv_def)+
    then have "of_conn i (lm_received s) = of_conn i (lm_called s)" using assms(2) by (simp add: mgr_order_inv_def)
    then show ?thesis using new assms(2) len
      by (auto simp: mgr_order_inv_def s' start_reader_def Let_def nth_append less_Suc_eq)
  next
    case False
    then show ?thesis using assms(2,3) M_Starting by (auto simp: manager_owner_next_def mgr_order_inv_def)
  qed
next
  case (M_Joining i)
  show ?thesis
  proof (cases "i < length (lm_pcs s)")
    case True
    then show ?thesis using assms(2,3) M_Joining
      by (auto simp: manager_owner_next_def mgr_order_inv_def split: if_splits)
  next
    case False
    then have s': "s' = s\<lparr>lm_manager := (lm_manager s)\<lparr>cm_threads := []\<rparr>, lm_pcs := [], lm_owner := M_Ready\<rparr>"
      using assms(3) M_Joining by (simp add: manager_owner_next_def)
    have fin: "lm_pcs s ! j = M_Done" if "j < length (lm_pcs s)" for j
      using assms(1) M_Joining False that by (auto simp: mgr_owner_inv_def)
    have "of_conn k (lm_received s) = of_conn k (lm_called s)" for k
    proof (cases "k \<in> set (conns_of s)")
      case True
      then obtain j where "j < length (conns_of s)" "conns_of s ! j = k" by (metis in_set_conv_nth)
      then have "j < length (lm_pcs s)" "conns_of s ! j = k" using assms(1) by (simp_all add: mgr_owner_inv_def)
      with fin [of j] assms(2) show ?thesis by (fastforce simp: mgr_order_inv_def)
    next
      case False
      with assms(2) show ?thesis by (simp add: mgr_order_inv_def)
    qed
    then show ?thesis using assms(2) by (simp add: mgr_order_inv_def s')
  qed
qed

interpretation ordered_manager: machine "manager_moves grow" "\<lambda>s. \<exists>ops. single_starts False ops \<and> s = live_manager_new ops"
  "\<lambda>s. mgr_owner_inv s \<and> mgr_order_inv s" for grow
proof unfold_locales
  fix s assume "\<exists>ops. single_starts False ops \<and> s = live_manager_new ops"
  then show "mgr_owner_inv s \<and> mgr_order_inv s"
    by (auto simp: mgr_owner_inv_def mgr_order_inv_def live_manager_new_def conn_manager_new_def of_conn_def)
next
  fix s s' assume inv: "mgr_owner_inv s \<and> mgr_order_inv s" and "manager_moves grow s s'"
  from this(2) obtain m where m: "manager_next grow m s = Some s'" by (rule manager_movesE)
  then have "mgr_order_inv s'"
  proof (cases rule: manager_next_cases)
    case Owner
    then show ?thesis using mgr_order_inv_owner inv by blast
  next
    case (Reader i r pc s1)
    then show ?thesis using mgr_order_inv_reader inv by (auto simp: mgr_owner_inv_def)
  qed
  with mgr_owner_inv_next [OF _ m] inv show "mgr_owner_inv s' \<and> mgr_order_inv s'" by blast
qed

text \<open>What the callback of a connection has got is what was received but for the last message.\<close>

lemma mgr_order_inv_conn:
  assumes "mgr_owner_inv s" "mgr_order_inv s"
  shows "\<exists>rest. of_conn k (lm_received s) = of_conn k (lm_called s) @ rest \<and> length rest \<le> 1"
proof (cases "k \<in> set (conns_of s)")
  case True
  then obtain j where "j < length (conns_of s)" "conns_of s ! j = k" by (metis in_set_conv_nth)
  then have "of_conn k (lm_received s) = of_conn k (lm_called s) @ unhandled (lm_pcs s ! j)"
    using assms by (fastforce simp: mgr_order_inv_def mgr_owner_inv_def)
  then show ?thesis by (cases "lm_pcs s ! j") auto
next
  case False
  with assms(2) show ?thesis by (simp add: mgr_order_inv_def)
qed

section \<open>What goes wrong otherwise\<close>

text \<open>A vector that doubles. A connection added while a thread runs moves the elements it refers to.\<close>

definition doubling :: "nat \<Rightarrow> nat" where
  "doubling c = (if c = 0 then 1 else 2 * c)"

lemma doubling_grows: "c < doubling c"
  by (simp add: doubling_def)

definition client_at :: "int \<Rightarrow> tcp_client" where
  "client_at fd = \<lparr>tc_socket = fd, tc_host = ''h'', tc_port = 80\<rparr>"

lemmas manager_eval = manager_next_def manager_owner_next_def manager_call_def start_reader_def reader_next_def
  live_manager_new_def conn_manager_new_def emplace_client_def thread_client_def array_get_def isConnected_def
  doubling_def client_at_def Let_def

lemma late_connection_faults:
  "\<exists>s. (manager_moves doubling)\<^sup>*\<^sup>* (live_manager_new [Add (client_at 3), Start_All, Add (client_at 4)]) s \<and> lm_fault s"
proof -
  let ?ms = "[Owner_Moves, Owner_Moves, Owner_Moves, Owner_Moves, Reader_Moves 0 No_Data, Owner_Moves,
    Reader_Moves 0 No_Data]"
  have "\<exists>s. manager_run doubling ?ms (live_manager_new [Add (client_at 3), Start_All, Add (client_at 4)]) = Some s
    \<and> lm_fault s" by (simp add: manager_eval)
  then show ?thesis using manager_run_steps by blast
qed

text \<open>Two threads on one connection: the second hands its message on before the first.\<close>

lemma second_start_reorders:
  "\<exists>s. (manager_moves doubling)\<^sup>*\<^sup>* (live_manager_new [Add (client_at 3), Start_All, Start_All]) s
    \<and> of_conn 0 (lm_received s) = [[1], [2]] \<and> of_conn 0 (lm_called s) = [[2], [1]]"
proof -
  let ?to_recv = "\<lambda>i. [Reader_Moves i No_Data, Reader_Moves i No_Data, Reader_Moves i No_Data]"
  let ?ms = "[Owner_Moves, Owner_Moves, Owner_Moves, Owner_Moves, Owner_Moves, Owner_Moves] @ ?to_recv 0 @ ?to_recv 1
    @ [Reader_Moves 0 (Received [1]), Reader_Moves 1 (Received [2]), Reader_Moves 1 No_Data, Reader_Moves 0 No_Data]"
  have "\<exists>s. manager_run doubling ?ms (live_manager_new [Add (client_at 3), Start_All, Start_All]) = Some s
    \<and> of_conn 0 (lm_received s) = [[1], [2]] \<and> of_conn 0 (lm_called s) = [[2], [1]]"
    by (simp add: manager_eval of_conn_def)
  then show ?thesis using manager_run_steps by blast
qed

section \<open>Stopping\<close>

fun reader_rank :: "manager_pc \<Rightarrow> nat" where
  "reader_rank M_Connected = 6"
| "reader_rank M_Enter = 5"
| "reader_rank M_InRecv = 4"
| "reader_rank (M_Call _) = 3"
| "reader_rank M_InCall = 2"
| "reader_rank M_Sleep = 2"
| "reader_rank M_Check = 1"
| "reader_rank M_Done = 0"

fun joiner_rank :: "manager_owner \<Rightarrow> nat \<Rightarrow> nat" where
  "joiner_rank (M_Joining i) n = Suc n - i"
| "joiner_rank _ n = 0"

definition manager_rank :: "live_manager \<Rightarrow> nat" where
  "manager_rank s = sum_list (map reader_rank (lm_pcs s)) + joiner_rank (lm_owner s) (length (lm_pcs s))"

definition manager_stopped :: "live_manager \<Rightarrow> bool" where
  "manager_stopped s \<longleftrightarrow> lm_owner s = M_Ready \<and> lm_pcs s = []"

text \<open>The last call of the owner is a \<open>stopAll\<close> under way, or it has returned.\<close>

definition manager_stopping :: "live_manager \<Rightarrow> bool" where
  "manager_stopping s \<longleftrightarrow> mgr_owner_inv s \<and> mgr_refs_inv s \<and> lm_ops s = []
     \<and> (manager_stopped s \<or> (\<exists>i \<le> length (lm_pcs s). lm_owner s = M_Joining i))"

lemma reader_next_rank:
  assumes "reader_next r ref pc s = Some (pc', s')" "\<not> cm_running (lm_manager s)" "\<not> lm_fault s'"
  shows "reader_rank pc' < reader_rank pc"
  using assms by (auto simp: reader_next_def split: manager_pc.splits option.splits recv_result.splits if_splits)

lemma manager_stopping_next:
  assumes "\<And>c. c < grow c" "manager_stopping s" "manager_next grow m s = Some s'"
  shows "manager_stopping s' \<and> manager_rank s' < manager_rank s"
proof -
  have inv: "mgr_owner_inv s'" "mgr_refs_inv s'"
    using mgr_owner_inv_next [OF _ assms(3)] mgr_refs_inv_next [OF assms(1) _ _ assms(3)] assms(2)
    by (simp_all add: manager_stopping_def)
  from assms(3) show ?thesis
  proof (cases rule: manager_next_cases)
    case Owner
    with assms(2) obtain i where "lm_owner s = M_Joining i" "i \<le> length (lm_pcs s)" "lm_ops s = []"
      by (auto simp: manager_stopping_def manager_stopped_def manager_owner_next_def)
    with Owner inv show ?thesis
      by (auto simp: manager_stopping_def manager_stopped_def manager_owner_next_def manager_rank_def split: if_splits)
  next
    case (Reader i r pc s1)
    note keeps = reader_next_keeps [OF Reader(3)]
    from assms(2) Reader(2) obtain j where j: "lm_owner s = M_Joining j" "j \<le> length (lm_pcs s)" "lm_ops s = []"
      by (auto simp: manager_stopping_def manager_stopped_def)
    then have "\<not> cm_running (lm_manager s)" using assms(2) by (simp add: manager_stopping_def mgr_owner_inv_def)
    moreover have "\<not> lm_fault s1" using inv(2) Reader(4) by (simp add: mgr_refs_inv_def)
    ultimately have "reader_rank pc < reader_rank (lm_pcs s ! i)" by (rule reader_next_rank [OF Reader(3)])
    from sum_list_update_less [OF Reader(2) this] show ?thesis
      using inv j keeps Reader(4) by (simp add: manager_rank_def manager_stopping_def)
  qed
qed

lemma reader_can_step: "pc \<noteq> M_Done \<Longrightarrow> \<exists>r x. reader_next r ref pc s = Some x"
  by (cases pc) (auto simp: reader_next_def split: option.splits intro: exI [of _ No_Data])

lemma manager_stopping_progress:
  assumes "manager_stopping s" "\<not> manager_stopped s"
  shows "\<exists>s'. manager_moves grow s s'"
proof -
  obtain i where i: "lm_owner s = M_Joining i" "\<not> lm_fault s"
    using assms by (auto simp: manager_stopping_def mgr_refs_inv_def)
  have "\<exists>m. manager_next grow m s \<noteq> None"
  proof (cases "i < length (lm_pcs s) \<and> lm_pcs s ! i \<noteq> M_Done")
    case True
    then obtain r x where "reader_next r (cm_threads (lm_manager s) ! i) (lm_pcs s ! i) s = Some x"
      using reader_can_step by blast
    with True i have "manager_next grow (Reader_Moves i r) s \<noteq> None" by (simp add: manager_next_def)
    then show ?thesis by blast
  next
    case False
    with i have "manager_next grow Owner_Moves s \<noteq> None" by (auto simp: manager_next_def manager_owner_next_def)
    then show ?thesis by blast
  qed
  then show ?thesis by (auto intro: manager_moves.manager_moves)
qed

interpretation manager_ends: ending_machine "manager_moves grow"
  "\<lambda>s. (\<forall>c. c < grow c) \<and> manager_stopping s" "\<lambda>s. (\<forall>c. c < grow c) \<and> manager_stopping s" manager_rank manager_stopped
  for grow
proof unfold_locales
  fix s s' assume "(\<forall>c. c < grow c) \<and> manager_stopping s" "manager_moves grow s s'"
  then have "manager_stopping s' \<and> manager_rank s' < manager_rank s"
    using manager_stopping_next [of grow s] by (auto elim!: manager_movesE)
  then show "(\<forall>c. c < grow c) \<and> manager_stopping s'" "manager_rank s' < manager_rank s"
    using \<open>(\<forall>c. c < grow c) \<and> manager_stopping s\<close> by blast+
qed (use manager_stopping_progress in blast)+

text \<open>A thread inside \<open>recv\<close>, whose peer says nothing, holds \<open>stopAll\<close> up.\<close>

lemma silent_peer_next:
  assumes "mgr_owner_inv s" "manager_next grow m s = Some s'" "\<And>r. m \<noteq> Reader_Moves i r"
    and "i < length (lm_pcs s)" "lm_pcs s ! i \<noteq> M_Done"
  shows "i < length (lm_pcs s') \<and> lm_pcs s' ! i = lm_pcs s ! i"
proof (cases m)
  case Owner_Moves
  have "j < length (lm_pcs s)" if "lm_owner s = M_Joining j" for j
  proof (rule ccontr)
    assume "\<not> j < length (lm_pcs s)"
    with that assms(1,4,5) show False by (simp add: mgr_owner_inv_def)
  qed
  with Owner_Moves assms(2,4) show ?thesis
    by (auto simp: manager_next_def manager_owner_next_def manager_call_def start_reader_def Let_def nth_append
        split: if_splits manager_owner.splits list.splits cm_op.splits)
next
  case (Reader_Moves j r)
  with assms(3) have "j \<noteq> i" by blast
  with Reader_Moves assms(2,4) show ?thesis
    by (auto simp: manager_next_def dest: reader_next_keeps(2) split: if_splits)
qed

lemma silent_peer:
  assumes "manager_run grow ms s = Some s'" "mgr_owner_inv s" "\<And>r. Reader_Moves i r \<notin> set ms"
    and "i < length (lm_pcs s)" "lm_pcs s ! i \<noteq> M_Done"
  shows "\<not> manager_stopped s'"
  using assms
proof (induction ms arbitrary: s)
  case Nil
  then show ?case by (auto simp: manager_stopped_def)
next
  case (Cons m ms)
  from Cons.prems(1) obtain s1 where s1: "manager_next grow m s = Some s1" "manager_run grow ms s1 = Some s'"
    by (auto simp: bind_eq_Some_conv)
  have "m \<noteq> Reader_Moves i r" for r using Cons.prems(3) [of r] by auto
  from silent_peer_next [OF Cons.prems(2) s1(1) this Cons.prems(4,5)] show ?case
    using Cons.IH [OF s1(2) mgr_owner_inv_next [OF Cons.prems(2) s1(1)]] Cons.prems(3,5) by simp
qed

end
