(* ===== verification/SendFrames.thy ===== *)
theory SendFrames
  imports Sockets Framing
begin

text \<open>
  \<open>sendAll\<close> of \<^verbatim>\<open>TcpClient.h\<close> on every branch, and framed messages that are sent with it: what a
  receiver's framer gets when the sender stops at the first failure.
\<close>

section \<open>All outcomes\<close>

text \<open>The first of the calls to come that does not take exactly one byte, if \<open>n\<close> bytes remain.\<close>

definition first_odd :: "(nat \<Rightarrow> nat \<Rightarrow> int) \<Rightarrow> nat \<Rightarrow> nat \<Rightarrow> nat option" where
  "first_odd snd_result k n = find (\<lambda>j. snd_result (k + j) (n - j) \<noteq> 1) [0..<n]"

lemma find_Some_map: "find P (map f xs) = map_option f (find (\<lambda>x. P (f x)) xs)"
  by (induction xs) simp_all

lemma first_odd_0 [simp]: "first_odd snd_result k 0 = None"
  by (simp add: first_odd_def)

lemma first_odd_Suc:
  "first_odd snd_result k (Suc n)
    = (if snd_result k (Suc n) \<noteq> 1 then Some 0 else map_option Suc (first_odd snd_result (Suc k) n))"
proof -
  have "[0..<Suc n] = 0 # map Suc [0..<n]" by (simp add: map_Suc_upt upt_conv_Cons del: upt_Suc)
  then show ?thesis by (simp add: first_odd_def find_Some_map del: upt_Suc)
qed

lemma first_odd_less: "first_odd snd_result k n = Some j \<Longrightarrow> j < n"
  by (induction n arbitrary: k j) (auto simp: first_odd_Suc split: if_splits)

text \<open>
  Up to that call each takes the next byte. If it takes nothing the loop gives up; if it takes more
  than one the next call is asked to read past the data.
\<close>

lemma sendAll_loop_outcome:
  assumes "\<And>k n. snd_result k n \<le> int n"
  shows "ptr + r = length data \<Longrightarrow> sendAll_loop snd_result data k ptr r sent
    = (case first_odd snd_result k r of
         None \<Rightarrow> Some (True, sent @ drop ptr data)
       | Some j \<Rightarrow> if snd_result (k + j) (r - j) \<le> 0 then Some (False, sent @ take j (drop ptr data)) else None)"
proof (induction r arbitrary: k ptr sent)
  case (Suc r)
  let ?n = "snd_result k (Suc r)"
  consider "?n \<le> 0" | "?n = 1" | "2 \<le> ?n" by linarith
  then show ?case
  proof cases
    case 2
    have one: "drop ptr data = data ! ptr # drop (Suc ptr) data"
      using Suc.prems by (simp add: Cons_nth_drop_Suc)
    show ?thesis using 2 Suc.IH [of "Suc ptr" "Suc k"] Suc.prems
      by (auto simp: first_odd_Suc Let_def one split: option.split)
  next
    case 3
    then have "r > 0" using assms [of k "Suc r"] by simp
    then obtain r' where r': "r = Suc r'" by (cases r) auto
    have "2 \<le> nat ?n" using 3 by linarith
    then have "length data < ptr + nat ?n + r" using Suc.prems by linarith
    then have "sendAll_loop snd_result data (Suc k) (ptr + nat ?n) r s = None" for s by (simp add: r')
    then show ?thesis using 3 Suc.prems by (simp add: first_odd_Suc Let_def)
  qed (use Suc.prems in \<open>simp add: first_odd_Suc Let_def\<close>)
qed simp

lemma sendAll_outcome:
  assumes "\<And>k n. snd_result k n \<le> int n"
  shows "sendAll snd_result data
    = (case first_odd snd_result 0 (length data) of
         None \<Rightarrow> Some (True, data)
       | Some j \<Rightarrow> if snd_result j (length data - j) \<le> 0 then Some (False, take j data) else None)"
  using sendAll_loop_outcome [where snd_result = snd_result and ptr = 0 and r = "length data" and data = data
      and k = 0 and sent = "[]", OF assms]
  by (simp add: sendAll_def split: option.split)

section \<open>Messages\<close>

text \<open>A sender that encodes one payload after the other and stops at the first failure.\<close>

fun send_messages ::
  "bool \<Rightarrow> (nat \<Rightarrow> nat \<Rightarrow> nat \<Rightarrow> int) \<Rightarrow> u8 list list \<Rightarrow> (nat \<times> u8 list) option" where
  "send_messages le snd_result [] = Some (0, [])"
| "send_messages le snd_result (p # ps) =
     (case sendAll (snd_result 0) (encode le p []) of
        None \<Rightarrow> None
      | Some (False, out) \<Rightarrow> Some (0, out)
      | Some (True, out) \<Rightarrow>
          map_option (\<lambda>(n, rest). (Suc n, out @ rest)) (send_messages le (\<lambda>i. snd_result (Suc i)) ps))"

text \<open>A part of an encoded message is no message.\<close>

lemma part_of_message:
  assumes "frame_fits p" "j < length (encode le p [])"
  shows "split_frame_bytes le (take j (encode le p [])) = None"
proof (rule ccontr)
  assume "split_frame_bytes le (take j (encode le p [])) \<noteq> None"
  then obtain m rest where m: "split_frame_bytes le (take j (encode le p [])) = Some (m, rest)" by auto
  have "split_frame_bytes le (take j (encode le p []) @ drop j (encode le p []))
      = Some (m, rest @ drop j (encode le p []))" by (rule split_frame_bytes_more [OF m])
  then have "rest @ drop j (encode le p []) = []" using tcp_frames.split_frame [OF assms(1), of le "[]"] by simp
  with assms(2) show False by simp
qed

text \<open>What has been sent is the messages reported as sent and a part of the next one.\<close>

lemma send_messages_sent:
  assumes "\<And>i k n. snd_result i k n \<le> int n" "send_messages le snd_result ps = Some (n, out)"
    and "\<And>p. p \<in> set ps \<Longrightarrow> frame_fits p"
  shows "n \<le> length ps \<and> (\<exists>rest. out = concat (map (\<lambda>p. encode le p []) (take n ps)) @ rest \<and> split_frame_bytes le rest = None
    \<and> (n = length ps \<longrightarrow> rest = []))"
  using assms
proof (induction ps arbitrary: snd_result n out)
  case Nil
  then show ?case by (simp add: split_frame_bytes_def nextFrame_def)
next
  case (Cons p ps)
  obtain ok sent where s: "sendAll (snd_result 0) (encode le p []) = Some (ok, sent)"
    using Cons.prems(2) by (cases "sendAll (snd_result 0) (encode le p [])") auto
  note outcome = sendAll_outcome [of "snd_result 0" "encode le p []", OF Cons.prems(1)]
  show ?case
  proof (cases ok)
    case True
    with s outcome have "sent = encode le p []" by (auto split: option.splits if_splits)
    with Cons.prems(2) s True obtain n' out' where r: "send_messages le (\<lambda>i. snd_result (Suc i)) ps = Some (n', out')"
      "n = Suc n'" "out = encode le p [] @ out'" by auto
    have "n' \<le> length ps \<and> (\<exists>rest. out' = concat (map (\<lambda>p. encode le p []) (take n' ps)) @ rest \<and> split_frame_bytes le rest = None
        \<and> (n' = length ps \<longrightarrow> rest = []))"
      by (rule Cons.IH [OF _ r(1)]) (use Cons.prems(1,3) in auto)
    then show ?thesis using r(2,3) by auto
  next
    case False
    with s outcome obtain j where j: "first_odd (snd_result 0) 0 (length (encode le p [])) = Some j"
      "sent = take j (encode le p [])" by (auto split: option.splits if_splits)
    then show ?thesis
      using Cons.prems(2,3) s False part_of_message [OF _ first_odd_less [OF j(1)]] by auto
  qed
qed

text \<open>The receiver gets exactly the messages that were reported as sent, however the stream is cut.\<close>

lemma send_messages_received:
  assumes "\<And>i k n. snd_result i k n \<le> int n" "send_messages le snd_result ps = Some (n, out)"
    and "\<And>p. p \<in> set ps \<Longrightarrow> frame_fits p"
    and "concat chunks = out" "\<And>chunk. chunk \<in> set chunks \<Longrightarrow> length chunk \<le> c" "65536 + c \<le> m"
  shows "\<exists>f. receive le chunks (framer_new m) = Inr (take n ps, f)"
proof -
  obtain rest where rest: "out = concat (map (\<lambda>p. encode le p []) (take n ps)) @ rest" "split_frame_bytes le rest = None"
    using send_messages_sent [OF assms(1-3)] by auto
  have "split_frame_bytes le [] = None" by (simp add: split_frame_bytes_def nextFrame_def)
  with receive_no_overflow [OF assms(5), of chunks "framer_new m" le] assms(6)
  obtain frames f where r: "receive le chunks (framer_new m) = Inr (frames, f)" by (auto simp: framer_new_def)
  have "frames = take n ps"
    using receive_encoded [OF r, of "take n ps" rest] assms(3,4) rest by (auto simp: concat_encode dest: in_set_takeD)
  with r show ?thesis by blast
qed

text \<open>
  With a kernel that takes all it is offered, as it does when there is room, the first message
  already is undefined.
\<close>

lemma send_messages_whole:
  "send_messages le (\<lambda>i k n. int n) (p # ps) = None"
  using sendAll_whole [of "encode le p []"] by (simp add: encode_append)

end
