(* ===== verification/Partition.thy ===== *)
theory Partition
  imports OrderData SpScRing Datagrams SendFrames "HOL-Library.List_Lexorder"
begin

text \<open>
  \<^verbatim>\<open>libs/match/MatchingEnginePartition.h\<close> with the report of \<^verbatim>\<open>ExecutionReport.h\<close>: a queue of
  orders and a queue of fills, both ring buffers, and the loop that turns every queued order into
  a report. The members of an order are those of \<^verbatim>\<open>Order.h\<close>.

  A \<open>std::string\<close> is a list of bytes, compared lexicographically. The conversion of a price to
  \<open>double\<close> (\<open>toDouble\<close>) and the clock (\<open>clock n\<close> at the \<open>n\<close>-th report) are arguments, and so are the
  bytes an \<open>ExecutionReport\<close> has in memory (\<open>rep\<close>), which are what is sent. The senders are those of
  \<open>Sockets\<close> and \<open>Datagrams\<close>: \<open>tcp i k n\<close> is what the \<open>k\<close>-th \<open>::send\<close> of the \<open>i\<close>-th report returns when
  it is offered \<open>n\<close> bytes, \<open>udp i\<close> what its \<open>::sendto\<close> returns. The code ignores whether they succeed.
\<close>

section \<open>State\<close>

record 'd exec_report =
  er_orderId :: u64
  er_symbol :: "u8 list"
  er_price :: 'd
  er_filledQuantity :: u64
  er_remainingQuantity :: u64
  er_isBuy :: bool
  er_timestampNs :: u64

text \<open>Of a report, the bytes that the TCP socket has taken, and the call for the UDP socket.\<close>

datatype 'd sent = Sent_Tcp "'d exec_report" "u8 list" | Sent_Udp "'d exec_report" "sys_call list"

record 'd partition =
  pt_symbolStart :: "u8 list"
  pt_symbolEnd :: "u8 list"
  pt_ordersQueue :: "order_rec ring"
  pt_fillsQueue :: "'d exec_report ring"
  pt_tcpClient :: tcp_client
  pt_udpSender :: udp_sender
  pt_sent :: "'d sent list"
  pt_reports :: nat

definition partition_new ::
  "u8 list \<Rightarrow> u8 list \<Rightarrow> tcp_client \<Rightarrow> udp_sender \<Rightarrow> order_rec list \<Rightarrow> 'd exec_report list \<Rightarrow> 'd partition" where
  "partition_new symbolStart symbolEnd tcpClient udpSender b1 b2 =
     \<lparr>pt_symbolStart = symbolStart, pt_symbolEnd = symbolEnd, pt_ordersQueue = ring_new b1,
      pt_fillsQueue = ring_new b2, pt_tcpClient = tcpClient, pt_udpSender = udpSender, pt_sent = [], pt_reports = 0\<rparr>"

section \<open>Operations\<close>

definition part_submitOrder :: "order_rec \<Rightarrow> 'd partition \<Rightarrow> bool \<times> 'd partition" where
  "part_submitOrder ord p =
     (let (ok, q) = tryPush ord (pt_ordersQueue p) in (ok, p\<lparr>pt_ordersQueue := q\<rparr>))"

text \<open>Making a string of the symbol reads up to a NUL; without one the read leaves the array.\<close>

definition make_report :: "(i64 \<Rightarrow> 'd) \<Rightarrow> u64 \<Rightarrow> order_rec \<Rightarrow> 'd exec_report option" where
  "make_report toDouble now ord =
     (if 0 \<in> set (o_symbol ord)
      then Some \<lparr>er_orderId = o_orderId ord, er_symbol = c_string (o_symbol ord),
        er_price = toDouble (o_price ord), er_filledQuantity = o_quantity ord,
        er_remainingQuantity = 0, er_isBuy = o_isBuy ord, er_timestampNs = now\<rparr>
      else None)"

text \<open>\<open>None\<close>: the symbol is not terminated, or \<open>sendAll\<close> reads past the report.\<close>

definition part_matchOrder ::
  "(i64 \<Rightarrow> 'd) \<Rightarrow> (nat \<Rightarrow> u64) \<Rightarrow> ('d exec_report \<Rightarrow> u8 list) \<Rightarrow> (nat \<Rightarrow> nat \<Rightarrow> nat \<Rightarrow> int) \<Rightarrow> (nat \<Rightarrow> int)
    \<Rightarrow> order_rec \<Rightarrow> 'd partition \<Rightarrow> 'd partition option" where
  "part_matchOrder toDouble clock rep tcp udp ord p =
     (let i = pt_reports p
      in case make_report toDouble (clock i) ord of
        None \<Rightarrow> None
      | Some report \<Rightarrow>
          (let p1 = p\<lparr>pt_fillsQueue := snd (tryPush report (pt_fillsQueue p))\<rparr>
           in case sendAll (tcp i) (rep report) of
                None \<Rightarrow> None
              | Some (ok, out) \<Rightarrow>
                  Some (p1\<lparr>pt_sent := pt_sent p @ [Sent_Tcp report out,
                             Sent_Udp report (snd (udp_sender_send (udp i) (pt_udpSender p) (rep report)))],
                           pt_reports := Suc i\<rparr>)))"

partial_function (option) processOrders ::
  "(i64 \<Rightarrow> 'd) \<Rightarrow> (nat \<Rightarrow> u64) \<Rightarrow> ('d exec_report \<Rightarrow> u8 list) \<Rightarrow> (nat \<Rightarrow> nat \<Rightarrow> nat \<Rightarrow> int) \<Rightarrow> (nat \<Rightarrow> int)
    \<Rightarrow> 'd partition \<Rightarrow> 'd partition option" where
  "processOrders toDouble clock rep tcp udp p =
     (case tryPop (pt_ordersQueue p) of
        None \<Rightarrow> Some p
      | Some (ord, q) \<Rightarrow>
          Option.bind (part_matchOrder toDouble clock rep tcp udp ord (p\<lparr>pt_ordersQueue := q\<rparr>))
            (\<lambda>p'. processOrders toDouble clock rep tcp udp p'))"

definition ownsSymbol :: "u8 list \<Rightarrow> 'd partition \<Rightarrow> bool" where
  "ownsSymbol symbol p \<longleftrightarrow> symbol \<ge> pt_symbolStart p \<and> symbol \<le> pt_symbolEnd p"

section \<open>Processing\<close>

text \<open>The reports of the orders \<open>ords\<close>, the first of them the \<open>n\<close>-th of the partition.\<close>

fun reports_of :: "(i64 \<Rightarrow> 'd) \<Rightarrow> (nat \<Rightarrow> u64) \<Rightarrow> nat \<Rightarrow> order_rec list \<Rightarrow> 'd exec_report list" where
  "reports_of toDouble clock n [] = []"
| "reports_of toDouble clock n (ord # ords) =
     the (make_report toDouble (clock n) ord) # reports_of toDouble clock (Suc n) ords"

text \<open>
  What has been sent of the reports \<open>rs\<close>, the first of them the \<open>i\<close>-th: over TCP the bytes up to the first
  call of \<open>::send\<close> that fails.
\<close>

definition taken :: "(nat \<Rightarrow> nat \<Rightarrow> int) \<Rightarrow> u8 list \<Rightarrow> u8 list" where
  "taken snd_result bytes = (case first_odd snd_result 0 (length bytes) of None \<Rightarrow> bytes | Some j \<Rightarrow> take j bytes)"

fun sends_of ::
  "('d exec_report \<Rightarrow> u8 list) \<Rightarrow> (nat \<Rightarrow> nat \<Rightarrow> nat \<Rightarrow> int) \<Rightarrow> (nat \<Rightarrow> int) \<Rightarrow> udp_sender \<Rightarrow> nat
    \<Rightarrow> 'd exec_report list \<Rightarrow> 'd sent list" where
  "sends_of rep tcp udp sender i [] = []"
| "sends_of rep tcp udp sender i (r # rs) =
     Sent_Tcp r (taken (tcp i) (rep r)) # Sent_Udp r (snd (udp_sender_send (udp i) sender (rep r)))
       # sends_of rep tcp udp sender (Suc i) rs"

text \<open>A kernel whose \<open>::send\<close> takes at most one byte at a time, the only one \<open>sendAll\<close> can be used with.\<close>

definition one_byte_sends :: "(nat \<Rightarrow> nat \<Rightarrow> nat \<Rightarrow> int) \<Rightarrow> bool" where
  "one_byte_sends tcp \<longleftrightarrow> (\<forall>i k n. tcp i k n \<le> min 1 (int n))"

lemma one_byte_sendAll:
  assumes "one_byte_sends tcp"
  shows "\<exists>ok. sendAll (tcp i) bytes = Some (ok, taken (tcp i) bytes)"
proof -
  have le: "tcp i k n \<le> int n" and one: "tcp i k n \<le> 1" for k n
    using assms by (simp_all add: one_byte_sends_def)
  have "tcp i j (length bytes - j) \<le> 0" if "first_odd (tcp i) 0 (length bytes) = Some j" for j
  proof -
    have "tcp i j (length bytes - j) \<noteq> 1" using that by (auto simp: first_odd_def find_Some_iff)
    with one [of j "length bytes - j"] show ?thesis by simp
  qed
  with sendAll_outcome [of "tcp i" bytes, OF le] show ?thesis
    by (auto simp: taken_def split: option.split)
qed

lemma push_all_fills:
  assumes "ring_wf q"
  shows "ring_wf (fold (\<lambda>x q. snd (tryPush x q)) xs q)
    \<and> ring_items (fold (\<lambda>x q. snd (tryPush x q)) xs q)
      = ring_items q @ take (ring_limit q - length (ring_items q)) xs
    \<and> ring_limit (fold (\<lambda>x q. snd (tryPush x q)) xs q) = ring_limit q"
  using assms
proof (induction xs arbitrary: q)
  case (Cons x xs)
  let ?q = "snd (tryPush x q)"
  have q: "ring_wf ?q" "ring_limit ?q = ring_limit q"
    "ring_items ?q = (if length (ring_items q) < ring_limit q then ring_items q @ [x] else ring_items q)"
    using ringq.push_wf [OF Cons.prems, of x] ringq.push_limit [OF Cons.prems, of x]
      ringq.push_items [OF Cons.prems, of x] ringq.push_stores [OF Cons.prems, of x] by auto
  have len: "length (ring_items q) \<le> ring_limit q" by (rule ringq.limit_items [OF Cons.prems])
  show ?case
  proof (cases "length (ring_items q) < ring_limit q")
    case True
    then have "ring_limit q - length (ring_items q) = Suc (ring_limit q - length (ring_items ?q))"
      using q(3) by simp
    with True Cons.IH [OF q(1)] q(2,3) show ?thesis by simp
  next
    case False
    with Cons.IH [OF q(1)] q(2,3) show ?thesis by simp
  qed
qed simp

text \<open>
  With such a kernel the loop returns, has emptied the queue, and has reported every queued order
  once, in order, over both senders. The fills queue keeps the first reports that fit.
\<close>

lemma processOrders_result:
  assumes "one_byte_sends tcp" "ring_wf (pt_ordersQueue p)" "ring_items (pt_ordersQueue p) = ords"
    and "\<And>ord. ord \<in> set ords \<Longrightarrow> symbol_wf (o_symbol ord)"
  shows "\<exists>p'. processOrders toDouble clock rep tcp udp p = Some p' \<and> ring_wf (pt_ordersQueue p')
    \<and> ring_items (pt_ordersQueue p') = [] \<and> pt_udpSender p' = pt_udpSender p
    \<and> pt_fillsQueue p' = fold (\<lambda>x q. snd (tryPush x q)) (reports_of toDouble clock (pt_reports p) ords)
        (pt_fillsQueue p)
    \<and> pt_sent p' = pt_sent p @ sends_of rep tcp udp (pt_udpSender p) (pt_reports p)
        (reports_of toDouble clock (pt_reports p) ords)
    \<and> pt_reports p' = pt_reports p + length ords"
  using assms(2-)
proof (induction ords arbitrary: p)
  case Nil
  then have "tryPop (pt_ordersQueue p) = None" by (simp add: ringq.pop_empty)
  then show ?case using Nil by (simp add: processOrders.simps)
next
  case (Cons ord ords)
  obtain q where q: "tryPop (pt_ordersQueue p) = Some (ord, q)" "ring_items q = ords" "ring_wf q"
    by (rule ringq.pop_nonempty [OF Cons.prems(1,2)])
  have "0 \<in> set (o_symbol ord)" using Cons.prems(3) [of ord] by (simp add: symbol_wf_def)
  then obtain report where r: "make_report toDouble (clock (pt_reports p)) ord = Some report"
    by (simp add: make_report_def)
  obtain ok where s: "sendAll (tcp (pt_reports p)) (rep report) = Some (ok, taken (tcp (pt_reports p)) (rep report))"
    using one_byte_sendAll [OF assms(1)] by blast
  let ?p = "p\<lparr>pt_ordersQueue := q, pt_fillsQueue := snd (tryPush report (pt_fillsQueue p)),
    pt_sent := pt_sent p @ [Sent_Tcp report (taken (tcp (pt_reports p)) (rep report)),
      Sent_Udp report (snd (udp_sender_send (udp (pt_reports p)) (pt_udpSender p) (rep report)))],
    pt_reports := Suc (pt_reports p)\<rparr>"
  have "processOrders toDouble clock rep tcp udp p = processOrders toDouble clock rep tcp udp ?p"
    using q(1) r s by (subst processOrders.simps) (simp add: part_matchOrder_def Let_def)
  moreover have "ring_wf (pt_ordersQueue ?p)" "ring_items (pt_ordersQueue ?p) = ords" using q by simp_all
  ultimately show ?case
    using Cons.IH [of ?p] Cons.prems(3) r by simp
qed

text \<open>With a kernel that takes all it is offered, the first order already is undefined.\<close>

lemma processOrders_whole:
  assumes "ring_wf (pt_ordersQueue p)" "ring_items (pt_ordersQueue p) \<noteq> []" "\<And>r. 2 \<le> length (rep r)"
  shows "processOrders toDouble clock rep (\<lambda>i k n. int n) udp p = None"
proof -
  obtain ord ords where "ring_items (pt_ordersQueue p) = ord # ords" using assms(2) by (cases "ring_items (pt_ordersQueue p)") auto
  then obtain q where q: "tryPop (pt_ordersQueue p) = Some (ord, q)" by (rule ringq.pop_nonempty [OF assms(1)])
  have "part_matchOrder toDouble clock rep (\<lambda>i k n. int n) udp ord (p\<lparr>pt_ordersQueue := q\<rparr>) = None"
    using sendAll_whole [OF assms(3)] by (simp add: part_matchOrder_def Let_def split: option.split)
  with q show ?thesis by (subst processOrders.simps) simp
qed

lemma length_reports_of [simp]: "length (reports_of toDouble clock n ords) = length ords"
  by (induction ords arbitrary: n) simp_all

text \<open>Each report is a full fill of its order.\<close>

lemma reports_of_nth:
  "i < length ords \<Longrightarrow> (\<And>ord. ord \<in> set ords \<Longrightarrow> symbol_wf (o_symbol ord)) \<Longrightarrow>
    er_orderId (reports_of toDouble clock n ords ! i) = o_orderId (ords ! i)
    \<and> er_filledQuantity (reports_of toDouble clock n ords ! i) = o_quantity (ords ! i)
    \<and> er_remainingQuantity (reports_of toDouble clock n ords ! i) = 0
    \<and> er_isBuy (reports_of toDouble clock n ords ! i) = o_isBuy (ords ! i)
    \<and> er_symbol (reports_of toDouble clock n ords ! i) = c_string (o_symbol (ords ! i))"
proof (induction ords arbitrary: n i)
  case (Cons ord ords)
  then show ?case
    by (cases i) (auto simp: make_report_def symbol_wf_def)
qed simp

lemma reports_of_maps:
  assumes "\<And>ord. ord \<in> set ords \<Longrightarrow> symbol_wf (o_symbol ord)"
  shows "map er_orderId (reports_of toDouble clock n ords) = map o_orderId ords"
    "map er_filledQuantity (reports_of toDouble clock n ords) = map o_quantity ords"
  using reports_of_nth [of _ ords toDouble clock n] assms by (auto intro!: nth_equalityI)

section \<open>Ranges of symbols\<close>

text \<open>Ranges that do not overlap own no symbol together; a symbol between them is owned by neither.\<close>

lemma owns_disjoint:
  "pt_symbolEnd p < pt_symbolStart q \<Longrightarrow> \<not> (ownsSymbol s p \<and> ownsSymbol s q)"
  by (auto simp: ownsSymbol_def)

lemma owns_gap:
  "pt_symbolEnd p < s \<Longrightarrow> s < pt_symbolStart q \<Longrightarrow> \<not> ownsSymbol s p \<and> \<not> ownsSymbol s q"
  by (auto simp: ownsSymbol_def)

text \<open>The end of a range followed by anything is past the range.\<close>

lemma longer_than_end:
  fixes e t :: "u8 list"
  assumes "t \<noteq> []"
  shows "e < e @ t"
  using assms by (induction e) (auto simp: Cons_less_Cons neq_Nil_conv)

lemma owns_not_longer:
  "t \<noteq> [] \<Longrightarrow> \<not> ownsSymbol (pt_symbolEnd p @ t) p"
  using longer_than_end [of t "pt_symbolEnd p"] by (simp add: ownsSymbol_def not_le)

end
