(* ===== verification/ReleaseAcquire.thy ===== *)
theory ReleaseAcquire
  imports Prelude
begin

text \<open>
  Atomic variables with the memory orders of C++. A variable has the list of its stores, in
  modification order, and a thread a view: for every variable the last of its stores the thread
  knows of. A load may give any store the view does not exclude, so two threads need not agree on
  what is in memory. A release store carries the view of its thread, and an acquire load of it
  passes that view on; a relaxed store or load does not. There are no loads of values that are
  only stored later.

  Data that is not atomic is counted: a view also says how many accesses to it are known. To access
  it without knowing of the accesses before is a data race.
\<close>

text \<open>
  The orders of \<^verbatim>\<open>std::memory_order\<close>. A sequentially consistent load acquires, and such a store
  releases. That all of them have one order on which the threads agree excludes some runs besides;
  this is not modelled, but a run in which every load takes the last store is not one of them. A
  consume load passes on only to accesses through the value it gives, so for an index that is
  compared and not used as an address it is a relaxed one.

  A load may not release and a store may not acquire: what they then do is undefined.
\<close>

datatype memory_order = Relaxed | Consume | Acquire | Release | Acq_Rel | Seq_Cst

fun acquires :: "memory_order \<Rightarrow> bool" where
  "acquires Acquire = True"
| "acquires Acq_Rel = True"
| "acquires Seq_Cst = True"
| "acquires _ = False"

fun releases :: "memory_order \<Rightarrow> bool" where
  "releases Release = True"
| "releases Acq_Rel = True"
| "releases Seq_Cst = True"
| "releases _ = False"

definition load_order :: "memory_order \<Rightarrow> bool" where
  "load_order order \<longleftrightarrow> order \<noteq> Release \<and> order \<noteq> Acq_Rel"

definition store_order :: "memory_order \<Rightarrow> bool" where
  "store_order order \<longleftrightarrow> order = Relaxed \<or> order = Release \<or> order = Seq_Cst"

lemma load_order_acquires: "load_order order \<Longrightarrow> acquires order \<longleftrightarrow> order \<in> {Acquire, Seq_Cst}"
  by (cases order) (simp_all add: load_order_def)

lemma store_order_releases: "store_order order \<Longrightarrow> releases order \<longleftrightarrow> order \<in> {Release, Seq_Cst}"
  by (cases order) (simp_all add: store_order_def)

type_synonym 'l view = "'l \<Rightarrow> nat"

type_synonym ('l, 'v) message = "'v \<times> 'l view"

definition join :: "'l view \<Rightarrow> 'l view \<Rightarrow> 'l view" where
  "join V W = (\<lambda>x. max (V x) (W x))"

definition load :: "memory_order \<Rightarrow> 'l \<Rightarrow> nat \<Rightarrow> ('l, 'v) message list \<Rightarrow> 'l view \<Rightarrow> ('v \<times> 'l view) option" where
  "load order l ts hist V =
     (if V l \<le> ts \<and> ts < length hist
      then Some (fst (hist ! ts),
             if acquires order then join (V(l := ts)) (snd (hist ! ts)) else V(l := ts))
      else None)"

text \<open>A store by the only thread that stores to the variable: it is the last one.\<close>

definition store ::
  "memory_order \<Rightarrow> 'l \<Rightarrow> 'v \<Rightarrow> ('l, 'v) message list \<Rightarrow> 'l view \<Rightarrow> ('l, 'v) message list \<times> 'l view" where
  "store order l v hist V =
     (let V' = V(l := length hist)
      in (hist @ [(v, if releases order then V' else (\<lambda>_. 0)(l := length hist))], V'))"

lemma load_Some:
  "load order l ts hist V = Some (v, V') \<longleftrightarrow> V l \<le> ts \<and> ts < length hist \<and> v = fst (hist ! ts)
    \<and> V' = (if acquires order then join (V(l := ts)) (snd (hist ! ts)) else V(l := ts))"
  by (auto simp: load_def)

text \<open>A view only grows, and after a release store and an acquire load of it so does the other's.\<close>

lemma load_grows: "load order l ts hist V = Some (v, V') \<Longrightarrow> V x \<le> V' x"
  by (auto simp: load_Some join_def)

lemma acquire_sees:
  "load Acquire l ts hist V = Some (v, V') \<Longrightarrow> snd (hist ! ts) x \<le> V' x"
  by (auto simp: load_Some join_def)

lemma store_carries:
  "store Release l v hist V = (hist', V') \<Longrightarrow> snd (hist' ! length hist) = V' \<and> fst (hist' ! length hist) = v"
  by (auto simp: store_def Let_def)

text \<open>How many of the first \<open>n\<close> elements, laid round an array of \<open>c\<close> cells, are in cell \<open>i\<close>.\<close>

definition uses :: "nat \<Rightarrow> nat \<Rightarrow> nat \<Rightarrow> nat" where
  "uses c n i = length (filter (\<lambda>k. k mod c = i) [0..<n])"

lemma uses_0 [simp]: "uses c 0 i = 0"
  by (simp add: uses_def)

lemma uses_Suc [simp]: "uses c (Suc n) i = uses c n i + (if n mod c = i then 1 else 0)"
  by (simp add: uses_def)

lemma uses_mono: "m \<le> n \<Longrightarrow> uses c m i \<le> uses c n i"
  by (induction n) (auto simp: le_Suc_eq)

text \<open>Elements less than a round apart are in different cells.\<close>

lemma uses_same:
  assumes "m \<le> n" "\<And>k. m \<le> k \<Longrightarrow> k < n \<Longrightarrow> k mod c \<noteq> i"
  shows "uses c n i = uses c m i"
  using assms by (induction n) (auto simp: le_Suc_eq)

lemma mod_neq_near: "a < b \<Longrightarrow> b < a + c \<Longrightarrow> a mod c \<noteq> b mod (c :: nat)"
proof
  assume "a < b" "b < a + c" "a mod c = b mod c"
  then have "c dvd b - a" by (metis mod_eq_dvd_iff_nat less_imp_le)
  with \<open>a < b\<close> \<open>b < a + c\<close> show False by (auto dest: dvd_imp_le)
qed

lemma uses_round:
  assumes "m \<le> n" "n \<le> m + c" "0 < c"
  shows "uses c n (m mod c) = uses c m (m mod c) + (if m < n then 1 else 0)"
proof (cases "m < n")
  case True
  have "uses c n (m mod c) = uses c (Suc m) (m mod c)"
  proof (rule uses_same)
    fix k assume "Suc m \<le> k" "k < n"
    then show "k mod c \<noteq> m mod c" using mod_neq_near [of m k c] assms(2) by simp
  qed (use True in simp)
  with True show ?thesis by simp
next
  case False
  with assms(1) show ?thesis by simp
qed

end
