(* ===== verification/SpScRelAcq.thy ===== *)
theory SpScRelAcq
  imports SpScConc ReleaseAcquire Machines
begin

text \<open>
  The ring buffer of \<^verbatim>\<open>SpScRingBuffer.h\<close> with the memory orders its atomic accesses name. The
  threads and their program counters are those of \<open>SpScConc\<close>, but \<open>_head\<close> and \<open>_tail\<close> are atomic
  variables of \<open>ReleaseAcquire\<close>: a thread can read an index that is out of date. The cells of
  the array are not atomic; what makes their use free of data races is only what the loads and
  stores of the indices pass on.

  The orders of the four accesses by which the threads synchronise are a parameter, so that
  those of the code (\<open>code_orders\<close>) can be compared with weaker ones.
\<close>

section \<open>State\<close>

text \<open>What views are about: the two indices, and the writes to and the reads of each cell.\<close>

datatype ring_loc = At_Head | At_Tail | At_Cell nat | At_Read nat

record orders =
  or_loadTail :: memory_order
  or_storeHead :: memory_order
  or_loadHead :: memory_order
  or_storeTail :: memory_order

definition code_orders :: orders where
  "code_orders = \<lparr>or_loadTail = Acquire, or_storeHead = Release, or_loadHead = Acquire, or_storeTail = Release\<rparr>"

record 'a weak_ring =
  wr_buffer :: "'a list"
  wr_head :: "(ring_loc, nat) message list"
  wr_tail :: "(ring_loc, nat) message list"
  wr_dropped :: u64
  wr_highWaterMark :: nat
  wr_writes :: "nat \<Rightarrow> nat"
  wr_reads :: "nat \<Rightarrow> nat"
  wr_pview :: "ring_loc view"
  wr_cview :: "ring_loc view"
  wr_ppc :: "'a producer_pc"
  wr_cpc :: "'a consumer_pc"
  wr_pushed :: "'a list"
  wr_popped :: "'a list"

definition weak_new :: "'a list \<Rightarrow> 'a weak_ring" where
  "weak_new b = \<lparr>wr_buffer = b, wr_head = [(0, \<lambda>_. 0)], wr_tail = [(0, \<lambda>_. 0)], wr_dropped = 0,
     wr_highWaterMark = 0, wr_writes = (\<lambda>_. 0), wr_reads = (\<lambda>_. 0), wr_pview = (\<lambda>_. 0), wr_cview = (\<lambda>_. 0),
     wr_ppc = P_Idle, wr_cpc = C_Idle, wr_pushed = [], wr_popped = []\<rparr>"

section \<open>Steps\<close>

text \<open>
  What the producer does when it finds the buffer full: \<open>tryPush\<close> counts a drop, \<open>push\<close> tries again
  or gives up at its timeout. A load takes the store \<open>ts\<close>; \<open>fails\<close> is whether
  \<open>compare_exchange_weak\<close> fails for no reason. \<open>_head\<close> is loaded by the only thread that stores it,
  which has the last store in its view.
\<close>

datatype on_full = Give_Up | Try_Again | Time_Out

definition weak_producer ::
  "orders \<Rightarrow> 'a \<Rightarrow> nat \<Rightarrow> on_full \<Rightarrow> bool \<Rightarrow> 'a weak_ring \<Rightarrow> 'a weak_ring option" where
  "weak_producer order item ts full fails s =
     (let cap = length (wr_buffer s)
      in case wr_ppc s of
        P_Idle \<Rightarrow>
          map_option (\<lambda>(currentHead, V). s\<lparr>wr_pview := V, wr_ppc := P_LoadTail item currentHead\<rparr>)
            (load Relaxed At_Head ts (wr_head s) (wr_pview s))
      | P_LoadTail x currentHead \<Rightarrow>
          map_option (\<lambda>(tail, V).
              let nextHead = increment cap currentHead
              in s\<lparr>wr_pview := V,
                   wr_ppc := (if nextHead \<noteq> tail then P_Write x currentHead nextHead
                              else case full of
                                  Give_Up \<Rightarrow> P_Drop
                                | Try_Again \<Rightarrow> P_LoadTail x (fst (last (wr_head s)))
                                | Time_Out \<Rightarrow> P_Idle)\<rparr>)
            (load (or_loadTail order) At_Tail ts (wr_tail s) (wr_pview s))
      | P_Drop \<Rightarrow> Some (s\<lparr>wr_dropped := wr_dropped s + 1, wr_ppc := P_Idle\<rparr>)
      | P_Write x currentHead nextHead \<Rightarrow>
          Some (s\<lparr>wr_buffer := (wr_buffer s)[currentHead := x],
                  wr_writes := (wr_writes s)(currentHead := Suc (wr_writes s currentHead)),
                  wr_pview := (wr_pview s)(At_Cell currentHead := Suc (wr_writes s currentHead)),
                  wr_ppc := P_StoreHead x nextHead\<rparr>)
      | P_StoreHead x nextHead \<Rightarrow>
          (let (hist, V) = store (or_storeHead order) At_Head nextHead (wr_head s) (wr_pview s)
           in Some (s\<lparr>wr_head := hist, wr_pview := V, wr_ppc := P_LoadHwm nextHead,
                      wr_pushed := wr_pushed s @ [x]\<rparr>))
      | P_LoadHwm nextHead \<Rightarrow> Some (s\<lparr>wr_ppc := P_LoadUsed nextHead (wr_highWaterMark s)\<rparr>)
      | P_LoadUsed nextHead currentHigh \<Rightarrow>
          map_option (\<lambda>(tail, V). s\<lparr>wr_pview := V, wr_ppc := P_Cas currentHigh ((nextHead + cap - tail) mod cap)\<rparr>)
            (load Relaxed At_Tail ts (wr_tail s) (wr_pview s))
      | P_Cas currentHigh used \<Rightarrow>
          Some (if \<not> used > currentHigh then s\<lparr>wr_ppc := P_Idle\<rparr>
                else if fails \<or> wr_highWaterMark s \<noteq> currentHigh
                then s\<lparr>wr_ppc := P_Cas (wr_highWaterMark s) used\<rparr>
                else s\<lparr>wr_highWaterMark := used, wr_ppc := P_Idle\<rparr>))"

definition weak_consumer :: "orders \<Rightarrow> nat \<Rightarrow> 'a weak_ring \<Rightarrow> 'a weak_ring option" where
  "weak_consumer order ts s =
     (case wr_cpc s of
        C_Idle \<Rightarrow>
          map_option (\<lambda>(currentTail, V). s\<lparr>wr_cview := V, wr_cpc := C_LoadHead currentTail\<rparr>)
            (load Relaxed At_Tail ts (wr_tail s) (wr_cview s))
      | C_LoadHead currentTail \<Rightarrow>
          map_option (\<lambda>(head, V).
              s\<lparr>wr_cview := V, wr_cpc := (if currentTail = head then C_Idle else C_Read currentTail)\<rparr>)
            (load (or_loadHead order) At_Head ts (wr_head s) (wr_cview s))
      | C_Read currentTail \<Rightarrow>
          Some (s\<lparr>wr_reads := (wr_reads s)(currentTail := Suc (wr_reads s currentTail)),
                  wr_cview := (wr_cview s)(At_Read currentTail := Suc (wr_reads s currentTail)),
                  wr_cpc := C_StoreTail currentTail (wr_buffer s ! currentTail)\<rparr>)
      | C_StoreTail currentTail item \<Rightarrow>
          (let (hist, V) = store (or_storeTail order) At_Tail (increment (length (wr_buffer s)) currentTail)
                 (wr_tail s) (wr_cview s)
           in Some (s\<lparr>wr_tail := hist, wr_cview := V, wr_cpc := C_Idle, wr_popped := wr_popped s @ [item]\<rparr>)))"

datatype 'a weak_move = By_Producer 'a nat on_full bool | By_Consumer nat

fun weak_next :: "orders \<Rightarrow> 'a weak_move \<Rightarrow> 'a weak_ring \<Rightarrow> 'a weak_ring option" where
  "weak_next order (By_Producer item ts full fails) s = weak_producer order item ts full fails s"
| "weak_next order (By_Consumer ts) s = weak_consumer order ts s"

inductive weak_step :: "orders \<Rightarrow> 'a weak_ring \<Rightarrow> 'a weak_ring \<Rightarrow> bool" for order where
  step: "weak_next order m s = Some s' \<Longrightarrow> weak_step order s s'"

inductive_cases weak_stepE: "weak_step order s s'"

fun weak_run :: "orders \<Rightarrow> 'a weak_move list \<Rightarrow> 'a weak_ring \<Rightarrow> 'a weak_ring option" where
  "weak_run order [] s = Some s"
| "weak_run order (m # ms) s = Option.bind (weak_next order m s) (weak_run order ms)"

lemma weak_run_steps: "weak_run order ms s = Some s' \<Longrightarrow> (weak_step order)\<^sup>*\<^sup>* s s'"
proof (induction ms arbitrary: s)
  case (Cons m ms)
  then obtain s1 where "weak_next order m s = Some s1" "weak_run order ms s1 = Some s'"
    by (auto simp: bind_eq_Some_conv)
  with Cons.IH show ?case by (meson weak_step.step converse_rtranclp_into_rtranclp)
qed simp

text \<open>
  A data race: a thread is about to access a cell without knowing of all writes to it, or to write
  it without knowing of all reads.
\<close>

definition data_race :: "'a weak_ring \<Rightarrow> bool" where
  "data_race s \<longleftrightarrow>
     (case wr_ppc s of
        P_Write _ i _ \<Rightarrow> wr_pview s (At_Cell i) < wr_writes s i \<or> wr_pview s (At_Read i) < wr_reads s i
      | _ \<Rightarrow> False)
   \<or> (case wr_cpc s of C_Read i \<Rightarrow> wr_cview s (At_Cell i) < wr_writes s i | _ \<Rightarrow> False)"

section \<open>The invariant\<close>

text \<open>
  \<open>H\<close> and \<open>T\<close> count the items pushed and popped; the \<open>k\<close>-th store of an index has the value
  \<open>k mod c\<close>. The store of \<open>_head\<close> number \<open>k\<close> carries the writes of the first \<open>k\<close> items, the store
  of \<open>_tail\<close> number \<open>k\<close> their reads.
\<close>

definition stores_inv :: "nat \<Rightarrow> 'a weak_ring \<Rightarrow> bool" where
  "stores_inv c s \<longleftrightarrow>
     length (wr_head s) = Suc (length (wr_pushed s)) \<and> length (wr_tail s) = Suc (length (wr_popped s))
   \<and> (\<forall>k \<le> length (wr_pushed s). fst (wr_head s ! k) = k mod c \<and> snd (wr_head s ! k) At_Head \<le> k
        \<and> snd (wr_head s ! k) At_Tail \<le> length (wr_popped s) \<and> (\<forall>i. uses c k i \<le> snd (wr_head s ! k) (At_Cell i)))
   \<and> (\<forall>k \<le> length (wr_popped s). fst (wr_tail s ! k) = k mod c \<and> snd (wr_tail s ! k) At_Tail \<le> k
        \<and> snd (wr_tail s ! k) At_Head \<le> length (wr_pushed s) \<and> (\<forall>i. uses c k i \<le> snd (wr_tail s ! k) (At_Read i)))"

text \<open>
  What the threads know. Each knows all of its own stores and accesses; the producer's knowledge of
  \<open>_tail\<close>, out of date as it may be, is recent enough to bound the number of items.
\<close>

definition views_inv :: "nat \<Rightarrow> 'a weak_ring \<Rightarrow> bool" where
  "views_inv c s \<longleftrightarrow>
     wr_pview s At_Head = length (wr_pushed s) \<and> wr_pview s At_Tail \<le> length (wr_popped s)
   \<and> length (wr_pushed s) < wr_pview s At_Tail + c \<and> (\<forall>i. wr_writes s i \<le> wr_pview s (At_Cell i))
   \<and> wr_cview s At_Tail = length (wr_popped s) \<and> length (wr_popped s) \<le> wr_cview s At_Head
   \<and> wr_cview s At_Head \<le> length (wr_pushed s) \<and> (\<forall>i. wr_reads s i \<le> wr_cview s (At_Read i))"

text \<open>What their local variables say.\<close>

fun weak_producer_inv :: "nat \<Rightarrow> nat \<Rightarrow> ring_loc view \<Rightarrow> 'a list \<Rightarrow> nat \<Rightarrow> 'a producer_pc \<Rightarrow> bool" where
  "weak_producer_inv c H V b high (P_LoadTail item h) \<longleftrightarrow> h = H mod c"
| "weak_producer_inv c H V b high (P_Write item h n) \<longleftrightarrow> h = H mod c \<and> n = Suc H mod c \<and> Suc H < V At_Tail + c
     \<and> (\<forall>i. uses c (V At_Tail) i \<le> V (At_Read i))"
| "weak_producer_inv c H V b high (P_StoreHead item n) \<longleftrightarrow>
     n = Suc H mod c \<and> Suc H < V At_Tail + c \<and> b ! (H mod c) = item"
| "weak_producer_inv c H V b high (P_LoadHwm n) \<longleftrightarrow> n = H mod c"
| "weak_producer_inv c H V b high (P_LoadUsed n high') \<longleftrightarrow> n = H mod c \<and> high' = high"
| "weak_producer_inv c H V b high (P_Cas high' used) \<longleftrightarrow> used < c \<and> high' = high"
| "weak_producer_inv c H V b high _ \<longleftrightarrow> True"

fun weak_consumer_inv :: "nat \<Rightarrow> nat \<Rightarrow> ring_loc view \<Rightarrow> 'a list \<Rightarrow> 'a consumer_pc \<Rightarrow> bool" where
  "weak_consumer_inv c T V xs C_Idle \<longleftrightarrow> True"
| "weak_consumer_inv c T V xs (C_LoadHead t) \<longleftrightarrow> t = T mod c"
| "weak_consumer_inv c T V xs (C_Read t) \<longleftrightarrow> t = T mod c \<and> T < V At_Head
     \<and> (\<forall>i. uses c (V At_Head) i \<le> V (At_Cell i))"
| "weak_consumer_inv c T V xs (C_StoreTail t item) \<longleftrightarrow> t = T mod c \<and> T < V At_Head \<and> item = xs ! T"

definition locals_inv :: "nat \<Rightarrow> 'a weak_ring \<Rightarrow> bool" where
  "locals_inv c s \<longleftrightarrow>
     weak_producer_inv c (length (wr_pushed s)) (wr_pview s) (wr_buffer s) (wr_highWaterMark s) (wr_ppc s)
   \<and> weak_consumer_inv c (length (wr_popped s)) (wr_cview s) (wr_pushed s) (wr_cpc s)"

definition writing :: "'a producer_pc \<Rightarrow> nat" where
  "writing pc = (case pc of P_StoreHead _ _ \<Rightarrow> 1 | _ \<Rightarrow> 0)"

definition reading :: "'a consumer_pc \<Rightarrow> nat" where
  "reading pc = (case pc of C_StoreTail _ _ \<Rightarrow> 1 | _ \<Rightarrow> 0)"

definition cells_inv :: "nat \<Rightarrow> 'a weak_ring \<Rightarrow> bool" where
  "cells_inv c s \<longleftrightarrow> length (wr_buffer s) = c \<and> wr_highWaterMark s < c
   \<and> wr_popped s = take (length (wr_popped s)) (wr_pushed s)
   \<and> (\<forall>k. length (wr_popped s) \<le> k \<and> k < length (wr_pushed s) \<longrightarrow> wr_buffer s ! (k mod c) = wr_pushed s ! k)
   \<and> wr_writes s = uses c (length (wr_pushed s) + writing (wr_ppc s))
   \<and> wr_reads s = uses c (length (wr_popped s) + reading (wr_cpc s))"

definition weak_inv :: "nat \<Rightarrow> 'a weak_ring \<Rightarrow> bool" where
  "weak_inv c s \<longleftrightarrow> stores_inv c s \<and> views_inv c s \<and> locals_inv c s \<and> cells_inv c s"

lemmas weak_inv_defs = weak_inv_def stores_inv_def views_inv_def locals_inv_def cells_inv_def

lemma weak_inv_new: "b \<noteq> [] \<Longrightarrow> weak_inv (length b) (weak_new b)"
  by (simp add: weak_inv_defs weak_new_def fun_eq_iff writing_def reading_def)

lemma increment_mod: "0 < c \<Longrightarrow> increment c (n mod c) = Suc n mod c"
  by (simp add: increment_def mod_Suc)

text \<open>The test for a full buffer, with a tail that may be out of date.\<close>

lemma room_known:
  "t \<le> n \<Longrightarrow> n < t + c \<Longrightarrow> Suc n mod c \<noteq> t mod c \<Longrightarrow> Suc n < t + c"
  by (metis Suc_lessI mod_add_self2)

subsection \<open>No data race\<close>

text \<open>The parts of the invariant as facts.\<close>

lemma weak_invD:
  assumes "weak_inv c s"
  shows "stores_inv c s" "views_inv c s" "locals_inv c s" "cells_inv c s"
  using assms by (simp_all add: weak_inv_def)

lemma views_invD:
  assumes "views_inv c s"
  shows "wr_pview s At_Tail \<le> length (wr_popped s)" "length (wr_pushed s) < wr_pview s At_Tail + c"
    "wr_writes s i \<le> wr_pview s (At_Cell i)" "wr_reads s i \<le> wr_cview s (At_Read i)"
    "length (wr_popped s) \<le> wr_cview s At_Head" "wr_cview s At_Head \<le> length (wr_pushed s)"
    "length (wr_popped s) \<le> length (wr_pushed s)" "length (wr_pushed s) < length (wr_popped s) + c"
  using assms by (auto simp: views_inv_def)

lemma cells_invD:
  assumes "cells_inv c s"
  shows "wr_writes s = uses c (length (wr_pushed s) + writing (wr_ppc s))"
    "wr_reads s = uses c (length (wr_popped s) + reading (wr_cpc s))"
  using assms by (simp_all add: cells_inv_def)

lemma reading_bound:
  assumes "views_inv c s" "locals_inv c s"
  shows "length (wr_popped s) + reading (wr_cpc s) \<le> length (wr_pushed s)"
  using views_invD [OF assms(1)] assms(2)
  by (auto simp: locals_inv_def reading_def split: consumer_pc.splits)

lemma writing_bound:
  assumes "views_inv c s" "locals_inv c s"
  shows "length (wr_pushed s) + writing (wr_ppc s) < length (wr_popped s) + c"
  using views_invD [OF assms(1)] assms(2)
  by (auto simp: locals_inv_def writing_def split: producer_pc.splits)

lemma weak_inv_producer_free:
  assumes "weak_inv c s" "wr_ppc s = P_Write item i n"
  shows "wr_reads s i \<le> wr_pview s (At_Read i)"
proof -
  note inv = weak_invD [OF assms(1)]
  let ?H = "length (wr_pushed s)" and ?p = "wr_pview s At_Tail" and ?T = "length (wr_popped s) + reading (wr_cpc s)"
  have i: "i = ?H mod c" "Suc ?H < ?p + c" and known: "uses c ?p i \<le> wr_pview s (At_Read i)"
    using inv(3) assms(2) by (simp_all add: locals_inv_def)
  have T: "?T \<le> ?H" using reading_bound inv(2,3) by blast
  have p: "?p \<le> ?T" using views_invD(1) [OF inv(2)] by simp
  have "uses c ?T i = uses c ?p i"
  proof (rule uses_same [OF p])
    fix k assume "?p \<le> k" "k < ?T"
    then show "k mod c \<noteq> i" using mod_neq_near [of k ?H c] i T by simp
  qed
  then show ?thesis using known by (simp add: cells_invD(2) [OF inv(4)])
qed

lemma weak_inv_consumer_free:
  assumes "weak_inv c s" "wr_cpc s = C_Read i"
  shows "wr_writes s i \<le> wr_cview s (At_Cell i)"
proof -
  note inv = weak_invD [OF assms(1)]
  let ?T = "length (wr_popped s)" and ?q = "wr_cview s At_Head" and ?H = "length (wr_pushed s) + writing (wr_ppc s)"
  have i: "i = ?T mod c" "?T < ?q" and known: "uses c ?q i \<le> wr_cview s (At_Cell i)"
    using inv(3) assms(2) by (simp_all add: locals_inv_def)
  have H: "?q \<le> ?H" "?H < ?T + c"
    using views_invD(6) [OF inv(2)] writing_bound [OF inv(2,3)] by simp_all
  have "uses c ?H i = uses c ?q i"
  proof (rule uses_same [OF H(1)])
    fix k assume "?q \<le> k" "k < ?H"
    then show "k mod c \<noteq> i" using mod_neq_near [of ?T k c] i H(2) by simp
  qed
  then show ?thesis using known by (simp add: cells_invD(1) [OF inv(4)])
qed

lemma weak_inv_no_race:
  assumes "weak_inv c s"
  shows "\<not> data_race s"
  using weak_inv_producer_free [OF assms] weak_inv_consumer_free [OF assms]
    views_invD(3) [OF weak_invD(2) [OF assms]]
  by (auto simp: data_race_def not_less split: producer_pc.splits consumer_pc.splits)

subsection \<open>Steps of the producer\<close>

text \<open>A step that only changes the producer's view and position.\<close>

lemma weak_inv_pview:
  assumes "weak_inv c s" "views_inv c (s\<lparr>wr_pview := V\<rparr>)" "writing pc = writing (wr_ppc s)"
    and "weak_producer_inv c (length (wr_pushed s)) V (wr_buffer s) (wr_highWaterMark s) pc"
  shows "weak_inv c (s\<lparr>wr_pview := V, wr_ppc := pc\<rparr>)"
proof -
  note inv = weak_invD [OF assms(1)]
  have "stores_inv c (s\<lparr>wr_pview := V, wr_ppc := pc\<rparr>)" using inv(1) by (simp add: stores_inv_def)
  moreover have "views_inv c (s\<lparr>wr_pview := V, wr_ppc := pc\<rparr>)" using assms(2) by (simp add: views_inv_def)
  moreover have "locals_inv c (s\<lparr>wr_pview := V, wr_ppc := pc\<rparr>)" using inv(3) assms(4) by (simp add: locals_inv_def)
  moreover have "cells_inv c (s\<lparr>wr_pview := V, wr_ppc := pc\<rparr>)" using inv(4) assms(3) by (simp add: cells_inv_def)
  ultimately show ?thesis by (simp add: weak_inv_def)
qed

lemma weak_inv_load_head:
  assumes "weak_inv c s" "wr_ppc s = P_Idle" "load Relaxed At_Head ts (wr_head s) (wr_pview s) = Some (h, V)"
  shows "weak_inv c (s\<lparr>wr_pview := V, wr_ppc := P_LoadTail item h\<rparr>)"
proof -
  note inv = weak_invD [OF assms(1)]
  have "ts = length (wr_pushed s)" "h = fst (wr_head s ! ts)" "V = (wr_pview s)(At_Head := ts)"
    using assms(3) inv(1,2) by (auto simp: load_Some stores_inv_def views_inv_def)
  then have "V = wr_pview s" "h = length (wr_pushed s) mod c"
    using inv(1,2) by (auto simp: stores_inv_def views_inv_def)
  with weak_inv_pview [OF assms(1), of V "P_LoadTail item h"] assms(2) inv(2) show ?thesis
    by (simp add: views_inv_def writing_def)
qed

text \<open>After a load of \<open>_tail\<close> the producer's view is not older; an acquire load brings the reads.\<close>

lemma views_load_tail:
  assumes "stores_inv c s" "views_inv c s" "load order At_Tail ts (wr_tail s) (wr_pview s) = Some (t, V)"
  shows "views_inv c (s\<lparr>wr_pview := V\<rparr>)" "t = V At_Tail mod c" "V At_Tail \<le> length (wr_popped s)"
    "wr_pview s At_Tail \<le> V At_Tail" "acquires order \<Longrightarrow> uses c (V At_Tail) i \<le> V (At_Read i)"
proof -
  have ts: "wr_pview s At_Tail \<le> ts" "ts \<le> length (wr_popped s)" "t = fst (wr_tail s ! ts)"
    and V: "V = (if acquires order then join ((wr_pview s)(At_Tail := ts)) (snd (wr_tail s ! ts))
      else (wr_pview s)(At_Tail := ts))"
    using assms(1,3) by (auto simp: load_Some stores_inv_def)
  have m: "fst (wr_tail s ! ts) = ts mod c" "snd (wr_tail s ! ts) At_Tail \<le> ts"
    "snd (wr_tail s ! ts) At_Head \<le> length (wr_pushed s)" "\<And>i. uses c ts i \<le> snd (wr_tail s ! ts) (At_Read i)"
    using assms(1) ts(2) by (simp_all add: stores_inv_def)
  have VT: "V At_Tail = ts" and VH: "V At_Head = length (wr_pushed s)"
    using m(2,3) assms(2) by (simp_all add: V join_def views_inv_def)
  show "t = V At_Tail mod c" "V At_Tail \<le> length (wr_popped s)" "wr_pview s At_Tail \<le> V At_Tail"
    using ts m(1) VT by simp_all
  show "acquires order \<Longrightarrow> uses c (V At_Tail) i \<le> V (At_Read i)"
    using m(4) [of i] by (simp add: VT) (simp add: V join_def)
  have "wr_writes s i \<le> V (At_Cell i)" for i
    using views_invD(3) [OF assms(2), of i] by (auto simp: V join_def)
  then show "views_inv c (s\<lparr>wr_pview := V\<rparr>)"
    using assms(2) ts VT VH by (simp add: views_inv_def)
qed

lemma weak_inv_load_tail:
  assumes "weak_inv c s" "wr_ppc s = P_LoadTail x h" "0 < c"
    and "load Acquire At_Tail ts (wr_tail s) (wr_pview s) = Some (t, V)"
  shows "weak_inv c (s\<lparr>wr_pview := V,
      wr_ppc := (if increment c h \<noteq> t then P_Write x h (increment c h)
        else case full of Give_Up \<Rightarrow> P_Drop | Try_Again \<Rightarrow> P_LoadTail x (fst (last (wr_head s))) | Time_Out \<Rightarrow> P_Idle)\<rparr>)"
    (is "weak_inv c (s\<lparr>wr_pview := V, wr_ppc := ?pc\<rparr>)")
proof (rule weak_inv_pview [OF assms(1)])
  note inv = weak_invD [OF assms(1)]
  note v = views_load_tail [OF inv(1,2) assms(4)]
  show "views_inv c (s\<lparr>wr_pview := V\<rparr>)" by (rule v(1))
  show "writing ?pc = writing (wr_ppc s)" by (simp add: assms(2) writing_def split: on_full.split)
  have h: "h = length (wr_pushed s) mod c" using inv(3) assms(2) by (simp add: locals_inv_def)
  have n: "increment c h = Suc (length (wr_pushed s)) mod c" using assms(3) by (simp add: h increment_mod)
  have room: "Suc (length (wr_pushed s)) < V At_Tail + c" if "increment c h \<noteq> t"
  proof (rule room_known)
    show "V At_Tail \<le> length (wr_pushed s)" using v(3) views_invD(7) [OF inv(2)] by simp
    show "length (wr_pushed s) < V At_Tail + c" using v(4) views_invD(2) [OF inv(2)] by simp
    show "Suc (length (wr_pushed s)) mod c \<noteq> V At_Tail mod c" using that n v(2) by simp
  qed
  have "fst (last (wr_head s)) = length (wr_pushed s) mod c"
    using inv(1) by (simp add: stores_inv_def last_conv_nth [of "wr_head s"] length_0_conv [symmetric] del: length_0_conv)
  then show "weak_producer_inv c (length (wr_pushed s)) V (wr_buffer s) (wr_highWaterMark s) ?pc"
    using room v(5) n by (auto simp: h split: on_full.split)
qed

lemma weak_inv_write:
  assumes "weak_inv c s" "wr_ppc s = P_Write x h n"
  shows "weak_inv c (s\<lparr>wr_buffer := (wr_buffer s)[h := x], wr_writes := (wr_writes s)(h := Suc (wr_writes s h)),
    wr_pview := (wr_pview s)(At_Cell h := Suc (wr_writes s h)), wr_ppc := P_StoreHead x n\<rparr>)"
proof -
  note inv = weak_invD [OF assms(1)]
  let ?H = "length (wr_pushed s)" and ?T = "length (wr_popped s)"
  have pc: "h = ?H mod c" "n = Suc ?H mod c" "Suc ?H < wr_pview s At_Tail + c"
    using inv(3) assms(2) by (simp_all add: locals_inv_def)
  have c: "length (wr_buffer s) = c" using inv(4) by (simp add: cells_inv_def)
  have H: "Suc ?H < ?T + c" using pc(3) views_invD(1) [OF inv(2)] by simp
  then have "h < c" using pc(1) views_invD(7) [OF inv(2)] by simp
  have "(wr_buffer s)[h := x] ! (k mod c) = wr_buffer s ! (k mod c)" if "?T \<le> k" "k < ?H" for k
    using mod_neq_near [of k ?H c] H that pc(1) by simp
  moreover have "(wr_writes s)(h := Suc (wr_writes s h)) = uses c (Suc ?H)"
    using cells_invD(1) [OF inv(4)] assms(2) pc(1) by (auto simp: fun_eq_iff writing_def)
  ultimately have "cells_inv c (s\<lparr>wr_buffer := (wr_buffer s)[h := x], wr_writes := (wr_writes s)(h := Suc (wr_writes s h)),
    wr_pview := (wr_pview s)(At_Cell h := Suc (wr_writes s h)), wr_ppc := P_StoreHead x n\<rparr>)"
    using inv(4) by (simp add: cells_inv_def writing_def)
  then show ?thesis
    using inv(1-3) pc \<open>h < c\<close> by (simp add: weak_inv_def stores_inv_def views_inv_def locals_inv_def c)
qed

lemma weak_inv_store_head:
  assumes "weak_inv c s" "wr_ppc s = P_StoreHead x n" "store Release At_Head n (wr_head s) (wr_pview s) = (hist, V)"
  shows "weak_inv c (s\<lparr>wr_head := hist, wr_pview := V, wr_ppc := P_LoadHwm n, wr_pushed := wr_pushed s @ [x]\<rparr>)"
    (is "weak_inv c ?s")
proof -
  note inv = weak_invD [OF assms(1)]
  let ?H = "length (wr_pushed s)" and ?T = "length (wr_popped s)"
  have pc: "n = Suc ?H mod c" "Suc ?H < wr_pview s At_Tail + c" "wr_buffer s ! (?H mod c) = x"
    using inv(3) assms(2) by (simp_all add: locals_inv_def)
  have len: "length (wr_head s) = Suc ?H" using inv(1) by (simp add: stores_inv_def)
  then have V: "V = (wr_pview s)(At_Head := Suc ?H)" and hist: "hist = wr_head s @ [(n, V)]"
    using assms(3) by (auto simp: store_def Let_def)
  have w: "wr_writes s = uses c (Suc ?H)" using cells_invD(1) [OF inv(4)] assms(2) by (simp add: writing_def)
  have "stores_inv c ?s"
    using inv(1,2) pc(1) w len
    by (auto simp: stores_inv_def views_inv_def hist V nth_append le_Suc_eq)
  moreover have "views_inv c ?s" using inv(2) pc(2) by (auto simp: views_inv_def V)
  moreover have "locals_inv c ?s"
    using inv(3) views_invD(6) [OF inv(2)] pc(1)
    by (cases "wr_cpc s") (auto simp: locals_inv_def nth_append)
  moreover have "cells_inv c ?s"
    using inv(4) w pc(3) views_invD(7) [OF inv(2)]
    by (auto simp: cells_inv_def writing_def nth_append less_Suc_eq)
  ultimately show ?thesis by (simp add: weak_inv_def)
qed

lemma weak_inv_mark:
  assumes "weak_inv c s" "high < c" "writing pc = writing (wr_ppc s)"
    and "weak_producer_inv c (length (wr_pushed s)) (wr_pview s) (wr_buffer s) high pc"
  shows "weak_inv c (s\<lparr>wr_dropped := d, wr_highWaterMark := high, wr_ppc := pc\<rparr>)"
proof -
  note inv = weak_invD [OF assms(1)]
  let ?s = "s\<lparr>wr_dropped := d, wr_highWaterMark := high, wr_ppc := pc\<rparr>"
  have "stores_inv c ?s" using inv(1) by (simp add: stores_inv_def)
  moreover have "views_inv c ?s" using inv(2) by (simp add: views_inv_def)
  moreover have "locals_inv c ?s" using inv(3) assms(4) by (simp add: locals_inv_def)
  moreover have "cells_inv c ?s" using inv(4) assms(2,3) by (simp add: cells_inv_def)
  ultimately show ?thesis by (simp add: weak_inv_def)
qed

lemma weak_inv_producer:
  assumes "weak_inv c s" "0 < c" "weak_producer code_orders item ts full fails s = Some s'"
  shows "weak_inv c s'"
proof -
  note inv = weak_invD [OF assms(1)]
  have c: "length (wr_buffer s) = c" "wr_highWaterMark s < c" using inv(4) by (simp_all add: cells_inv_def)
  have loc: "weak_producer_inv c (length (wr_pushed s)) (wr_pview s) (wr_buffer s) (wr_highWaterMark s) (wr_ppc s)"
    using inv(3) by (simp add: locals_inv_def)
  note step = assms(3) [unfolded weak_producer_def Let_def c(1)]
  show ?thesis
  proof (cases "wr_ppc s")
    case P_Idle
    with step weak_inv_load_head [OF assms(1) P_Idle] show ?thesis by auto
  next
    case (P_LoadTail x h)
    with step weak_inv_load_tail [OF assms(1) P_LoadTail assms(2)] show ?thesis
      by (auto simp: code_orders_def)
  next
    case P_Drop
    with step weak_inv_mark [OF assms(1) c(2), of P_Idle "wr_dropped s + 1"] show ?thesis
      by (simp add: writing_def)
  next
    case (P_Write x h n)
    with step weak_inv_write [OF assms(1) P_Write] show ?thesis by simp
  next
    case (P_StoreHead x n)
    with step weak_inv_store_head [OF assms(1) P_StoreHead] show ?thesis
      by (auto simp: code_orders_def split: prod.splits)
  next
    case (P_LoadHwm n)
    with step loc weak_inv_mark [OF assms(1) c(2), of "P_LoadUsed n (wr_highWaterMark s)" "wr_dropped s"] show ?thesis
      by (simp add: writing_def)
  next
    case (P_LoadUsed n high)
    with step obtain t V where l: "load Relaxed At_Tail ts (wr_tail s) (wr_pview s) = Some (t, V)"
      and s': "s' = s\<lparr>wr_pview := V, wr_ppc := P_Cas high ((n + c - t) mod c)\<rparr>" by auto
    show ?thesis unfolding s'
      using weak_inv_pview [OF assms(1) views_load_tail(1) [OF inv(1,2) l]] P_LoadUsed loc assms(2)
      by (simp add: writing_def)
  next
    case (P_Cas high used)
    with loc have "used < c" "high = wr_highWaterMark s" by simp_all
    with step P_Cas weak_inv_mark [OF assms(1), of used P_Idle "wr_dropped s"]
      weak_inv_mark [OF assms(1) c(2), of P_Idle "wr_dropped s"]
      weak_inv_mark [OF assms(1) c(2), of "P_Cas high used" "wr_dropped s"]
    show ?thesis by (auto simp: writing_def split: if_splits)
  qed
qed

subsection \<open>Steps of the consumer\<close>

text \<open>A step that only changes the consumer's view and position.\<close>

lemma weak_inv_cview:
  assumes "weak_inv c s" "views_inv c (s\<lparr>wr_cview := V\<rparr>)" "reading pc = reading (wr_cpc s)"
    and "weak_consumer_inv c (length (wr_popped s)) V (wr_pushed s) pc"
  shows "weak_inv c (s\<lparr>wr_cview := V, wr_cpc := pc\<rparr>)"
proof -
  note inv = weak_invD [OF assms(1)]
  have "stores_inv c (s\<lparr>wr_cview := V, wr_cpc := pc\<rparr>)" using inv(1) by (simp add: stores_inv_def)
  moreover have "views_inv c (s\<lparr>wr_cview := V, wr_cpc := pc\<rparr>)" using assms(2) by (simp add: views_inv_def)
  moreover have "locals_inv c (s\<lparr>wr_cview := V, wr_cpc := pc\<rparr>)" using inv(3) assms(4) by (simp add: locals_inv_def)
  moreover have "cells_inv c (s\<lparr>wr_cview := V, wr_cpc := pc\<rparr>)" using inv(4) assms(3) by (simp add: cells_inv_def)
  ultimately show ?thesis by (simp add: weak_inv_def)
qed

lemma weak_inv_load_own_tail:
  assumes "weak_inv c s" "wr_cpc s = C_Idle" "load Relaxed At_Tail ts (wr_tail s) (wr_cview s) = Some (t, V)"
  shows "weak_inv c (s\<lparr>wr_cview := V, wr_cpc := C_LoadHead t\<rparr>)"
proof -
  note inv = weak_invD [OF assms(1)]
  have "ts = length (wr_popped s)" "t = fst (wr_tail s ! ts)" "V = (wr_cview s)(At_Tail := ts)"
    using assms(3) inv(1,2) by (auto simp: load_Some stores_inv_def views_inv_def)
  then have "V = wr_cview s" "t = length (wr_popped s) mod c"
    using inv(1,2) by (auto simp: stores_inv_def views_inv_def)
  with weak_inv_cview [OF assms(1), of V "C_LoadHead t"] assms(2) inv(2) show ?thesis
    by (simp add: views_inv_def reading_def)
qed

lemma views_load_head:
  assumes "stores_inv c s" "views_inv c s" "load Acquire At_Head ts (wr_head s) (wr_cview s) = Some (h, V)"
  shows "views_inv c (s\<lparr>wr_cview := V\<rparr>)" "h = V At_Head mod c" "V At_Head \<le> length (wr_pushed s)"
    "length (wr_popped s) \<le> V At_Head" "uses c (V At_Head) i \<le> V (At_Cell i)"
proof -
  have ts: "wr_cview s At_Head \<le> ts" "ts \<le> length (wr_pushed s)" "h = fst (wr_head s ! ts)"
    and V: "V = join ((wr_cview s)(At_Head := ts)) (snd (wr_head s ! ts))"
    using assms(1,3) by (auto simp: load_Some stores_inv_def)
  have m: "fst (wr_head s ! ts) = ts mod c" "snd (wr_head s ! ts) At_Head \<le> ts"
    "snd (wr_head s ! ts) At_Tail \<le> length (wr_popped s)" "\<And>i. uses c ts i \<le> snd (wr_head s ! ts) (At_Cell i)"
    using assms(1) ts(2) by (simp_all add: stores_inv_def)
  have VH: "V At_Head = ts" and VT: "V At_Tail = length (wr_popped s)"
    using m(2,3) assms(2) by (simp_all add: V join_def views_inv_def)
  show "h = V At_Head mod c" "V At_Head \<le> length (wr_pushed s)" "length (wr_popped s) \<le> V At_Head"
    using ts m(1) VH views_invD(5) [OF assms(2)] by simp_all
  show "uses c (V At_Head) i \<le> V (At_Cell i)"
    using acquire_sees [OF assms(3), of "At_Cell i"] m(4) [of i] VH by simp
  have "wr_reads s i \<le> V (At_Read i)" for i
    using views_invD(4) [OF assms(2), of i] load_grows [OF assms(3), of "At_Read i"] by simp
  then show "views_inv c (s\<lparr>wr_cview := V\<rparr>)"
    using assms(2) ts VT VH views_invD(5) [OF assms(2)] by (simp add: views_inv_def)
qed

lemma weak_inv_load_other_head:
  assumes "weak_inv c s" "wr_cpc s = C_LoadHead t" "load Acquire At_Head ts (wr_head s) (wr_cview s) = Some (h, V)"
  shows "weak_inv c (s\<lparr>wr_cview := V, wr_cpc := (if t = h then C_Idle else C_Read t)\<rparr>)"
proof (rule weak_inv_cview [OF assms(1)])
  note inv = weak_invD [OF assms(1)]
  note v = views_load_head [OF inv(1,2) assms(3)]
  have t: "t = length (wr_popped s) mod c" using inv(3) assms(2) by (simp add: locals_inv_def)
  then have "length (wr_popped s) < V At_Head" if "t \<noteq> h" using that v(2,4) by (cases "length (wr_popped s) = V At_Head") auto
  with v(5) t show "weak_consumer_inv c (length (wr_popped s)) V (wr_pushed s) (if t = h then C_Idle else C_Read t)"
    by simp
  show "views_inv c (s\<lparr>wr_cview := V\<rparr>)" by (rule v(1))
  show "reading (if t = h then C_Idle else C_Read t) = reading (wr_cpc s)" by (simp add: assms(2) reading_def)
qed

lemma weak_inv_read:
  assumes "weak_inv c s" "wr_cpc s = C_Read t"
  shows "weak_inv c (s\<lparr>wr_reads := (wr_reads s)(t := Suc (wr_reads s t)),
    wr_cview := (wr_cview s)(At_Read t := Suc (wr_reads s t)), wr_cpc := C_StoreTail t (wr_buffer s ! t)\<rparr>)"
    (is "weak_inv c ?s")
proof -
  note inv = weak_invD [OF assms(1)]
  let ?T = "length (wr_popped s)"
  have pc: "t = ?T mod c" "?T < wr_cview s At_Head" using inv(3) assms(2) by (simp_all add: locals_inv_def)
  then have "wr_buffer s ! t = wr_pushed s ! ?T"
    using inv(4) views_invD(6) [OF inv(2)] by (simp add: cells_inv_def)
  then have "locals_inv c ?s" using inv(3) pc by (simp add: locals_inv_def)
  moreover have "(wr_reads s)(t := Suc (wr_reads s t)) = uses c (Suc ?T)"
    using cells_invD(2) [OF inv(4)] assms(2) pc(1) by (auto simp: fun_eq_iff reading_def)
  then have "cells_inv c ?s" using inv(4) by (simp add: cells_inv_def reading_def)
  moreover have "stores_inv c ?s" using inv(1) by (simp add: stores_inv_def)
  moreover have "views_inv c ?s" using inv(2) by (simp add: views_inv_def)
  ultimately show ?thesis by (simp add: weak_inv_def)
qed

lemma weak_inv_store_tail:
  assumes "weak_inv c s" "0 < c" "wr_cpc s = C_StoreTail t x"
    and "store Release At_Tail (increment c t) (wr_tail s) (wr_cview s) = (hist, V)"
  shows "weak_inv c (s\<lparr>wr_tail := hist, wr_cview := V, wr_cpc := C_Idle, wr_popped := wr_popped s @ [x]\<rparr>)"
    (is "weak_inv c ?s")
proof -
  note inv = weak_invD [OF assms(1)]
  let ?T = "length (wr_popped s)"
  have pc: "t = ?T mod c" "?T < wr_cview s At_Head" "x = wr_pushed s ! ?T"
    using inv(3) assms(3) by (simp_all add: locals_inv_def)
  have T: "?T < length (wr_pushed s)" using pc(2) views_invD(6) [OF inv(2)] by simp
  have len: "length (wr_tail s) = Suc ?T" using inv(1) by (simp add: stores_inv_def)
  then have V: "V = (wr_cview s)(At_Tail := Suc ?T)" and hist: "hist = wr_tail s @ [(Suc ?T mod c, V)]"
    using assms(4) by (auto simp: store_def Let_def pc(1) increment_mod [OF assms(2)])
  have r: "wr_reads s = uses c (Suc ?T)" using cells_invD(2) [OF inv(4)] assms(3) by (simp add: reading_def)
  have "stores_inv c ?s"
    using inv(1,2) r len
    by (auto simp: stores_inv_def views_inv_def hist V nth_append le_Suc_eq)
  moreover have "views_inv c ?s" using inv(2) pc(2) by (auto simp: views_inv_def V)
  moreover have "locals_inv c ?s" using inv(3) by (simp add: locals_inv_def)
  moreover have "take (Suc ?T) (wr_pushed s) = wr_popped s @ [x]"
    using inv(4) T pc(3) by (simp add: cells_inv_def take_Suc_conv_app_nth)
  then have "cells_inv c ?s" using inv(4) r by (simp add: cells_inv_def reading_def)
  ultimately show ?thesis by (simp add: weak_inv_def)
qed

lemma weak_inv_consumer:
  assumes "weak_inv c s" "0 < c" "weak_consumer code_orders ts s = Some s'"
  shows "weak_inv c s'"
proof -
  have c: "length (wr_buffer s) = c" using weak_invD(4) [OF assms(1)] by (simp add: cells_inv_def)
  note step = assms(3) [unfolded weak_consumer_def c]
  show ?thesis
  proof (cases "wr_cpc s")
    case C_Idle
    with step weak_inv_load_own_tail [OF assms(1) C_Idle] show ?thesis by auto
  next
    case (C_LoadHead t)
    with step weak_inv_load_other_head [OF assms(1) C_LoadHead] show ?thesis by (auto simp: code_orders_def)
  next
    case (C_Read t)
    with step weak_inv_read [OF assms(1) C_Read] show ?thesis by simp
  next
    case (C_StoreTail t x)
    with step weak_inv_store_tail [OF assms(1,2) C_StoreTail] show ?thesis
      by (auto simp: code_orders_def split: prod.splits)
  qed
qed

lemma weak_inv_step: "weak_inv c s \<Longrightarrow> 0 < c \<Longrightarrow> weak_step code_orders s s' \<Longrightarrow> weak_inv c s'"
proof (erule weak_stepE)
  fix m assume "weak_inv c s" "0 < c" "weak_next code_orders m s = Some s'"
  then show ?thesis by (cases m) (auto intro: weak_inv_producer weak_inv_consumer)
qed

interpretation weak_ring: machine "weak_step code_orders" "\<lambda>s. \<exists>b. b \<noteq> [] \<and> length b = c \<and> s = weak_new b"
  "\<lambda>s. 0 < c \<and> weak_inv c s" for c
proof
  fix s :: "'a weak_ring" assume "\<exists>b. b \<noteq> [] \<and> length b = c \<and> s = weak_new b"
  then show "0 < c \<and> weak_inv c s" using weak_inv_new by auto
qed (auto intro: weak_inv_step)

section \<open>The queue\<close>

text \<open>The items published and not yet taken; every step is one of a bounded queue.\<close>

definition wr_queue :: "'a weak_ring \<Rightarrow> 'a list" where
  "wr_queue s = drop (length (wr_popped s)) (wr_pushed s)"

lemma weak_inv_queue:
  assumes "weak_inv c s"
  shows "wr_pushed s = wr_popped s @ wr_queue s" "length (wr_queue s) < c"
proof -
  note inv = weak_invD [OF assms]
  have "wr_popped s = take (length (wr_popped s)) (wr_pushed s)" using inv(4) by (simp add: cells_inv_def)
  then show "wr_pushed s = wr_popped s @ wr_queue s" unfolding wr_queue_def by (metis append_take_drop_id)
  show "length (wr_queue s) < c" using views_invD(7,8) [OF inv(2)] by (simp add: wr_queue_def)
qed

lemma weak_producer_history:
  assumes "weak_producer order item ts full fails s = Some s'"
  shows "wr_popped s' = wr_popped s \<and> (wr_pushed s' = wr_pushed s \<or> (\<exists>x. wr_pushed s' = wr_pushed s @ [x]))"
  using assms
  by (auto simp: weak_producer_def Let_def split: producer_pc.splits prod.splits if_splits)

lemma weak_consumer_history:
  assumes "weak_consumer order ts s = Some s'"
  shows "wr_pushed s' = wr_pushed s \<and> (wr_popped s' = wr_popped s \<or> (\<exists>x. wr_popped s' = wr_popped s @ [x]))"
  using assms
  by (auto simp: weak_consumer_def Let_def split: consumer_pc.splits prod.splits if_splits)

lemma weak_step_queue:
  assumes "weak_inv c s" "0 < c" "weak_step code_orders s s'"
  shows "queue_step (c - 1) (wr_queue s) (wr_queue s')"
proof -
  note q = weak_inv_queue [OF assms(1)]
  note q' = weak_inv_queue [OF weak_inv_step [OF assms]]
  from assms(3) obtain m where m: "weak_next code_orders m s = Some s'" by (rule weak_stepE)
  show ?thesis
  proof (cases m)
    case (By_Producer item ts full fails)
    with m have "weak_producer code_orders item ts full fails s = Some s'" by simp
    from weak_producer_history [OF this] show ?thesis using q q' by (auto simp: queue_step_def)
  next
    case (By_Consumer ts)
    with m have "weak_consumer code_orders ts s = Some s'" by simp
    from weak_consumer_history [OF this] have "wr_queue s' = wr_queue s \<or> (\<exists>x. wr_queue s = x # wr_queue s')"
      using q(1) q'(1) by (metis append.assoc append_Cons append_Nil same_append_eq)
    then show ?thesis by (auto simp: queue_step_def)
  qed
qed

section \<open>Which orders are strong enough\<close>

abbreviation moveP :: "nat \<Rightarrow> nat weak_move" where
  "moveP ts \<equiv> By_Producer 7 ts Give_Up False"

lemmas weak_eval = weak_producer_def weak_consumer_def load_def store_def join_def
  weak_new_def increment_def data_race_def Let_def

text \<open>Orders that C++ allows, and those among them that make stores release and loads acquire.\<close>

definition permitted :: "orders \<Rightarrow> bool" where
  "permitted order \<longleftrightarrow> load_order (or_loadTail order) \<and> store_order (or_storeHead order)
     \<and> load_order (or_loadHead order) \<and> store_order (or_storeTail order)"

definition synchronised :: "orders \<Rightarrow> bool" where
  "synchronised order \<longleftrightarrow> acquires (or_loadTail order) \<and> releases (or_storeHead order)
     \<and> acquires (or_loadHead order) \<and> releases (or_storeTail order)"

lemma permitted_synchronised:
  "permitted order \<Longrightarrow> synchronised order \<longleftrightarrow>
     or_loadTail order \<in> {Acquire, Seq_Cst} \<and> or_storeHead order \<in> {Release, Seq_Cst}
   \<and> or_loadHead order \<in> {Acquire, Seq_Cst} \<and> or_storeTail order \<in> {Release, Seq_Cst}"
  by (simp add: permitted_def synchronised_def load_order_acquires store_order_releases)

text \<open>With them the buffer does what it does with the orders of the code.\<close>

lemma synchronised_next:
  assumes "synchronised order"
  shows "weak_next order m s = weak_next code_orders m s"
proof -
  have "load (or_loadTail order) = (load Acquire :: ring_loc \<Rightarrow> _ \<Rightarrow> (ring_loc, nat) message list \<Rightarrow> _)"
    "load (or_loadHead order) = (load Acquire :: ring_loc \<Rightarrow> _ \<Rightarrow> (ring_loc, nat) message list \<Rightarrow> _)"
    "store (or_storeHead order) = (store Release :: ring_loc \<Rightarrow> nat \<Rightarrow> _)"
    "store (or_storeTail order) = (store Release :: ring_loc \<Rightarrow> nat \<Rightarrow> _)"
    using assms by (simp_all add: synchronised_def fun_eq_iff load_def store_def)
  then show ?thesis by (cases m) (simp_all add: weak_producer_def weak_consumer_def code_orders_def Let_def split: producer_pc.split consumer_pc.split)
qed

lemma synchronised_step: "synchronised order \<Longrightarrow> weak_step order = weak_step code_orders"
  by (auto simp: fun_eq_iff synchronised_next elim!: weak_stepE intro: weak_step.step)

definition race_reachable :: "orders \<Rightarrow> bool" where
  "race_reachable order \<longleftrightarrow>
     (\<exists>b s. b \<noteq> [] \<and> (weak_step order)\<^sup>*\<^sup>* (weak_new (b :: nat list)) s \<and> data_race s)"

lemma synchronised_no_race:
  assumes "synchronised order"
  shows "\<not> race_reachable order"
proof -
  have "\<not> data_race s" if "b \<noteq> []" "(weak_step code_orders)\<^sup>*\<^sup>* (weak_new b) s" for b and s :: "nat weak_ring"
  proof -
    have "0 < length b \<and> weak_inv (length b) s"
      by (rule weak_ring.reachable_inv [OF _ that(2)]) (use that(1) in blast)
    then show ?thesis using weak_inv_no_race by blast
  qed
  then show ?thesis unfolding race_reachable_def synchronised_step [OF assms] by blast
qed

text \<open>
  A run in which every load takes the last store of its variable, whatever it knows of. The order of
  the run is then also an order of all sequentially consistent accesses.
\<close>

fun takes_last :: "'a weak_move \<Rightarrow> 'a weak_ring \<Rightarrow> bool" where
  "takes_last (By_Producer item ts full fails) s \<longleftrightarrow> (case wr_ppc s of
     P_Idle \<Rightarrow> Suc ts = length (wr_head s)
   | P_LoadTail _ _ \<Rightarrow> Suc ts = length (wr_tail s)
   | P_LoadUsed _ _ \<Rightarrow> Suc ts = length (wr_tail s)
   | _ \<Rightarrow> True)"
| "takes_last (By_Consumer ts) s \<longleftrightarrow> (case wr_cpc s of
     C_Idle \<Rightarrow> Suc ts = length (wr_tail s)
   | C_LoadHead _ \<Rightarrow> Suc ts = length (wr_head s)
   | _ \<Rightarrow> True)"

fun last_run :: "orders \<Rightarrow> 'a weak_move list \<Rightarrow> 'a weak_ring \<Rightarrow> 'a weak_ring option" where
  "last_run order [] s = Some s"
| "last_run order (m # ms) s = (if takes_last m s then Option.bind (weak_next order m s) (last_run order ms) else None)"

lemma last_run_steps: "last_run order ms s = Some s' \<Longrightarrow> (weak_step order)\<^sup>*\<^sup>* s s'"
proof (induction ms arbitrary: s)
  case (Cons m ms)
  then obtain s1 where "weak_next order m s = Some s1" "last_run order ms s1 = Some s'"
    by (auto simp: bind_eq_Some_conv split: if_splits)
  with Cons.IH show ?case by (meson weak_step.step converse_rtranclp_into_rtranclp)
qed simp

definition last_store_race :: "orders \<Rightarrow> bool" where
  "last_store_race order \<longleftrightarrow> (\<exists>ms s. last_run order ms (weak_new [0 :: nat, 0]) = Some s \<and> data_race s)"

lemma last_store_race_reachable: "last_store_race order \<Longrightarrow> race_reachable order"
  using last_run_steps [of order _ "weak_new [0 :: nat, 0]"]
  unfolding last_store_race_def race_reachable_def by blast

text \<open>Without the pair on \<open>_head\<close> the consumer reads a cell whose write it does not know of.\<close>

definition head_run :: "nat weak_move list" where
  "head_run = [moveP 0, moveP 0, moveP 0, moveP 0, By_Consumer 0, By_Consumer 1]"

lemma head_orders_needed:
  assumes "\<not> releases (or_storeHead order) \<or> \<not> acquires (or_loadHead order)"
  shows "last_store_race order"
proof -
  have "\<exists>s. last_run order head_run (weak_new [0, 0]) = Some s \<and> data_race s"
    using assms by (cases "acquires (or_loadHead order)") (simp_all add: weak_eval head_run_def)
  then show ?thesis unfolding last_store_race_def by blast
qed

text \<open>Without the pair on \<open>_tail\<close> the producer writes a cell whose read it does not know of.\<close>

definition tail_run :: "nat weak_move list" where
  "tail_run = [moveP 0, moveP 0, moveP 0, moveP 0, moveP 0, moveP 0, moveP 0,
     By_Consumer 0, By_Consumer 1, By_Consumer 0, By_Consumer 0,
     moveP 1, moveP 1, moveP 0, moveP 0, moveP 0, moveP 1, moveP 0,
     By_Consumer 1, By_Consumer 2, By_Consumer 0, By_Consumer 0,
     moveP 2, moveP 2]"

lemma tail_orders_needed:
  assumes "\<not> releases (or_storeTail order) \<or> \<not> acquires (or_loadTail order)"
  shows "last_store_race order"
proof (cases "releases (or_storeHead order) \<and> acquires (or_loadHead order)")
  case True
  have "\<exists>s. last_run order tail_run (weak_new [0, 0]) = Some s \<and> data_race s"
    using assms True by (cases "acquires (or_loadTail order)") (simp_all add: weak_eval tail_run_def)
  then show ?thesis unfolding last_store_race_def by blast
next
  case False
  then show ?thesis using head_orders_needed by blast
qed

lemma race_free_orders:
  "race_reachable order = (\<not> synchronised order)" "last_store_race order = (\<not> synchronised order)"
proof -
  have "\<not> synchronised order \<Longrightarrow> last_store_race order"
    using head_orders_needed tail_orders_needed by (auto simp: synchronised_def)
  then show "race_reachable order = (\<not> synchronised order)" "last_store_race order = (\<not> synchronised order)"
    using synchronised_no_race last_store_race_reachable by blast+
qed

end
