(* ===== verification/RelAcqRuns.thy ===== *)
theory RelAcqRuns
  imports SpScRelAcq
begin

text \<open>
  Runs of the ring buffer under release and acquire: what the high-water mark says, and that every
  call returns.
\<close>

section \<open>The high-water mark\<close>

text \<open>The largest number of items the buffer holds in the states of a run.\<close>

fun weak_peak :: "orders \<Rightarrow> 'a weak_move list \<Rightarrow> 'a weak_ring \<Rightarrow> nat" where
  "weak_peak order [] s = length (wr_queue s)"
| "weak_peak order (m # ms) s =
     max (length (wr_queue s)) (case weak_next order m s of None \<Rightarrow> 0 | Some s' \<Rightarrow> weak_peak order ms s')"

text \<open>An item that is taken before the producer has read the tail again is not counted.\<close>

definition missed_run :: "nat weak_move list" where
  "missed_run = [moveP 0, moveP 0, moveP 0, moveP 0, By_Consumer 0, By_Consumer 1, By_Consumer 0, By_Consumer 0,
     moveP 0, moveP 1, moveP 0]"

lemma watermark_misses:
  "\<exists>s. weak_run code_orders missed_run (weak_new [0, 0, 0]) = Some s \<and> wr_ppc s = P_Idle \<and> wr_highWaterMark s = 0
    \<and> weak_peak code_orders missed_run (weak_new [0, 0, 0]) = 1"
  by (simp add: weak_eval missed_run_def code_orders_def wr_queue_def)

text \<open>An item that was taken long ago is counted when the tail that is read is out of date.\<close>

definition stale_run :: "nat weak_move list" where
  "stale_run = [moveP 0, moveP 0, moveP 0, moveP 0, moveP 0, moveP 0, moveP 0,
     By_Consumer 0, By_Consumer 1, By_Consumer 0, By_Consumer 0,
     moveP 1, moveP 0, moveP 0, moveP 0, moveP 0, moveP 0, moveP 0]"

lemma watermark_overstates:
  "\<exists>s. weak_run code_orders stale_run (weak_new [0, 0, 0]) = Some s \<and> wr_ppc s = P_Idle \<and> wr_highWaterMark s = 2
    \<and> weak_peak code_orders stale_run (weak_new [0, 0, 0]) = 1"
  by (simp add: weak_eval stale_run_def code_orders_def wr_queue_def)

section \<open>Every call returns\<close>

text \<open>
  How many steps of its own a thread has left in its call, not counting exchanges of the high-water
  mark that fail: only the producer writes the mark, so \<open>compare_exchange_weak\<close> fails only for no
  reason, and the thread is then where it was.
\<close>

fun push_rank :: "'a producer_pc \<Rightarrow> nat" where
  "push_rank P_Idle = 0"
| "push_rank (P_LoadTail x h) = 6"
| "push_rank P_Drop = 1"
| "push_rank (P_Write x h n) = 5"
| "push_rank (P_StoreHead x n) = 4"
| "push_rank (P_LoadHwm n) = 3"
| "push_rank (P_LoadUsed n high) = 2"
| "push_rank (P_Cas high used) = 1"

fun pop_rank :: "'a consumer_pc \<Rightarrow> nat" where
  "pop_rank C_Idle = 0"
| "pop_rank (C_LoadHead t) = 3"
| "pop_rank (C_Read t) = 2"
| "pop_rank (C_StoreTail t x) = 1"

lemma ranks_bounded: "push_rank pc \<le> 6" "pop_rank pc' \<le> 3"
  by (cases pc; simp) (cases pc'; simp)

lemma push_rank_step:
  assumes "weak_inv c s" "weak_producer code_orders item ts full fails s = Some s'" "wr_ppc s \<noteq> P_Idle" "full \<noteq> Try_Again"
  shows "push_rank (wr_ppc s') < push_rank (wr_ppc s) \<or> (fails \<and> wr_ppc s' = wr_ppc s)"
proof (cases "wr_ppc s")
  case (P_Cas high used)
  have "high = wr_highWaterMark s" using weak_invD(3) [OF assms(1)] P_Cas by (simp add: locals_inv_def)
  with assms(2) P_Cas show ?thesis by (auto simp: weak_producer_def split: if_splits)
qed (use assms(2-4) in \<open>auto simp: weak_producer_def Let_def split: prod.splits if_splits on_full.splits\<close>)

lemma pop_rank_step:
  assumes "weak_consumer order ts s = Some s'" "wr_cpc s \<noteq> C_Idle"
  shows "pop_rank (wr_cpc s') < pop_rank (wr_cpc s)"
  using assms by (cases "wr_cpc s") (auto simp: weak_consumer_def split: prod.splits)

lemma weak_other_pc:
  "weak_producer order item ts full fails s = Some s' \<Longrightarrow> wr_cpc s' = wr_cpc s"
  "weak_consumer order ts s = Some s' \<Longrightarrow> wr_ppc s' = wr_ppc s"
  by (auto simp: weak_producer_def weak_consumer_def Let_def
      split: producer_pc.splits consumer_pc.splits prod.splits)

text \<open>
  The steps of a thread in a run during which it stays inside one call, whatever the other thread does
  in between.
\<close>

fun is_producer :: "'a weak_move \<Rightarrow> bool" where
  "is_producer (By_Producer item ts full fails) = True"
| "is_producer (By_Consumer ts) = False"

fun spurious :: "'a weak_move \<Rightarrow> bool" where
  "spurious (By_Producer item ts full fails) = fails"
| "spurious (By_Consumer ts) = False"

fun retries :: "'a weak_move \<Rightarrow> bool" where
  "retries (By_Producer item ts full fails) \<longleftrightarrow> full = Try_Again"
| "retries (By_Consumer ts) \<longleftrightarrow> False"

lemma push_steps_bounded:
  assumes "weak_inv c s" "0 < c" "weak_run code_orders ms s = Some s'" "\<And>m. m \<in> set ms \<Longrightarrow> \<not> retries m"
    and "\<And>k s1. k < length ms \<Longrightarrow> weak_run code_orders (take k ms) s = Some s1 \<Longrightarrow> wr_ppc s1 \<noteq> P_Idle"
  shows "length (filter is_producer ms) + push_rank (wr_ppc s') \<le> push_rank (wr_ppc s) + length (filter spurious ms)"
  using assms
proof (induction ms arbitrary: s)
  case (Cons m ms)
  from Cons.prems(3) obtain s1 where s1: "weak_next code_orders m s = Some s1" "weak_run code_orders ms s1 = Some s'"
    by (auto simp: bind_eq_Some_conv)
  have inv1: "weak_inv c s1" by (rule weak_inv_step [OF Cons.prems(1,2) weak_step.step [OF s1(1)]])
  have inside1: "wr_ppc s2 \<noteq> P_Idle" if "k < length ms" "weak_run code_orders (take k ms) s1 = Some s2" for k s2
    using Cons.prems(5) [of "Suc k" s2] that s1(1) by simp
  have IH: "length (filter is_producer ms) + push_rank (wr_ppc s') \<le> push_rank (wr_ppc s1) + length (filter spurious ms)"
    by (rule Cons.IH [OF inv1 Cons.prems(2) s1(2)]) (use Cons.prems(4) inside1 in auto)
  have inside: "wr_ppc s \<noteq> P_Idle" using Cons.prems(5) [of 0 s] by simp
  show ?case
  proof (cases m)
    case (By_Producer item ts full fails)
    then have "weak_producer code_orders item ts full fails s = Some s1" "full \<noteq> Try_Again"
      using s1(1) Cons.prems(4) [of m] by auto
    from push_rank_step [OF Cons.prems(1) this(1) inside this(2)] IH By_Producer show ?thesis by auto
  next
    case (By_Consumer ts)
    then have "wr_ppc s1 = wr_ppc s" using weak_other_pc(2) s1(1) by auto
    with IH By_Consumer show ?thesis by simp
  qed
qed simp

lemma pop_steps_bounded:
  assumes "weak_run order ms s = Some s'"
    and "\<And>k s1. k < length ms \<Longrightarrow> weak_run order (take k ms) s = Some s1 \<Longrightarrow> wr_cpc s1 \<noteq> C_Idle"
  shows "length (filter (\<lambda>m. \<not> is_producer m) ms) + pop_rank (wr_cpc s') \<le> pop_rank (wr_cpc s)"
  using assms
proof (induction ms arbitrary: s)
  case (Cons m ms)
  from Cons.prems(1) obtain s1 where s1: "weak_next order m s = Some s1" "weak_run order ms s1 = Some s'"
    by (auto simp: bind_eq_Some_conv)
  have inside1: "wr_cpc s2 \<noteq> C_Idle" if "k < length ms" "weak_run order (take k ms) s1 = Some s2" for k s2
    using Cons.prems(2) [of "Suc k" s2] that s1(1) by simp
  have IH: "length (filter (\<lambda>m. \<not> is_producer m) ms) + pop_rank (wr_cpc s') \<le> pop_rank (wr_cpc s1)"
    by (rule Cons.IH [OF s1(2)]) (use inside1 in auto)
  have inside: "wr_cpc s \<noteq> C_Idle" using Cons.prems(2) [of 0 s] by simp
  show ?case
  proof (cases m)
    case (By_Producer item ts full fails)
    then have "wr_cpc s1 = wr_cpc s" using weak_other_pc(1) s1(1) by auto
    with IH By_Producer show ?thesis by simp
  next
    case (By_Consumer ts)
    then have "weak_consumer order ts s = Some s1" using s1(1) by simp
    from pop_rank_step [OF this inside] IH By_Consumer show ?thesis by simp
  qed
qed simp

text \<open>The producer keeps what it was given.\<close>

lemma weak_producer_items:
  assumes "weak_producer order item ts full fails s = Some s'"
  shows "set_producer_pc (wr_ppc s') \<union> set (wr_pushed s')
    \<subseteq> insert item (set_producer_pc (wr_ppc s) \<union> set (wr_pushed s))"
  using assms
  by (auto simp: weak_producer_def Let_def split: producer_pc.splits prod.splits if_splits on_full.splits)

text \<open>Popping ends with the consumer idle, and only its last step takes an item.\<close>

lemma weak_consumer_pops:
  assumes "weak_consumer order ts s = Some s'"
  shows "wr_popped s' = wr_popped s \<or> (wr_cpc s' = C_Idle \<and> (\<exists>x. wr_popped s' = wr_popped s @ [x]))"
  using assms
  by (auto simp: weak_consumer_def Let_def split: consumer_pc.splits prod.splits if_splits)

text \<open>A thread is never held up by the other: it can always take a step.\<close>

lemma weak_can_load:
  assumes "V l < length hist"
  obtains v V' where "load order l (V l) hist V = Some (v, V')"
  using assms that by (simp add: load_def)

lemma weak_always_enabled:
  assumes "weak_inv c s"
  shows "\<exists>ts. weak_producer code_orders item ts full fails s \<noteq> None" "\<exists>ts. weak_consumer code_orders ts s \<noteq> None"
proof -
  note st = weak_invD(1,2) [OF assms]
  have "wr_pview s At_Head < length (wr_head s)" "wr_pview s At_Tail < length (wr_tail s)"
    "wr_cview s At_Head < length (wr_head s)" "wr_cview s At_Tail < length (wr_tail s)"
    using st by (auto simp: stores_inv_def views_inv_def)
  then have can: "\<exists>ts. load order At_Head ts (wr_head s) (wr_pview s) \<noteq> None" "\<exists>ts. load order At_Tail ts (wr_tail s) (wr_pview s) \<noteq> None"
    "\<exists>ts. load order At_Head ts (wr_head s) (wr_cview s) \<noteq> None" "\<exists>ts. load order At_Tail ts (wr_tail s) (wr_cview s) \<noteq> None"
    for order by (metis weak_can_load option.distinct(1))+
  show "\<exists>ts. weak_producer code_orders item ts full fails s \<noteq> None"
    using can(1,2) by (cases "wr_ppc s") (auto simp: weak_producer_def Let_def split: prod.splits)
  show "\<exists>ts. weak_consumer code_orders ts s \<noteq> None"
    using can(3,4) by (cases "wr_cpc s") (auto simp: weak_consumer_def Let_def split: prod.splits)
qed

end
