(* ===== verification/PartitionThreads.thy ===== *)
theory PartitionThreads
  imports Partition RelAcqRuns
begin

text \<open>
  A partition of \<^verbatim>\<open>libs/match/MatchingEnginePartition.h\<close> between two threads: one calls \<open>submitOrder\<close>,
  the other \<open>processOrders\<close>, again and again. Between them is the queue of orders, the ring buffer
  under release and acquire of \<open>SpScRelAcq\<close>; the queue of fills and the senders belong to the second
  thread. Each \<open>::send\<close> of \<open>sendAll\<close> and each \<open>::sendto\<close> is a step, at which the call returns; until then
  the thread waits in it.
\<close>

section \<open>State and steps\<close>

text \<open>
  Where the matching thread is: outside \<open>processOrders\<close>, inside \<open>tryPop\<close>, whose own position is that
  of the consumer of the ring buffer, about to match the order it was given, in a \<open>::send\<close> of \<open>sendAll\<close>
  (with its variables \<open>ptr\<close> and \<open>remaining\<close> and the bytes the socket has taken), or in \<open>::sendto\<close>.
\<close>

datatype 'd matcher_pc = Match_Out | Match_Pop | Match_Order order_rec
  | Match_Send order_rec "'d exec_report" nat nat "u8 list" | Match_Cast order_rec "'d exec_report"

text \<open>Of \<open>px_partition\<close> everything is used but its queue of orders, which is \<open>px_queue\<close>.\<close>

record 'd partition_threads =
  px_queue :: "order_rec weak_ring"
  px_pc :: "'d matcher_pc"
  px_partition :: "'d partition"

definition partition_threads_new :: "order_rec list \<Rightarrow> 'd partition \<Rightarrow> 'd partition_threads" where
  "partition_threads_new b p = \<lparr>px_queue = weak_new b, px_pc = Match_Out, px_partition = p\<rparr>"

definition submit_next :: "order_rec \<Rightarrow> nat \<Rightarrow> bool \<Rightarrow> 'd partition_threads \<Rightarrow> 'd partition_threads option" where
  "submit_next ord ts fails s =
     map_option (\<lambda>q. s\<lparr>px_queue := q\<rparr>) (weak_producer code_orders ord ts Give_Up fails (px_queue s))"

text \<open>The end of \<open>sendAll\<close>, and the head of its loop.\<close>

definition sent_all :: "order_rec \<Rightarrow> 'd exec_report \<Rightarrow> u8 list \<Rightarrow> 'd partition_threads \<Rightarrow> 'd partition_threads" where
  "sent_all ord r sent s =
     s\<lparr>px_partition := (px_partition s)\<lparr>pt_sent := pt_sent (px_partition s) @ [Sent_Tcp r sent]\<rparr>,
       px_pc := Match_Cast ord r\<rparr>"

definition send_on ::
  "order_rec \<Rightarrow> 'd exec_report \<Rightarrow> nat \<Rightarrow> nat \<Rightarrow> u8 list \<Rightarrow> 'd partition_threads \<Rightarrow> 'd partition_threads" where
  "send_on ord r ptr remaining sent s =
     (if remaining = 0 then sent_all ord r sent s else s\<lparr>px_pc := Match_Send ord r ptr remaining sent\<rparr>)"

text \<open>
  When the consumer of the ring buffer is idle again, \<open>tryPop\<close> has returned: with an order if it
  has popped one, otherwise \<open>false\<close>, which ends the loop of \<open>processOrders\<close>. A load takes the store
  \<open>ts\<close>; a call that the thread is in returns \<open>n\<close>. A \<open>::send\<close> that is to read past the report is
  undefined.
\<close>

definition match_next ::
  "(i64 \<Rightarrow> 'd) \<Rightarrow> (nat \<Rightarrow> u64) \<Rightarrow> ('d exec_report \<Rightarrow> u8 list) \<Rightarrow> nat \<Rightarrow> int
    \<Rightarrow> 'd partition_threads \<Rightarrow> 'd partition_threads option" where
  "match_next toDouble clock rep ts n s =
     (let p = px_partition s
      in case px_pc s of
        Match_Out \<Rightarrow> Some (s\<lparr>px_pc := Match_Pop\<rparr>)
      | Match_Pop \<Rightarrow>
          map_option (\<lambda>q. s\<lparr>px_queue := q,
              px_pc := (if wr_cpc q \<noteq> C_Idle then Match_Pop
                        else if wr_popped q = wr_popped (px_queue s) then Match_Out
                        else Match_Order (last (wr_popped q)))\<rparr>)
            (weak_consumer code_orders ts (px_queue s))
      | Match_Order ord \<Rightarrow>
          map_option (\<lambda>r. send_on ord r 0 (length (rep r)) []
              (s\<lparr>px_partition := p\<lparr>pt_fillsQueue := snd (tryPush r (pt_fillsQueue p))\<rparr>\<rparr>))
            (make_report toDouble (clock (pt_reports p)) ord)
      | Match_Send ord r ptr remaining sent \<Rightarrow>
          if ptr + remaining > length (rep r) then None
          else Some (if n \<le> 0 then sent_all ord r sent s
                     else send_on ord r (ptr + nat n) (remaining - 1) (sent @ take (nat n) (drop ptr (rep r))) s)
      | Match_Cast ord r \<Rightarrow>
          Some (s\<lparr>px_partition := p\<lparr>pt_sent := pt_sent p
                      @ [Sent_Udp r (snd (udp_sender_send n (pt_udpSender p) (rep r)))],
                    pt_reports := Suc (pt_reports p)\<rparr>,
                  px_pc := Match_Pop\<rparr>))"

datatype partition_move = By_Submitter order_rec nat bool | By_Matcher nat int

fun partition_next ::
  "(i64 \<Rightarrow> 'd) \<Rightarrow> (nat \<Rightarrow> u64) \<Rightarrow> ('d exec_report \<Rightarrow> u8 list) \<Rightarrow> partition_move
    \<Rightarrow> 'd partition_threads \<Rightarrow> 'd partition_threads option" where
  "partition_next toDouble clock rep (By_Submitter ord ts fails) s = submit_next ord ts fails s"
| "partition_next toDouble clock rep (By_Matcher ts n) s = match_next toDouble clock rep ts n s"

fun partition_run ::
  "(i64 \<Rightarrow> 'd) \<Rightarrow> (nat \<Rightarrow> u64) \<Rightarrow> ('d exec_report \<Rightarrow> u8 list) \<Rightarrow> partition_move list
    \<Rightarrow> 'd partition_threads \<Rightarrow> 'd partition_threads option" where
  "partition_run toDouble clock rep [] s = Some s"
| "partition_run toDouble clock rep (m # ms) s =
     Option.bind (partition_next toDouble clock rep m s) (partition_run toDouble clock rep ms)"

text \<open>The submitter submits orders whose symbol is terminated.\<close>

fun proper_move :: "partition_move \<Rightarrow> bool" where
  "proper_move (By_Submitter ord ts fails) \<longleftrightarrow> symbol_wf (o_symbol ord)"
| "proper_move (By_Matcher ts n) \<longleftrightarrow> True"

inductive partition_moves ::
  "(i64 \<Rightarrow> 'd) \<Rightarrow> (nat \<Rightarrow> u64) \<Rightarrow> ('d exec_report \<Rightarrow> u8 list) \<Rightarrow> 'd partition_threads \<Rightarrow> 'd partition_threads \<Rightarrow> bool"
  for toDouble clock rep where
  partition_moves: "proper_move m \<Longrightarrow> partition_next toDouble clock rep m s = Some s'
    \<Longrightarrow> partition_moves toDouble clock rep s s'"

inductive_cases partition_movesE: "partition_moves toDouble clock rep s s'"

lemma partition_run_steps:
  "partition_run toDouble clock rep ms s = Some s' \<Longrightarrow> (\<And>m. m \<in> set ms \<Longrightarrow> proper_move m)
    \<Longrightarrow> (partition_moves toDouble clock rep)\<^sup>*\<^sup>* s s'"
proof (induction ms arbitrary: s)
  case (Cons m ms)
  then obtain s1 where s1: "partition_next toDouble clock rep m s = Some s1" "partition_run toDouble clock rep ms s1 = Some s'"
    by (auto simp: bind_eq_Some_conv)
  have "partition_moves toDouble clock rep s s1"
    using partition_moves.partition_moves [OF _ s1(1)] Cons.prems(2) by simp
  with Cons.IH [OF s1(2)] Cons.prems(2) show ?case by (simp add: converse_rtranclp_into_rtranclp)
qed simp

section \<open>The steps are those of the code\<close>

text \<open>
  The steps of the matching thread from an order it was given to the end of \<open>matchOrder\<close>, with the results
  of the calls. They do what \<open>part_matchOrder\<close> does with these results.
\<close>

fun matcher_run ::
  "(i64 \<Rightarrow> 'd) \<Rightarrow> (nat \<Rightarrow> u64) \<Rightarrow> ('d exec_report \<Rightarrow> u8 list) \<Rightarrow> int list
    \<Rightarrow> 'd partition_threads \<Rightarrow> 'd partition_threads option" where
  "matcher_run toDouble clock rep [] s = Some s"
| "matcher_run toDouble clock rep (n # ns) s =
     Option.bind (match_next toDouble clock rep 0 n s) (matcher_run toDouble clock rep ns)"

lemma matcher_run_append:
  "matcher_run toDouble clock rep (ns @ ms) s
    = Option.bind (matcher_run toDouble clock rep ns s) (matcher_run toDouble clock rep ms)"
  by (induction ns arbitrary: s) (auto split: bind_splits)

lemma send_from_anywhere [simp]:
  "sent_all ord r sent (s\<lparr>px_pc := pc\<rparr>) = sent_all ord r sent s"
  "send_on ord r ptr remaining sent (s\<lparr>px_pc := pc\<rparr>) = send_on ord r ptr remaining sent s"
  by (simp_all add: sent_all_def send_on_def)

lemma matcher_run_sends:
  assumes "sendAll_loop snd_result (rep r) k ptr remaining sent = Some (ok, out)"
  shows "\<exists>ns. matcher_run toDouble clock rep ns (send_on ord r ptr remaining sent s) = Some (sent_all ord r out s)"
  using assms
proof (induction remaining arbitrary: k ptr sent)
  case 0
  then show ?case by (intro exI [of _ "[]"]) (simp add: send_on_def)
next
  case (Suc m)
  let ?n = "snd_result k (Suc m)"
  have in_range: "\<not> ptr + Suc m > length (rep r)" using Suc.prems by (auto split: if_splits)
  have pc: "send_on ord r ptr (Suc m) sent s = s\<lparr>px_pc := Match_Send ord r ptr (Suc m) sent\<rparr>" by (simp add: send_on_def)
  show ?case
  proof (cases "?n \<le> 0")
    case True
    then have "out = sent" using Suc.prems in_range by (simp add: Let_def)
    with True in_range pc show ?thesis
      by (intro exI [of _ "[?n]"]) (simp add: match_next_def Let_def)
  next
    case False
    let ?sent = "sent @ take (nat ?n) (drop ptr (rep r))"
    have "sendAll_loop snd_result (rep r) (Suc k) (ptr + nat ?n) m ?sent = Some (ok, out)"
      using Suc.prems in_range False by (simp add: Let_def)
    from Suc.IH [OF this] obtain ns where
      "matcher_run toDouble clock rep ns (send_on ord r (ptr + nat ?n) m ?sent s) = Some (sent_all ord r out s)" by blast
    with False in_range pc show ?thesis
      by (intro exI [of _ "?n # ns"]) (simp add: match_next_def Let_def)
  qed
qed

lemma matcher_run_matchOrder:
  assumes "px_pc s = Match_Order ord" "part_matchOrder toDouble clock rep tcp udp ord (px_partition s) = Some p'"
  shows "\<exists>ns. matcher_run toDouble clock rep ns s = Some (s\<lparr>px_partition := p', px_pc := Match_Pop\<rparr>)"
proof -
  let ?p = "px_partition s"
  let ?i = "pt_reports ?p"
  obtain r ok out where r: "make_report toDouble (clock ?i) ord = Some r" "sendAll (tcp ?i) (rep r) = Some (ok, out)"
    and p': "p' = ?p\<lparr>pt_fillsQueue := snd (tryPush r (pt_fillsQueue ?p)),
      pt_sent := pt_sent ?p @ [Sent_Tcp r out, Sent_Udp r (snd (udp_sender_send (udp ?i) (pt_udpSender ?p) (rep r)))],
      pt_reports := Suc ?i\<rparr>"
    using assms(2) by (auto simp: part_matchOrder_def Let_def split: option.splits)
  let ?s = "s\<lparr>px_partition := ?p\<lparr>pt_fillsQueue := snd (tryPush r (pt_fillsQueue ?p))\<rparr>\<rparr>"
  from matcher_run_sends [of "tcp ?i" rep r 0 0 "length (rep r)" "[]" ok out toDouble clock ord ?s] r(2)
  obtain ns where ns: "matcher_run toDouble clock rep ns (send_on ord r 0 (length (rep r)) [] ?s) = Some (sent_all ord r out ?s)"
    by (auto simp: sendAll_def)
  have "matcher_run toDouble clock rep (0 # ns @ [udp ?i]) s = Some (s\<lparr>px_partition := p', px_pc := Match_Pop\<rparr>)"
    using assms(1) r(1) ns by (simp add: match_next_def matcher_run_append sent_all_def p' Let_def)
  then show ?thesis by blast
qed

section \<open>The invariant\<close>

text \<open>The order that was popped and whose \<open>matchOrder\<close> has not returned.\<close>

fun unmatched :: "'d matcher_pc \<Rightarrow> order_rec list" where
  "unmatched (Match_Order ord) = [ord]"
| "unmatched (Match_Send ord r ptr remaining sent) = [ord]"
| "unmatched (Match_Cast ord r) = [ord]"
| "unmatched _ = []"

text \<open>
  What was sent of reports: of each how many bytes the TCP socket took, and what \<open>::sendto\<close> returned. Then
  the partition after them, and with the report that is being sent.
\<close>

type_synonym 'd report_history = "('d exec_report \<times> nat \<times> int) list"

definition sent_of :: "('d exec_report \<Rightarrow> u8 list) \<Rightarrow> udp_sender \<Rightarrow> 'd report_history \<Rightarrow> 'd sent list" where
  "sent_of rep sender hist = concat (map (\<lambda>(r, j, n).
     [Sent_Tcp r (take j (rep r)), Sent_Udp r (snd (udp_sender_send n sender (rep r)))]) hist)"

definition reported :: "('d exec_report \<Rightarrow> u8 list) \<Rightarrow> 'd partition \<Rightarrow> 'd report_history \<Rightarrow> 'd partition" where
  "reported rep p hist =
     p\<lparr>pt_fillsQueue := fold (\<lambda>x q. snd (tryPush x q)) (map fst hist) (pt_fillsQueue p),
       pt_sent := pt_sent p @ sent_of rep (pt_udpSender p) hist, pt_reports := pt_reports p + length hist\<rparr>"

fun in_progress :: "('d exec_report \<Rightarrow> u8 list) \<Rightarrow> nat \<Rightarrow> 'd matcher_pc \<Rightarrow> 'd partition \<Rightarrow> 'd partition" where
  "in_progress rep j (Match_Send ord r ptr remaining sent) p =
     p\<lparr>pt_fillsQueue := snd (tryPush r (pt_fillsQueue p))\<rparr>"
| "in_progress rep j (Match_Cast ord r) p =
     p\<lparr>pt_fillsQueue := snd (tryPush r (pt_fillsQueue p)), pt_sent := pt_sent p @ [Sent_Tcp r (take j (rep r))]\<rparr>"
| "in_progress rep j _ p = p"

fun matcher_fine :: "(i64 \<Rightarrow> 'd) \<Rightarrow> u64 \<Rightarrow> ('d exec_report \<Rightarrow> u8 list) \<Rightarrow> 'd matcher_pc \<Rightarrow> bool" where
  "matcher_fine toDouble now rep (Match_Send ord r ptr remaining sent) \<longleftrightarrow> make_report toDouble now ord = Some r
     \<and> 0 < remaining \<and> remaining \<le> length (rep r) \<and> length (rep r) \<le> ptr + remaining \<and> sent = take ptr (rep r)"
| "matcher_fine toDouble now rep (Match_Cast ord r) \<longleftrightarrow> make_report toDouble now ord = Some r"
| "matcher_fine toDouble now rep _ \<longleftrightarrow> True"

text \<open>
  Every order published or on its way has a terminated symbol; the partition has reported the orders
  that were popped, but for the one in hand.
\<close>

definition partition_inv ::
  "(i64 \<Rightarrow> 'd) \<Rightarrow> (nat \<Rightarrow> u64) \<Rightarrow> ('d exec_report \<Rightarrow> u8 list) \<Rightarrow> nat \<Rightarrow> 'd partition \<Rightarrow> 'd partition_threads \<Rightarrow> bool" where
  "partition_inv toDouble clock rep c p s \<longleftrightarrow>
     weak_inv c (px_queue s)
   \<and> (\<forall>ord \<in> set_producer_pc (wr_ppc (px_queue s)) \<union> set (wr_pushed (px_queue s)). symbol_wf (o_symbol ord))
   \<and> (px_pc s \<noteq> Match_Pop \<longrightarrow> wr_cpc (px_queue s) = C_Idle)
   \<and> matcher_fine toDouble (clock (pt_reports (px_partition s))) rep (px_pc s)
   \<and> (\<exists>matched hist j. wr_popped (px_queue s) = matched @ unmatched (px_pc s)
        \<and> map fst hist = reports_of toDouble clock (pt_reports p) matched
        \<and> px_partition s = in_progress rep j (px_pc s) (reported rep p hist))"

lemma partition_invD:
  assumes "partition_inv toDouble clock rep c p s"
  shows "weak_inv c (px_queue s)"
    "\<And>ord. ord \<in> set (wr_pushed (px_queue s)) \<Longrightarrow> symbol_wf (o_symbol ord)"
    "px_pc s \<noteq> Match_Pop \<Longrightarrow> wr_cpc (px_queue s) = C_Idle"
    "matcher_fine toDouble (clock (pt_reports (px_partition s))) rep (px_pc s)"
  using assms by (auto simp: partition_inv_def)

lemma partition_inv_new:
  "b \<noteq> [] \<Longrightarrow> length b = c \<Longrightarrow> partition_inv toDouble clock rep c p (partition_threads_new b p)"
  using weak_inv_new [of b]
  by (auto simp: partition_inv_def partition_threads_new_def weak_new_def reported_def sent_of_def intro!: exI [of _ "[]"])

lemma reports_of_snoc:
  "reports_of toDouble clock n (ords @ [ord])
    = reports_of toDouble clock n ords @ [the (make_report toDouble (clock (n + length ords)) ord)]"
  by (induction ords arbitrary: n) simp_all

lemma in_progress_fields [simp]:
  "pt_reports (in_progress rep j pc p) = pt_reports p" "pt_udpSender (in_progress rep j pc p) = pt_udpSender p"
  by (cases pc; simp)+

lemma reported_fields [simp]:
  "pt_reports (reported rep p hist) = pt_reports p + length hist" "pt_udpSender (reported rep p hist) = pt_udpSender p"
  by (simp_all add: reported_def)

text \<open>The order in hand, and its report.\<close>

lemma in_hand_wf:
  assumes "partition_inv toDouble clock rep c p s" "unmatched (px_pc s) = [ord]"
  shows "symbol_wf (o_symbol ord)"
proof -
  have "ord \<in> set (wr_popped (px_queue s))" using assms by (auto simp: partition_inv_def)
  then have "ord \<in> set (wr_pushed (px_queue s))" using weak_inv_queue(1) [OF partition_invD(1) [OF assms(1)]] by (metis Un_iff set_append)
  then show ?thesis by (rule partition_invD(2) [OF assms(1)])
qed

lemma wf_report: "symbol_wf (o_symbol ord) \<Longrightarrow> \<exists>r. make_report toDouble now ord = Some r"
  by (simp add: symbol_wf_def make_report_def)

lemma partition_inv_submit:
  assumes "partition_inv toDouble clock rep c p s" "0 < c" "symbol_wf (o_symbol ord)"
    and "submit_next ord ts fails s = Some s'"
  shows "partition_inv toDouble clock rep c p s'"
proof -
  obtain q where q: "weak_producer code_orders ord ts Give_Up fails (px_queue s) = Some q" "s' = s\<lparr>px_queue := q\<rparr>"
    using assms(4) by (auto simp: submit_next_def)
  have "weak_inv c q" by (rule weak_inv_producer [OF _ assms(2) q(1)]) (use assms(1) in \<open>simp add: partition_inv_def\<close>)
  moreover have "symbol_wf (o_symbol x)" if "x \<in> set_producer_pc (wr_ppc q) \<union> set (wr_pushed q)" for x
    using weak_producer_items [OF q(1)] that assms(1,3) by (auto simp: partition_inv_def)
  ultimately show ?thesis
    using assms(1) weak_other_pc(1) [OF q(1)] weak_producer_history [OF q(1)] q(2)
    by (simp add: partition_inv_def)
qed

text \<open>The state of a thread in \<open>sendAll\<close>: at the head of its loop, and after it.\<close>

lemma partition_inv_sent_all:
  assumes "partition_inv toDouble clock rep c p s" "px_pc s = Match_Send ord r ptr remaining sent"
    and "sent' = take j (rep r)"
  shows "partition_inv toDouble clock rep c p (sent_all ord r sent' s)"
proof -
  obtain matched hist where "wr_popped (px_queue s) = matched @ [ord]"
    "map fst hist = reports_of toDouble clock (pt_reports p) matched"
    "px_partition s = (reported rep p hist)\<lparr>pt_fillsQueue := snd (tryPush r (pt_fillsQueue (reported rep p hist)))\<rparr>"
    using assms(1,2) by (auto simp: partition_inv_def)
  then show ?thesis
    using assms by (auto simp: partition_inv_def sent_all_def intro!: exI [of _ matched] exI [of _ hist] exI [of _ j])
qed

lemma partition_inv_send_on:
  assumes "partition_inv toDouble clock rep c p s" "px_pc s = Match_Send ord r ptr0 remaining0 sent0"
    and "remaining \<le> length (rep r)" "length (rep r) \<le> ptr + remaining"
  shows "partition_inv toDouble clock rep c p (send_on ord r ptr remaining (take ptr (rep r)) s)"
proof (cases "remaining = 0")
  case True
  with partition_inv_sent_all [OF assms(1,2) refl] show ?thesis by (simp add: send_on_def)
next
  case False
  then show ?thesis using assms by (auto simp: partition_inv_def send_on_def)
qed

lemma partition_inv_order:
  assumes "partition_inv toDouble clock rep c p s" "px_pc s = Match_Order ord"
    and "match_next toDouble clock rep ts n s = Some s'"
  shows "partition_inv toDouble clock rep c p s'"
proof -
  let ?p = "px_partition s"
  obtain r where r: "make_report toDouble (clock (pt_reports ?p)) ord = Some r"
    and s': "s' = send_on ord r 0 (length (rep r)) [] (s\<lparr>px_partition := ?p\<lparr>pt_fillsQueue := snd (tryPush r (pt_fillsQueue ?p))\<rparr>\<rparr>)"
    using assms(2,3) by (auto simp: match_next_def Let_def)
  show ?thesis
    using assms(1,2) r by (auto simp: partition_inv_def s' send_on_def sent_all_def)
qed

lemma reported_snoc:
  "reported rep p (hist @ [(r, j, n)]) = (let q = reported rep p hist
    in q\<lparr>pt_fillsQueue := snd (tryPush r (pt_fillsQueue q)),
         pt_sent := pt_sent q @ [Sent_Tcp r (take j (rep r)), Sent_Udp r (snd (udp_sender_send n (pt_udpSender p) (rep r)))],
         pt_reports := Suc (pt_reports q)\<rparr>)"
  by (simp add: reported_def sent_of_def Let_def)

lemma partition_inv_cast:
  assumes "partition_inv toDouble clock rep c p s" "px_pc s = Match_Cast ord r"
    and "match_next toDouble clock rep ts n s = Some s'"
  shows "partition_inv toDouble clock rep c p s'"
proof -
  obtain matched hist j where m: "wr_popped (px_queue s) = matched @ [ord]"
    "map fst hist = reports_of toDouble clock (pt_reports p) matched"
    "px_partition s = in_progress rep j (Match_Cast ord r) (reported rep p hist)"
    using assms(1,2) unfolding partition_inv_def by auto
  have len: "length hist = length matched" using m(2) by (metis length_map length_reports_of)
  have "make_report toDouble (clock (pt_reports (px_partition s))) ord = Some r"
    using partition_invD(4) [OF assms(1)] assms(2) by simp
  then have "map fst (hist @ [(r, j, n)]) = reports_of toDouble clock (pt_reports p) (matched @ [ord])"
    using m(2) len by (simp add: m(3) reports_of_snoc)
  moreover have "px_partition s' = reported rep p (hist @ [(r, j, n)])"
    using assms(2,3) m(3) by (auto simp: match_next_def reported_snoc Let_def)
  moreover have "wr_popped (px_queue s') = (matched @ [ord]) @ unmatched (px_pc s')" "px_pc s' = Match_Pop"
    "px_queue s' = px_queue s"
    using assms(2,3) m(1) by (auto simp: match_next_def Let_def)
  ultimately show ?thesis using assms(1)
    unfolding partition_inv_def by (metis in_progress.simps(4) matcher_fine.simps(4))
qed

lemma partition_inv_match:
  assumes "partition_inv toDouble clock rep c p s" "0 < c" "match_next toDouble clock rep ts n s = Some s'"
  shows "partition_inv toDouble clock rep c p s'"
proof (cases "px_pc s")
  case Match_Out
  then show ?thesis using assms(1,3) by (auto simp: match_next_def partition_inv_def Let_def)
next
  case Match_Pop
  then obtain q where q: "weak_consumer code_orders ts (px_queue s) = Some q"
    and s': "s' = s\<lparr>px_queue := q,
      px_pc := (if wr_cpc q \<noteq> C_Idle then Match_Pop else if wr_popped q = wr_popped (px_queue s) then Match_Out
        else Match_Order (last (wr_popped q)))\<rparr>"
    using assms(3) by (auto simp: match_next_def Let_def)
  have "weak_inv c q" by (rule weak_inv_consumer [OF _ assms(2) q]) (use assms(1) in \<open>simp add: partition_inv_def\<close>)
  then show ?thesis
    using assms(1) weak_consumer_pops [OF q] weak_other_pc(2) [OF q] weak_consumer_history [OF q] Match_Pop
    by (auto simp: partition_inv_def s')
next
  case (Match_Order ord)
  from partition_inv_order [OF assms(1) Match_Order assms(3)] show ?thesis .
next
  case (Match_Send ord r ptr remaining sent)
  have f: "0 < remaining" "remaining \<le> length (rep r)" "length (rep r) \<le> ptr + remaining" "sent = take ptr (rep r)"
    using partition_invD(4) [OF assms(1)] Match_Send by simp_all
  show ?thesis
  proof (cases "n \<le> 0")
    case True
    then have "s' = sent_all ord r sent s" using assms(3) Match_Send by (simp add: match_next_def split: if_splits)
    with partition_inv_sent_all [OF assms(1) Match_Send f(4)] show ?thesis by simp
  next
    case False
    have "sent @ take (nat n) (drop ptr (rep r)) = take (ptr + nat n) (rep r)" by (simp add: f(4) take_add)
    then have "s' = send_on ord r (ptr + nat n) (remaining - 1) (take (ptr + nat n) (rep r)) s"
      using assms(3) Match_Send False by (simp add: match_next_def split: if_splits)
    moreover have "remaining - 1 \<le> length (rep r)" "length (rep r) \<le> ptr + nat n + (remaining - 1)"
      using f False by linarith+
    ultimately show ?thesis using partition_inv_send_on [OF assms(1) Match_Send] by simp
  qed
next
  case (Match_Cast ord r)
  from partition_inv_cast [OF assms(1) Match_Cast assms(3)] show ?thesis .
qed

interpretation partition_flow: machine "partition_moves toDouble clock rep"
  "\<lambda>s. \<exists>b. b \<noteq> [] \<and> length b = c \<and> s = partition_threads_new b p" "\<lambda>s. 0 < c \<and> partition_inv toDouble clock rep c p s"
  for toDouble clock rep c p
proof unfold_locales
  show "0 < c \<and> partition_inv toDouble clock rep c p s"
    if "\<exists>b. b \<noteq> [] \<and> length b = c \<and> s = partition_threads_new b p" for s
    using that by (auto intro: partition_inv_new)
  show "0 < c \<and> partition_inv toDouble clock rep c p s'"
    if inv: "0 < c \<and> partition_inv toDouble clock rep c p s" and step: "partition_moves toDouble clock rep s s'" for s s'
    using step
  proof (cases rule: partition_moves.cases)
    case (partition_moves m)
    then show ?thesis using inv partition_inv_submit partition_inv_match by (cases m) auto
  qed
qed

text \<open>So the orders published are those reported, the one in hand and those queued.\<close>

lemma partition_flow_orders:
  assumes "partition_inv toDouble clock rep c p s"
  shows "\<exists>matched hist j. wr_pushed (px_queue s) = matched @ unmatched (px_pc s) @ wr_queue (px_queue s)
    \<and> map (er_orderId \<circ> fst) hist = map o_orderId matched
    \<and> map (er_filledQuantity \<circ> fst) hist = map o_quantity matched
    \<and> pt_sent (px_partition s) = pt_sent p @ sent_of rep (pt_udpSender p) hist
        @ (case px_pc s of Match_Cast ord r \<Rightarrow> [Sent_Tcp r (take j (rep r))] | _ \<Rightarrow> [])"
proof -
  obtain matched hist j where m: "wr_popped (px_queue s) = matched @ unmatched (px_pc s)"
    "map fst hist = reports_of toDouble clock (pt_reports p) matched"
    "px_partition s = in_progress rep j (px_pc s) (reported rep p hist)"
    using assms by (auto simp: partition_inv_def)
  note queue = weak_inv_queue(1) [OF partition_invD(1) [OF assms]]
  have wf: "symbol_wf (o_symbol x)" if "x \<in> set matched" for x
    using partition_invD(2) [OF assms, of x] that m(1) queue by auto
  have "map (er_orderId \<circ> fst) hist = map o_orderId matched"
    "map (er_filledQuantity \<circ> fst) hist = map o_quantity matched"
    using reports_of_maps [of matched toDouble clock "pt_reports p"] wf
    by (simp_all add: m(2) [symmetric])
  moreover have "pt_sent (px_partition s) = pt_sent p @ sent_of rep (pt_udpSender p) hist
      @ (case px_pc s of Match_Cast ord r \<Rightarrow> [Sent_Tcp r (take j (rep r))] | _ \<Rightarrow> [])"
    by (cases "px_pc s") (simp_all add: m(3) reported_def)
  ultimately show ?thesis
    using m(1) queue by (intro exI [of _ matched] exI [of _ hist] exI [of _ j]) simp
qed

section \<open>The call returns\<close>

text \<open>
  How many steps the matching thread can still take inside \<open>processOrders\<close> when nothing more is
  submitted and a report has \<open>sz\<close> bytes: at most \<open>sz + 7\<close> for each queued order, and what is left of the
  order in hand or the last look.
\<close>

fun pop_position :: "'a consumer_pc \<Rightarrow> nat \<Rightarrow> nat" where
  "pop_position C_Idle n = n + 2"
| "pop_position (C_LoadHead t) n = n + 1"
| "pop_position (C_Read t) n = n"
| "pop_position (C_StoreTail t x) n = n - 1"

definition call_rank :: "nat \<Rightarrow> 'd partition_threads \<Rightarrow> nat" where
  "call_rank sz s =
     (let n = (sz + 7) * length (wr_queue (px_queue s))
      in case px_pc s of
        Match_Out \<Rightarrow> 0
      | Match_Pop \<Rightarrow> pop_position (wr_cpc (px_queue s)) n
      | Match_Order _ \<Rightarrow> n + sz + 5
      | Match_Send _ _ _ remaining _ \<Rightarrow> n + remaining + 4
      | Match_Cast _ _ \<Rightarrow> n + 3)"

text \<open>All reports have the size of the type.\<close>

definition report_size :: "('d exec_report \<Rightarrow> u8 list) \<Rightarrow> nat \<Rightarrow> bool" where
  "report_size rep sz \<longleftrightarrow> (\<forall>r. length (rep r) = sz)"

lemma call_rank_bound:
  assumes "partition_inv toDouble clock rep c p s" "report_size rep sz"
  shows "call_rank sz s \<le> (sz + 7) * length (wr_queue (px_queue s)) + sz + 5"
proof -
  have "pop_position pc n \<le> n + sz + 5" for pc :: "order_rec consumer_pc" and n by (cases pc) simp_all
  then show ?thesis using partition_invD(4) [OF assms(1)] assms(2)
    by (cases "px_pc s") (auto simp: call_rank_def Let_def report_size_def)
qed

text \<open>There is an item to read when the consumer has seen one.\<close>

lemma queue_when_reading:
  assumes "weak_inv c s" "(\<exists>t. wr_cpc s = C_Read t) \<or> (\<exists>t x. wr_cpc s = C_StoreTail t x)"
  shows "wr_queue s \<noteq> []"
proof -
  note inv = weak_invD [OF assms(1)]
  have "length (wr_popped s) < wr_cview s At_Head" using inv(3) assms(2) by (auto simp: locals_inv_def)
  with views_invD(6) [OF inv(2)] show ?thesis by (simp add: wr_queue_def)
qed

lemma weak_consumer_loads:
  assumes "weak_consumer order ts s = Some q"
  shows "wr_cpc s = C_Idle \<Longrightarrow> (\<exists>t. wr_cpc q = C_LoadHead t) \<and> wr_queue q = wr_queue s"
    "wr_cpc s = C_LoadHead t \<Longrightarrow> (wr_cpc q = C_Idle \<or> wr_cpc q = C_Read t) \<and> wr_queue q = wr_queue s
      \<and> wr_popped q = wr_popped s"
  using assms by (auto simp: weak_consumer_def wr_queue_def split: if_splits)

lemma call_rank_pop:
  assumes "weak_inv c (px_queue s)" "px_pc s = Match_Pop" "match_next toDouble clock rep ts n s = Some s'"
  shows "call_rank sz s' < call_rank sz s"
proof -
  obtain q where q: "weak_consumer code_orders ts (px_queue s) = Some q"
    and s': "s' = s\<lparr>px_queue := q,
      px_pc := (if wr_cpc q \<noteq> C_Idle then Match_Pop else if wr_popped q = wr_popped (px_queue s) then Match_Out
        else Match_Order (last (wr_popped q)))\<rparr>"
    using assms(2,3) by (auto simp: match_next_def Let_def)
  have items: "wr_queue (px_queue s) \<noteq> []" if "(\<exists>t. wr_cpc (px_queue s) = C_Read t) \<or> (\<exists>t x. wr_cpc (px_queue s) = C_StoreTail t x)"
    by (rule queue_when_reading [OF assms(1) that])
  show ?thesis
  proof (cases "wr_cpc (px_queue s)")
    case (C_StoreTail t x)
    have "length (wr_queue (px_queue s)) = Suc (length (wr_queue q))"
      using q C_StoreTail items by (auto simp: weak_consumer_def wr_queue_def split: prod.splits)
    then show ?thesis using q C_StoreTail assms(2)
      by (auto simp: s' call_rank_def Let_def weak_consumer_def split: prod.splits)
  next
    case (C_Read t)
    have "0 < length (wr_queue (px_queue s))" using items C_Read by simp
    then show ?thesis using q C_Read assms(2)
      by (auto simp: s' call_rank_def Let_def weak_consumer_def wr_queue_def)
  next
    case C_Idle
    with weak_consumer_loads(1) [OF q] assms(2) show ?thesis by (auto simp: s' call_rank_def Let_def)
  next
    case (C_LoadHead t)
    with weak_consumer_loads(2) [OF q] assms(2) show ?thesis by (auto simp: s' call_rank_def Let_def)
  qed
qed

lemma call_rank_send_on: "call_rank sz (send_on ord r ptr remaining sent s) \<le> (sz + 7) * length (wr_queue (px_queue s)) + remaining + 4"
  by (simp add: call_rank_def send_on_def sent_all_def Let_def)

lemma call_rank_match:
  assumes "partition_inv toDouble clock rep c p s" "px_pc s \<noteq> Match_Out" "match_next toDouble clock rep ts n s = Some s'"
    and "report_size rep sz"
  shows "call_rank sz s' < call_rank sz s"
proof (cases "px_pc s")
  case (Match_Order ord)
  then obtain r p where s': "s' = send_on ord r 0 (length (rep r)) [] (s\<lparr>px_partition := p\<rparr>)"
    using assms(3) by (auto simp: match_next_def Let_def)
  have "call_rank sz s' \<le> (sz + 7) * length (wr_queue (px_queue s)) + sz + 4"
    using call_rank_send_on [of sz ord r 0 "length (rep r)" "[]" "s\<lparr>px_partition := p\<rparr>"] assms(4)
    by (simp add: s' report_size_def)
  moreover have "call_rank sz s = (sz + 7) * length (wr_queue (px_queue s)) + sz + 5"
    using Match_Order by (simp add: call_rank_def Let_def)
  ultimately show ?thesis by simp
next
  case (Match_Send ord r ptr remaining sent)
  have rem: "0 < remaining" using partition_invD(4) [OF assms(1)] Match_Send by simp
  have "s' = sent_all ord r sent s
      \<or> s' = send_on ord r (ptr + nat n) (remaining - 1) (sent @ take (nat n) (drop ptr (rep r))) s"
    using assms(3) Match_Send by (auto simp: match_next_def Let_def split: if_splits)
  moreover have "call_rank sz (sent_all ord r sent s) < call_rank sz s"
    using rem Match_Send by (simp add: call_rank_def sent_all_def Let_def)
  moreover have "(sz + 7) * length (wr_queue (px_queue s)) + (remaining - 1) + 4 < call_rank sz s"
    using rem Match_Send by (simp add: call_rank_def Let_def)
  ultimately show ?thesis using call_rank_send_on by (metis le_less_trans)
next
  case (Match_Cast ord r)
  then have "wr_cpc (px_queue s) = C_Idle" using partition_invD(3) [OF assms(1)] by simp
  with Match_Cast assms(3) show ?thesis by (auto simp: match_next_def call_rank_def Let_def)
qed (use assms(2,3) call_rank_pop [OF partition_invD(1) [OF assms(1)]] in auto)

lemma call_rank_submit:
  assumes "partition_inv toDouble clock rep c p s" "submit_next ord ts fails s = Some s'"
  shows "call_rank sz s' + (sz + 7) * length (wr_pushed (px_queue s))
    \<le> call_rank sz s + (sz + 7) * length (wr_pushed (px_queue s')) \<and> px_pc s' = px_pc s
    \<and> length (wr_pushed (px_queue s)) \<le> length (wr_pushed (px_queue s'))"
proof -
  obtain q where q: "weak_producer code_orders ord ts Give_Up fails (px_queue s) = Some q" "s' = s\<lparr>px_queue := q\<rparr>"
    using assms(2) by (auto simp: submit_next_def)
  have "length (wr_popped (px_queue s)) \<le> length (wr_pushed (px_queue s))"
    by (rule views_invD(7) [OF weak_invD(2) [OF partition_invD(1) [OF assms(1)]]])
  have pos: "pop_position pc (sz + (7 + n)) \<le> sz + (7 + pop_position pc n)" for pc :: "order_rec consumer_pc" and n
    by (cases pc) simp_all
  show ?thesis
    using \<open>length (wr_popped (px_queue s)) \<le> length (wr_pushed (px_queue s))\<close>
      weak_producer_history [OF q(1)] weak_other_pc(1) [OF q(1)] q(2)
    by (auto simp: call_rank_def Let_def wr_queue_def Suc_diff_le ac_simps split: matcher_pc.split intro: pos)
qed

text \<open>The steps of the matching thread in a run during which it stays inside the call.\<close>

fun by_matcher :: "partition_move \<Rightarrow> bool" where
  "by_matcher (By_Matcher ts n) = True"
| "by_matcher (By_Submitter ord ts fails) = False"

lemma call_steps_bounded:
  assumes "partition_inv toDouble clock rep c p s" "0 < c" "partition_run toDouble clock rep ms s = Some s'"
    and "report_size rep sz" "\<And>m. m \<in> set ms \<Longrightarrow> proper_move m"
    and "\<And>k s1. partition_run toDouble clock rep (take k ms) s = Some s1 \<Longrightarrow> px_pc s1 \<noteq> Match_Out"
  shows "call_rank sz s' + length (filter by_matcher ms) + (sz + 7) * length (wr_pushed (px_queue s))
    \<le> call_rank sz s + (sz + 7) * length (wr_pushed (px_queue s'))"
  using assms
proof (induction ms arbitrary: s)
  case (Cons m ms)
  from Cons.prems(3) obtain s1 where s1: "partition_next toDouble clock rep m s = Some s1"
    "partition_run toDouble clock rep ms s1 = Some s'" by (auto simp: bind_eq_Some_conv)
  have proper: "proper_move m" using Cons.prems(5) by simp
  have inv1: "partition_inv toDouble clock rep c p s1"
    using partition_flow.inv_step [of c toDouble clock rep p s s1] partition_moves.partition_moves [OF proper s1(1)]
      Cons.prems(1,2) by simp
  have out1: "px_pc s2 \<noteq> Match_Out" if "partition_run toDouble clock rep (take k ms) s1 = Some s2" for k s2
    using Cons.prems(6) [of "Suc k" s2] that s1(1) by simp
  have IH: "call_rank sz s' + length (filter by_matcher ms) + (sz + 7) * length (wr_pushed (px_queue s1))
      \<le> call_rank sz s1 + (sz + 7) * length (wr_pushed (px_queue s'))"
    by (rule Cons.IH [OF inv1 Cons.prems(2) s1(2) Cons.prems(4)]) (use Cons.prems(5) out1 in auto)
  have out: "px_pc s \<noteq> Match_Out" using Cons.prems(6) [of 0 s] by simp
  show ?case
  proof (cases m)
    case (By_Submitter ord ts fails)
    with call_rank_submit [OF Cons.prems(1), of ord ts fails s1 sz] s1(1) IH show ?thesis by simp
  next
    case (By_Matcher ts n)
    then have step: "match_next toDouble clock rep ts n s = Some s1" using s1(1) by simp
    have "wr_pushed (px_queue s1) = wr_pushed (px_queue s)"
    proof (cases "px_pc s")
      case Match_Pop
      with step weak_consumer_history show ?thesis by (fastforce simp: match_next_def Let_def)
    qed (use step in \<open>auto simp: match_next_def Let_def send_on_def sent_all_def split: if_splits\<close>)
    with call_rank_match [OF Cons.prems(1) out step Cons.prems(4)] IH By_Matcher show ?thesis by simp
  qed
qed simp

lemma call_steps_within:
  assumes "partition_inv toDouble clock rep c p s" "0 < c" "partition_run toDouble clock rep ms s = Some s'"
    and "report_size rep sz" "\<And>m. m \<in> set ms \<Longrightarrow> proper_move m"
    and "\<And>k s1. partition_run toDouble clock rep (take k ms) s = Some s1 \<Longrightarrow> px_pc s1 \<noteq> Match_Out"
  shows "length (filter by_matcher ms) \<le> (sz + 7) * (length (wr_queue (px_queue s))
    + (length (wr_pushed (px_queue s')) - length (wr_pushed (px_queue s)))) + sz + 5"
proof -
  let ?more = "length (wr_pushed (px_queue s')) - length (wr_pushed (px_queue s))"
  have steps: "call_rank sz s' + length (filter by_matcher ms) + (sz + 7) * length (wr_pushed (px_queue s))
      \<le> call_rank sz s + (sz + 7) * length (wr_pushed (px_queue s'))"
    by (rule call_steps_bounded [OF assms])
  have "length (filter by_matcher ms) \<le> call_rank sz s + (sz + 7) * ?more"
    using steps by (simp add: right_diff_distrib' del: distrib_right distrib_left add_mult_distrib)
  moreover have "call_rank sz s \<le> (sz + 7) * length (wr_queue (px_queue s)) + sz + 5"
    by (rule call_rank_bound [OF assms(1,4)])
  ultimately have "length (filter by_matcher ms) \<le> ((sz + 7) * length (wr_queue (px_queue s)) + sz + 5) + (sz + 7) * ?more"
    by linarith
  then show ?thesis by (simp only: add_mult_distrib2)
qed

section \<open>What stops the threads\<close>

text \<open>
  The matching thread is about to have \<open>::send\<close> read past the end of a report.
\<close>

fun reads_past :: "('d exec_report \<Rightarrow> u8 list) \<Rightarrow> 'd matcher_pc \<Rightarrow> bool" where
  "reads_past rep (Match_Send ord r ptr remaining sent) \<longleftrightarrow> length (rep r) < ptr + remaining"
| "reads_past rep _ \<longleftrightarrow> False"

text \<open>
  Neither thread waits for the other. The matching thread can go on, whatever the call it is in returns,
  unless it is about to read past a report; and it comes to that when a \<open>::send\<close> takes more than one
  byte and is not the last, and only then.
\<close>

lemma submit_enabled:
  assumes "partition_inv toDouble clock rep c p s"
  shows "\<exists>ts. submit_next ord ts fails s \<noteq> None"
  using weak_always_enabled(1) [OF partition_invD(1) [OF assms], of ord Give_Up fails] by (auto simp: submit_next_def)

lemma match_enabled:
  assumes "partition_inv toDouble clock rep c p s"
  shows "(\<exists>ts. match_next toDouble clock rep ts n s \<noteq> None) \<longleftrightarrow> \<not> reads_past rep (px_pc s)"
proof (cases "px_pc s")
  case Match_Pop
  with weak_always_enabled(2) [OF partition_invD(1) [OF assms]] show ?thesis by (auto simp: match_next_def Let_def)
next
  case (Match_Order ord)
  with in_hand_wf [OF assms] wf_report show ?thesis by (fastforce simp: match_next_def Let_def)
qed (auto simp: match_next_def Let_def)

lemma reads_past_step:
  assumes "partition_inv toDouble clock rep c p s" "match_next toDouble clock rep ts n s = Some s'"
  shows "reads_past rep (px_pc s') \<longleftrightarrow>
    (\<exists>ord r ptr remaining sent. px_pc s = Match_Send ord r ptr remaining sent \<and> 2 \<le> remaining \<and> 2 \<le> n)"
proof (cases "px_pc s")
  case (Match_Send ord r ptr remaining sent)
  have f: "0 < remaining" "length (rep r) \<le> ptr + remaining" using partition_invD(4) [OF assms(1)] Match_Send by simp_all
  then have "length (rep r) = ptr + remaining" using assms(2) Match_Send by (simp add: match_next_def Let_def split: if_splits)
  with f(1) assms(2) Match_Send show ?thesis
    by (auto simp: match_next_def Let_def send_on_def sent_all_def split: if_splits)
next
  case (Match_Order ord)
  with assms(2) show ?thesis by (auto simp: match_next_def Let_def send_on_def sent_all_def split: if_split_asm)
qed (use assms(2) in \<open>auto simp: match_next_def Let_def split: if_splits\<close>)

lemma submit_next_pc: "submit_next ord ts fails s = Some s' \<Longrightarrow> px_pc s' = px_pc s"
  by (auto simp: submit_next_def)

section \<open>Runs\<close>

definition sym_A :: "u8 list" where
  "sym_A = [65, 0, 0, 0, 0, 0, 0, 0, 0, 0, 0, 0, 0, 0, 0, 0]"

definition part_A :: "int partition" where
  "part_A = partition_new [65] [69] \<lparr>tc_socket = 3, tc_host = [], tc_port = 0\<rparr>
     \<lparr>us_socket = 4, us_address = [], us_port = 0, us_destAddr = \<lparr>sin_port = 0, sin_addr = []\<rparr>\<rparr>
     [] [undefined, undefined]"

lemma sym_A_wf: "symbol_wf (o_symbol (order_new sym_A))"
  by (simp add: symbol_wf_def order_new_def sym_A_def MAX_SYMBOL_LENGTH_def)

text \<open>A report of two bytes, and an order that is submitted and popped.\<close>

definition two_bytes :: "int exec_report \<Rightarrow> u8 list" where
  "two_bytes r = [1, 2]"

definition one_order :: "partition_move list" where
  "one_order = replicate 4 (By_Submitter (order_new sym_A) 0 False)
     @ [By_Matcher 0 0, By_Matcher 0 0, By_Matcher 1 0, By_Matcher 0 0, By_Matcher 0 0, By_Matcher 0 0]"

lemma one_order_runs:
  "\<exists>s. partition_run sint (\<lambda>_. 0) two_bytes (one_order @ [By_Matcher 0 1, By_Matcher 0 1, By_Matcher 0 2])
      (partition_threads_new [order_new sym_A, order_new sym_A] part_A) = Some s
    \<and> length (pt_sent (px_partition s)) = 2 \<and> px_pc s = Match_Pop"
  "\<exists>s. partition_run sint (\<lambda>_. 0) two_bytes (one_order @ [By_Matcher 0 2])
      (partition_threads_new [order_new sym_A, order_new sym_A] part_A) = Some s \<and> reads_past two_bytes (px_pc s)"
proof -
  have "0 \<in> set (o_symbol (order_new sym_A))" using sym_A_wf by (simp add: symbol_wf_def)
  then show "\<exists>s. partition_run sint (\<lambda>_. 0) two_bytes (one_order @ [By_Matcher 0 1, By_Matcher 0 1, By_Matcher 0 2])
      (partition_threads_new [order_new sym_A, order_new sym_A] part_A) = Some s
    \<and> length (pt_sent (px_partition s)) = 2 \<and> px_pc s = Match_Pop"
    "\<exists>s. partition_run sint (\<lambda>_. 0) two_bytes (one_order @ [By_Matcher 0 2])
      (partition_threads_new [order_new sym_A, order_new sym_A] part_A) = Some s \<and> reads_past two_bytes (px_pc s)"
    by (simp_all add: one_order_def two_bytes_def numeral_eq_Suc submit_next_def match_next_def send_on_def sent_all_def
        partition_threads_new_def weak_new_def weak_eval code_orders_def make_report_def part_A_def partition_new_def Let_def)
qed

end
