(* ===== verification/Workers.thy ===== *)
theory Workers
  imports Main
begin

text \<open>
  The heartbeat of \<^verbatim>\<open>libs/networking/tcp/TcpHeartbeat.h\<close>.
\<close>

section \<open>The heartbeat\<close>

text \<open>
  Times are nanoseconds. One pass of the loop depends on how long the callable takes
  (\<open>beat\<close>), by how much \<open>sleep_for\<close> oversleeps (\<open>over\<close>), and the time between two readings of
  the clock in the spin loop (\<open>gaps\<close>; the first is the one before the loop, where the target has not
  been reached). A pass is from its reading \<open>loopStart\<close> to its last reading; it is \<open>None\<close> when the
  readings are used up and the spin loop has not ended.
\<close>

fun spin_until :: "nat \<Rightarrow> nat \<Rightarrow> nat list \<Rightarrow> nat option" where
  "spin_until target now [] = (if now < target then None else Some now)"
| "spin_until target now (gap # gaps) =
     (if now < target then spin_until target (now + gap) gaps else Some now)"

definition heartbeat_pass :: "nat \<Rightarrow> nat \<Rightarrow> nat \<Rightarrow> nat list \<Rightarrow> nat \<Rightarrow> nat option" where
  "heartbeat_pass interval beat over gaps loopStart =
     (let loopEnd = loopStart + beat; elapsed = loopEnd - loopStart
      in if elapsed < interval then
           (let remaining = interval - elapsed
            in if remaining < 50000 then spin_until (loopEnd + remaining) loopEnd gaps
               else (let awake = loopEnd + (remaining - 50000) + over
                     in spin_until (awake + 50000) awake gaps))
         else Some loopEnd)"

lemma spin_until_bounds:
  "spin_until target now gaps = Some t \<Longrightarrow> (\<And>g. g \<in> set gaps \<Longrightarrow> g \<le> G)
    \<Longrightarrow> target \<le> t \<and> now \<le> t \<and> t \<le> max now (target + G)"
proof (induction target now gaps rule: spin_until.induct)
  case (1 target now)
  then show ?case by (auto split: if_splits)
next
  case (2 target now gap gaps)
  show ?case
  proof (cases "now < target")
    case True
    then have "spin_until target (now + gap) gaps = Some t" "gap \<le> G" using "2.prems" by auto
    then have "target \<le> t \<and> now + gap \<le> t \<and> t \<le> max (now + gap) (target + G)"
      using "2.IH" [OF True] "2.prems"(2) by simp
    with True \<open>gap \<le> G\<close> show ?thesis by auto
  qed (use 2 in auto)
qed

lemma spin_until_ends: "target - now \<le> sum_list gaps \<Longrightarrow> spin_until target now gaps \<noteq> None"
  by (induction target now gaps rule: spin_until.induct) auto

text \<open>A pass takes at least the interval, and not much more.\<close>

lemma heartbeat_pass_bounds:
  assumes "heartbeat_pass interval beat over gaps t = Some t'" "\<And>g. g \<in> set gaps \<Longrightarrow> g \<le> G"
  shows "t + interval \<le> t' \<and> t + beat \<le> t' \<and> t' \<le> t + max beat interval + over + G"
proof -
  consider "interval \<le> beat" | "beat < interval" "interval - beat < 50000"
    | "beat < interval" "50000 \<le> interval - beat" by linarith
  then show ?thesis
  proof cases
    case 1
    then show ?thesis using assms(1) by (simp add: heartbeat_pass_def)
  next
    case 2
    then have "spin_until (t + interval) (t + beat) gaps = Some t'"
      using assms(1) by (simp add: heartbeat_pass_def Let_def)
    from spin_until_bounds [OF this assms(2)] 2 show ?thesis by auto
  next
    case 3
    then have "spin_until (t + interval + over) (t + beat + (interval - beat - 50000) + over) gaps = Some t'"
      using assms(1) by (simp add: heartbeat_pass_def Let_def ac_simps)
    from spin_until_bounds [OF this assms(2)] 3 show ?thesis by auto
  qed
qed

lemma heartbeat_pass_ends:
  assumes "50000 \<le> sum_list gaps"
  shows "heartbeat_pass interval beat over gaps t \<noteq> None"
  using assms spin_until_ends [of _ _ gaps] by (auto simp: heartbeat_pass_def Let_def)

subsection \<open>The loop\<close>

text \<open>
  The whole loop, for a flag that is cleared at the time \<open>stopAt\<close>: the readings \<open>loopStart\<close> with which the
  callable is called, and the time at which the thread sees that it is to end. After the last reading
  of a pass (\<open>now\<close>) some time goes by until the flag is loaded (\<open>wake\<close>), and from there until the
  clock is read for the next \<open>loopStart\<close> (\<open>lag\<close>). The rest of a pass is what \<open>heartbeat_pass\<close> takes.
\<close>

type_synonym beat_pass = "nat \<times> nat \<times> nat \<times> nat \<times> nat list"

fun heartbeat_loop :: "nat \<Rightarrow> nat \<Rightarrow> beat_pass list \<Rightarrow> nat \<Rightarrow> nat list \<times> nat option" where
  "heartbeat_loop interval stopAt [] now = ([], None)"
| "heartbeat_loop interval stopAt ((wake, lag, beat, over, gaps) # passes) now =
     (if now + wake < stopAt
      then let loopStart = now + wake + lag
        in (case heartbeat_pass interval beat over gaps loopStart of
              None \<Rightarrow> ([loopStart], None)
            | Some t \<Rightarrow> let (beats, e) = heartbeat_loop interval stopAt passes t in (loopStart # beats, e))
      else ([], Some (now + wake)))"

text \<open>
  Bounds of a pass: for the callable, the sleep and the times between readings. The readings of a spin
  loop may repeat, but in all of them the clock advances by 50 microseconds.
\<close>

record beat_bounds =
  bb_wake :: nat
  bb_lag :: nat
  bb_beat :: nat
  bb_over :: nat
  bb_gap :: nat

definition pass_ok :: "beat_bounds \<Rightarrow> beat_pass \<Rightarrow> bool" where
  "pass_ok B p \<longleftrightarrow> (case p of (wake, lag, beat, over, gaps) \<Rightarrow>
     wake \<le> bb_wake B \<and> lag \<le> bb_lag B \<and> beat \<le> bb_beat B \<and> over \<le> bb_over B
     \<and> (\<forall>g \<in> set gaps. g \<le> bb_gap B) \<and> 50000 \<le> sum_list gaps)"

text \<open>The longest time from one load of the flag to the next, or one \<open>loopStart\<close> to the next.\<close>

definition longest_pass :: "nat \<Rightarrow> beat_bounds \<Rightarrow> nat" where
  "longest_pass interval B = max (bb_beat B) interval + bb_over B + bb_gap B + bb_wake B + bb_lag B"

lemma pass_ok_bounds:
  assumes "pass_ok B (wake, lag, beat, over, gaps)"
  shows "\<exists>t'. heartbeat_pass interval beat over gaps t = Some t' \<and> t + interval \<le> t'
    \<and> t' + bb_wake B + bb_lag B \<le> t + longest_pass interval B"
proof -
  have p: "beat \<le> bb_beat B" "over \<le> bb_over B" "50000 \<le> sum_list gaps" "\<And>g. g \<in> set gaps \<Longrightarrow> g \<le> bb_gap B"
    using assms by (auto simp: pass_ok_def)
  obtain t' where t': "heartbeat_pass interval beat over gaps t = Some t'"
    using heartbeat_pass_ends [OF p(3)] by blast
  with heartbeat_pass_bounds [OF t' p(4)] p(1,2) show ?thesis by (auto simp: longest_pass_def)
qed

lemma heartbeat_loop_beats:
  assumes "\<And>p. p \<in> set passes \<Longrightarrow> pass_ok B p" "heartbeat_loop interval stopAt passes t = (beats, e)"
  shows "(\<forall>b \<in> set beats. t \<le> b \<and> b < stopAt + bb_lag B)
    \<and> successively (\<lambda>a b. a + interval \<le> b \<and> b \<le> a + longest_pass interval B) beats
    \<and> (beats \<noteq> [] \<longrightarrow> hd beats \<le> t + bb_wake B + bb_lag B)
    \<and> (\<forall>x. e = Some x \<longrightarrow> t \<le> x \<and> stopAt \<le> x \<and> x \<le> max (t + bb_wake B) (stopAt + longest_pass interval B))"
  using assms
proof (induction passes arbitrary: t beats)
  case (Cons p passes)
  obtain wake lag beat over gaps where p: "p = (wake, lag, beat, over, gaps)" by (cases p)
  have ok: "pass_ok B (wake, lag, beat, over, gaps)" using Cons.prems(1) [of p] p by simp
  then have w: "wake \<le> bb_wake B" "lag \<le> bb_lag B" by (simp_all add: pass_ok_def)
  show ?case
  proof (cases "t + wake < stopAt")
    case False
    with Cons.prems(2) w show ?thesis by (auto simp: p)
  next
    case True
    let ?start = "t + wake + lag"
    obtain t' where t': "heartbeat_pass interval beat over gaps ?start = Some t'" "?start + interval \<le> t'"
      "t' + bb_wake B + bb_lag B \<le> ?start + longest_pass interval B"
      using pass_ok_bounds [OF ok, of interval ?start] by auto
    obtain bs where bs: "heartbeat_loop interval stopAt passes t' = (bs, e)" "beats = ?start # bs"
      using Cons.prems(2) True t'(1) by (auto simp: p Let_def split: prod.splits)
    have IH: "\<forall>b \<in> set bs. t' \<le> b \<and> b < stopAt + bb_lag B"
      "successively (\<lambda>a b. a + interval \<le> b \<and> b \<le> a + longest_pass interval B) bs"
      "bs \<noteq> [] \<longrightarrow> hd bs \<le> t' + bb_wake B + bb_lag B"
      "\<forall>x. e = Some x \<longrightarrow> t' \<le> x \<and> stopAt \<le> x \<and> x \<le> max (t' + bb_wake B) (stopAt + longest_pass interval B)"
      using Cons.IH [OF _ bs(1)] Cons.prems(1) by auto
    have "t' + bb_wake B \<le> stopAt + longest_pass interval B" using t'(3) True w by linarith
    then have "\<forall>x. e = Some x \<longrightarrow> t \<le> x \<and> stopAt \<le> x \<and> x \<le> max (t + bb_wake B) (stopAt + longest_pass interval B)"
      using IH(4) t'(2) by fastforce
    moreover have "successively (\<lambda>a b. a + interval \<le> b \<and> b \<le> a + longest_pass interval B) beats"
      using IH(1-3) t'(2,3) bs(2) by (cases bs) auto
    moreover have "\<forall>b \<in> set beats. t \<le> b \<and> b < stopAt + bb_lag B" using IH(1) t'(2) bs(2) True w by auto
    ultimately show ?thesis using w bs(2) by simp
  qed
qed simp

text \<open>With a positive interval the flag is seen after as many passes as intervals fit in.\<close>

lemma heartbeat_loop_ends:
  assumes "\<And>p. p \<in> set passes \<Longrightarrow> pass_ok B p" "passes \<noteq> []" "stopAt \<le> t + (length passes - 1) * interval"
  shows "snd (heartbeat_loop interval stopAt passes t) \<noteq> None"
  using assms
proof (induction passes arbitrary: t)
  case (Cons p passes)
  obtain wake lag beat over gaps where p: "p = (wake, lag, beat, over, gaps)" by (cases p)
  obtain t' where t': "heartbeat_pass interval beat over gaps (t + wake + lag) = Some t'" "t + wake + lag + interval \<le> t'"
    using pass_ok_bounds [of B wake lag beat over gaps interval "t + wake + lag"] Cons.prems(1) [of p] p by auto
  show ?case
  proof (cases "t + wake < stopAt")
    case True
    have ne: "passes \<noteq> []" using True Cons.prems(3) by auto
    then have "length passes = Suc (length passes - 1)" by simp
    then have "length passes * interval = interval + (length passes - 1) * interval" by (metis mult_Suc)
    then have "stopAt \<le> t' + (length passes - 1) * interval" using Cons.prems(3) t'(2) by simp
    then have "snd (heartbeat_loop interval stopAt passes t') \<noteq> None"
      using Cons.IH [of t'] Cons.prems(1) ne by simp
    then show ?thesis by (simp add: p t'(1) case_prod_beta Let_def)
  qed (simp add: p)
qed simp

subsection \<open>Starting and stopping\<close>

record heartbeat =
  hb_running :: bool
  hb_joinable :: bool

definition heartbeat_new :: heartbeat where
  "heartbeat_new = \<lparr>hb_running = False, hb_joinable = False\<rparr>"

text \<open>\<open>None\<close> is \<open>std::terminate\<close>: a new thread is assigned to a joinable one.\<close>

definition heartbeat_start :: "heartbeat \<Rightarrow> heartbeat option" where
  "heartbeat_start h =
     (if hb_running h then Some h
      else let h1 = h\<lparr>hb_running := True\<rparr>
        in if hb_joinable h1 then None else Some (h1\<lparr>hb_joinable := True\<rparr>))"

definition heartbeat_stop :: "heartbeat \<Rightarrow> heartbeat option" where
  "heartbeat_stop h =
     (let h1 = h\<lparr>hb_running := False\<rparr>
      in Some (if hb_joinable h1 then h1\<lparr>hb_joinable := False\<rparr> else h1))"

definition heartbeat_isRunning :: "heartbeat \<Rightarrow> bool" where
  "heartbeat_isRunning h = hb_running h"

text \<open>The destructor is \<open>stop\<close>.\<close>

definition heartbeat_delete :: "heartbeat \<Rightarrow> heartbeat option" where
  "heartbeat_delete h = heartbeat_stop h"

datatype worker_op = Start | Stop

fun run_worker :: "('s \<Rightarrow> 's option) \<Rightarrow> ('s \<Rightarrow> 's option) \<Rightarrow> worker_op list \<Rightarrow> 's \<Rightarrow> 's option" where
  "run_worker start stop [] s = Some s"
| "run_worker start stop (Start # ops) s = Option.bind (start s) (run_worker start stop ops)"
| "run_worker start stop (Stop # ops) s = Option.bind (stop s) (run_worker start stop ops)"

text \<open>A worker that any sequence of \<open>start\<close> and \<open>stop\<close> leaves in order.\<close>

locale safe_worker =
  fixes start :: "'s \<Rightarrow> 's option" and stop :: "'s \<Rightarrow> 's option" and ok :: "'s \<Rightarrow> bool"
  assumes start_ok: "ok s \<Longrightarrow> \<exists>s'. start s = Some s' \<and> ok s'"
    and stop_ok: "ok s \<Longrightarrow> \<exists>s'. stop s = Some s' \<and> ok s'"

context safe_worker
begin

lemma run_ok: "ok s \<Longrightarrow> \<exists>s'. run_worker start stop ops s = Some s' \<and> ok s'"
proof (induction ops arbitrary: s)
  case (Cons op ops)
  obtain s1 where "(case op of Start \<Rightarrow> start s | Stop \<Rightarrow> stop s) = Some s1" "ok s1"
    using start_ok [OF Cons.prems] stop_ok [OF Cons.prems] by (cases op) auto
  with Cons.IH [of s1] show ?case by (cases op) auto
qed simp

end

interpretation hb: safe_worker heartbeat_start heartbeat_stop "\<lambda>h. hb_running h = hb_joinable h"
proof unfold_locales
  fix h :: heartbeat
  assume "hb_running h = hb_joinable h"
  then show "\<exists>h'. heartbeat_start h = Some h' \<and> hb_running h' = hb_joinable h'"
    and "\<exists>h'. heartbeat_stop h = Some h' \<and> hb_running h' = hb_joinable h'"
    by (auto simp: heartbeat_start_def heartbeat_stop_def Let_def)
qed

end
