(* ===== verification/LifeCycle.thy ===== *)
theory LifeCycle
  imports Workers MarketData UdpPipeline
begin

text \<open>
  \<open>start\<close> and \<open>stop\<close> of the classes that own one thread: \<open>TcpServer\<close>, \<open>TcpPipeline\<close>, \<open>UdpPipeline\<close> and
  \<open>SyntheticDataInjector\<close>. None of them looks whether it was started already, unlike \<open>TcpHeartbeat\<close>
  (theory \<open>Workers\<close>). The contract they share is the locale \<open>restartable\<close>: what makes a sequence of
  calls safe is that no \<open>start\<close> follows a \<open>start\<close> without a \<open>stop\<close> between. With the destructor it
  is the locale \<open>scoped\<close>: an object that is used safely and then goes out of scope leaves no thread.
\<close>

text \<open>Whether a sequence of calls is safe for an object whose thread is joinable or not.\<close>

fun no_double_start :: "bool \<Rightarrow> worker_op list \<Rightarrow> bool" where
  "no_double_start started [] = True"
| "no_double_start started (Start # ops) = (\<not> started \<and> no_double_start True ops)"
| "no_double_start started (Stop # ops) = no_double_start False ops"

fun ends_started :: "bool \<Rightarrow> worker_op list \<Rightarrow> bool" where
  "ends_started started [] = started"
| "ends_started started (Start # ops) = ends_started True ops"
| "ends_started started (Stop # ops) = ends_started False ops"

locale restartable =
  fixes start :: "'s \<Rightarrow> 's option" and stop :: "'s \<Rightarrow> 's option"
    and joinable :: "'s \<Rightarrow> bool" and running :: "'s \<Rightarrow> bool"
  assumes start_twice: "joinable s \<Longrightarrow> start s = None"
    and start_once: "\<not> joinable s \<Longrightarrow> \<exists>s'. start s = Some s' \<and> joinable s' \<and> running s'"
    and stop_any: "\<exists>s'. stop s = Some s' \<and> \<not> joinable s' \<and> \<not> running s'"
begin

lemma run_defined: "run_worker start stop ops s \<noteq> None \<longleftrightarrow> no_double_start (joinable s) ops"
proof (induction ops arbitrary: s)
  case (Cons op ops)
  show ?case
  proof (cases op)
    case Start
    show ?thesis
    proof (cases "joinable s")
      case False
      then obtain s' where "start s = Some s'" "joinable s'" using start_once by blast
      with Cons.IH [of s'] Start False show ?thesis by simp
    qed (simp add: Start start_twice)
  next
    case Stop
    obtain s' where "stop s = Some s'" "\<not> joinable s'" using stop_any by blast
    with Cons.IH [of s'] Stop show ?thesis by simp
  qed
qed simp

lemma run_final:
  "run_worker start stop ops s = Some s' \<Longrightarrow> joinable s = running s
    \<Longrightarrow> joinable s' = ends_started (joinable s) ops \<and> running s' = joinable s'"
proof (induction ops arbitrary: s)
  case (Cons op ops)
  show ?case
  proof (cases op)
    case Start
    have "\<not> joinable s" using Cons.prems(1) start_twice [of s] Start by (cases "joinable s") auto
    then obtain s1 where "start s = Some s1" "joinable s1" "running s1" using start_once by blast
    with Cons.IH [of s1] Cons.prems(1) Start show ?thesis by simp
  next
    case Stop
    obtain s1 where "stop s = Some s1" "\<not> joinable s1" "\<not> running s1" using stop_any by blast
    with Cons.IH [of s1] Cons.prems(1) Stop show ?thesis by simp
  qed
qed simp

end

text \<open>
  The four classes, where the loops end once the flag is cleared (that they may not is in the
  theories of the loops).
\<close>

interpretation server_cycle: restartable server_start "server_stop Exited (\<lambda>fd. Exited)"
  sv_acceptJoinable sv_running
  by unfold_locales (auto simp: server_start_def server_stop_def Let_def list_ex_iff)

interpretation tcp_cycle: restartable pipeline_start "pipeline_stop Exited" pp_joinable pp_running
  by unfold_locales (auto simp: pipeline_start_def pipeline_stop_def Let_def)

interpretation udp_cycle: restartable udp_pipeline_start "udp_pipeline_stop Exited" up_joinable up_running
  by unfold_locales (auto simp: udp_pipeline_start_def udp_pipeline_stop_def Let_def)

interpretation injector_cycle: restartable injector_start "\<lambda>s. Some (injector_stop s)" in_joinable in_running
  by unfold_locales (auto simp: injector_start_def injector_stop_def Let_def)

section \<open>Scopes\<close>

text \<open>
  The destructors. The manager is the one of \<open>ConnectionManager\<close>.
\<close>

definition server_delete :: "loop_end \<Rightarrow> (int \<Rightarrow> loop_end) \<Rightarrow> tcp_server \<Rightarrow> tcp_server option" where
  "server_delete accept_end client_end s = server_stop accept_end client_end s"

definition pipeline_delete :: "loop_end \<Rightarrow> pipeline \<Rightarrow> pipeline option" where
  "pipeline_delete read_end p = pipeline_stop read_end p"

definition udp_pipeline_delete :: "loop_end \<Rightarrow> udp_pipeline \<Rightarrow> udp_pipeline option" where
  "udp_pipeline_delete read_end p = udp_pipeline_stop read_end p"

definition injector_delete :: "injector \<Rightarrow> injector" where
  "injector_delete s = injector_stop s"

text \<open>
  An object in a scope: it is used and then destroyed. With a joinable thread left in it, the
  destructor of \<open>std::thread\<close> would end the program.
\<close>

locale scoped = restartable +
  fixes destroy :: "'s \<Rightarrow> 's option"
  assumes destroy_stops: "destroy s = stop s"
begin

lemma scope_defined: "Option.bind (run_worker start stop ops s) destroy \<noteq> None \<longleftrightarrow> no_double_start (joinable s) ops"
proof (cases "run_worker start stop ops s")
  case None
  with run_defined [of ops s] show ?thesis by simp
next
  case (Some s1)
  obtain s2 where "stop s1 = Some s2" using stop_any by blast
  with Some run_defined [of ops s] show ?thesis by (simp add: destroy_stops)
qed

lemma scope_leaves_no_thread:
  assumes "Option.bind (run_worker start stop ops s) destroy = Some s'"
  shows "\<not> joinable s' \<and> \<not> running s'"
proof -
  obtain s1 where "stop s1 = Some s'" using assms by (auto simp: destroy_stops bind_eq_Some_conv)
  with stop_any [of s1] show ?thesis by auto
qed

lemma scope_ends:
  assumes "\<not> joinable s" "no_double_start False ops"
  shows "\<exists>s'. Option.bind (run_worker start stop ops s) destroy = Some s' \<and> \<not> joinable s' \<and> \<not> running s'"
  using scope_defined [of ops s] scope_leaves_no_thread [of ops s] assms by auto

end

interpretation server_scope: scoped server_start "server_stop Exited (\<lambda>fd. Exited)" sv_acceptJoinable sv_running
  "server_delete Exited (\<lambda>fd. Exited)"
  by unfold_locales (simp add: server_delete_def fun_eq_iff)

interpretation tcp_scope: scoped pipeline_start "pipeline_stop Exited" pp_joinable pp_running "pipeline_delete Exited"
  by unfold_locales (simp add: pipeline_delete_def)

interpretation udp_scope: scoped udp_pipeline_start "udp_pipeline_stop Exited" up_joinable up_running
  "udp_pipeline_delete Exited"
  by unfold_locales (simp add: udp_pipeline_delete_def)

interpretation injector_scope: scoped injector_start "\<lambda>s. Some (injector_stop s)" in_joinable in_running
  "\<lambda>s. Some (injector_delete s)"
  by unfold_locales (simp add: injector_delete_def)

end
