(* ===== verification/OwnedThread.thy ===== *)
theory OwnedThread
  imports LifeCycle Machines
begin

text \<open>
  An object that owns one thread: a flag, a \<open>std::thread\<close>, and an owner that calls \<open>start\<close> and \<open>stop\<close>
  while the thread runs a loop that looks at the flag. \<open>TcpPipeline\<close>, \<open>UdpPipeline\<close>,
  \<open>SyntheticDataInjector\<close> and \<open>TcpHeartbeat\<close> are of this kind; what they do in the loop is the
  parameter \<open>body\<close>. One step is a call or the join of the owner or one step of the loop, in any order.

  What a loop owes so that \<open>stop\<close> returns is the locale \<open>looping\<close>; the four classes interpret it in
  \<open>LoopThreads\<close>.
\<close>

section \<open>State and steps\<close>

datatype 'pc worker_thread = No_Thread | Runs 'pc | Has_Ended

datatype thread_owner = Is_Ready | Is_Joining | Is_Terminated

record ('pc, 'd) owned =
  ow_running :: bool
  ow_thread :: "'pc worker_thread"
  ow_owner :: thread_owner
  ow_ops :: "worker_op list"
  ow_data :: 'd

definition owned_new :: "worker_op list \<Rightarrow> 'd \<Rightarrow> ('pc, 'd) owned" where
  "owned_new ops d = \<lparr>ow_running = False, ow_thread = No_Thread, ow_owner = Is_Ready, ow_ops = ops, ow_data = d\<rparr>"

text \<open>
  \<open>start\<close>; with \<open>checked\<close> it returns at once when the flag is set, as \<open>TcpHeartbeat\<close> does. To assign a
  thread to one that is joinable is \<open>std::terminate\<close>.
\<close>

definition owned_start :: "bool \<Rightarrow> 'pc \<Rightarrow> ('pc, 'd) owned \<Rightarrow> ('pc, 'd) owned" where
  "owned_start checked entry s =
     (if checked \<and> ow_running s then s
      else let s1 = s\<lparr>ow_running := True\<rparr>
        in case ow_thread s1 of
             No_Thread \<Rightarrow> s1\<lparr>ow_thread := Runs entry\<rparr>
           | _ \<Rightarrow> s1\<lparr>ow_owner := Is_Terminated\<rparr>)"

definition owned_stop :: "('pc, 'd) owned \<Rightarrow> ('pc, 'd) owned" where
  "owned_stop s =
     (let s1 = s\<lparr>ow_running := False\<rparr>
      in case ow_thread s1 of No_Thread \<Rightarrow> s1 | _ \<Rightarrow> s1\<lparr>ow_owner := Is_Joining\<rparr>)"

definition owned_owner :: "bool \<Rightarrow> 'pc \<Rightarrow> ('pc, 'd) owned \<Rightarrow> ('pc, 'd) owned option" where
  "owned_owner checked entry s =
     (case ow_owner s of
        Is_Ready \<Rightarrow> (case ow_ops s of
            [] \<Rightarrow> None
          | Start # ops \<Rightarrow> Some (owned_start checked entry (s\<lparr>ow_ops := ops\<rparr>))
          | Stop # ops \<Rightarrow> Some (owned_stop (s\<lparr>ow_ops := ops\<rparr>)))
      | Is_Joining \<Rightarrow> (case ow_thread s of
            Has_Ended \<Rightarrow> Some (s\<lparr>ow_thread := No_Thread, ow_owner := Is_Ready\<rparr>)
          | _ \<Rightarrow> None)
      | Is_Terminated \<Rightarrow> None)"

text \<open>
  A step of the loop has an input (what a call of the system gives) and the value of the flag; it
  gives no program counter when the thread ends.
\<close>

type_synonym ('i, 'pc, 'd) loop_body = "'i \<Rightarrow> bool \<Rightarrow> 'pc \<Rightarrow> 'd \<Rightarrow> ('pc option \<times> 'd) option"

fun after_step :: "'pc option \<Rightarrow> 'pc worker_thread" where
  "after_step None = Has_Ended"
| "after_step (Some pc) = Runs pc"

datatype 'i owned_mover = Owner_Step | Body_Step 'i

definition owned_next ::
  "bool \<Rightarrow> 'pc \<Rightarrow> ('i, 'pc, 'd) loop_body \<Rightarrow> 'i owned_mover \<Rightarrow> ('pc, 'd) owned \<Rightarrow> ('pc, 'd) owned option" where
  "owned_next checked entry body m s =
     (if ow_owner s = Is_Terminated then None
      else case m of
        Owner_Step \<Rightarrow> owned_owner checked entry s
      | Body_Step i \<Rightarrow> (case ow_thread s of
            Runs pc \<Rightarrow> map_option (\<lambda>(pc', d). s\<lparr>ow_thread := after_step pc', ow_data := d\<rparr>)
              (body i (ow_running s) pc (ow_data s))
          | _ \<Rightarrow> None))"

inductive owned_moves ::
  "bool \<Rightarrow> 'pc \<Rightarrow> ('i, 'pc, 'd) loop_body \<Rightarrow> ('pc, 'd) owned \<Rightarrow> ('pc, 'd) owned \<Rightarrow> bool"
  for checked entry body where
  owned_moves: "owned_next checked entry body m s = Some s' \<Longrightarrow> owned_moves checked entry body s s'"

inductive_cases owned_movesE: "owned_moves checked entry body s s'"

fun owned_run ::
  "bool \<Rightarrow> 'pc \<Rightarrow> ('i, 'pc, 'd) loop_body \<Rightarrow> 'i owned_mover list \<Rightarrow> ('pc, 'd) owned \<Rightarrow> ('pc, 'd) owned option" where
  "owned_run checked entry body [] s = Some s"
| "owned_run checked entry body (m # ms) s =
     Option.bind (owned_next checked entry body m s) (owned_run checked entry body ms)"

lemma owned_run_steps:
  "owned_run checked entry body ms s = Some s' \<Longrightarrow> (owned_moves checked entry body)\<^sup>*\<^sup>* s s'"
proof (induction ms arbitrary: s)
  case (Cons m ms)
  then obtain s1 where "owned_next checked entry body m s = Some s1" "owned_run checked entry body ms s1 = Some s'"
    by (auto simp: bind_eq_Some_conv)
  with Cons.IH show ?case by (meson owned_moves.owned_moves converse_rtranclp_into_rtranclp)
qed simp

text \<open>What moved, as cases.\<close>

lemma owned_next_cases:
  assumes "owned_next checked entry body m s = Some s'"
  obtains (Owner) "m = Owner_Step" "ow_owner s \<noteq> Is_Terminated" "owned_owner checked entry s = Some s'"
  | (Body) i pc pc' d where "m = Body_Step i" "ow_owner s \<noteq> Is_Terminated" "ow_thread s = Runs pc"
      "body i (ow_running s) pc (ow_data s) = Some (pc', d)" "s' = s\<lparr>ow_thread := after_step pc', ow_data := d\<rparr>"
  using assms
  by (auto simp: owned_next_def split: if_splits owned_mover.splits worker_thread.splits)

section \<open>The owner\<close>

text \<open>Between the calls the thread object has a thread exactly when the flag is set.\<close>

definition owned_inv :: "('pc, 'd) owned \<Rightarrow> bool" where
  "owned_inv s \<longleftrightarrow> (case ow_owner s of
     Is_Ready \<Rightarrow> ow_running s = (ow_thread s \<noteq> No_Thread)
   | Is_Joining \<Rightarrow> \<not> ow_running s \<and> ow_thread s \<noteq> No_Thread
   | Is_Terminated \<Rightarrow> True)"

definition owned_safe :: "bool \<Rightarrow> ('pc, 'd) owned \<Rightarrow> bool" where
  "owned_safe checked s \<longleftrightarrow> ow_owner s \<noteq> Is_Terminated \<and> (checked \<or> no_double_start (ow_running s) (ow_ops s))"

lemma after_step_thread [simp]: "after_step pc \<noteq> No_Thread"
  by (cases pc) simp_all

text \<open>The calls of the owner, as cases.\<close>

lemma owned_owner_cases:
  assumes "owned_owner checked entry s = Some s'"
  obtains (Started) ops where "ow_owner s = Is_Ready" "ow_ops s = Start # ops"
      "s' = owned_start checked entry (s\<lparr>ow_ops := ops\<rparr>)"
  | (Stopped) ops where "ow_owner s = Is_Ready" "ow_ops s = Stop # ops" "s' = owned_stop (s\<lparr>ow_ops := ops\<rparr>)"
  | (Joined) "ow_owner s = Is_Joining" "ow_thread s = Has_Ended"
      "s' = s\<lparr>ow_thread := No_Thread, ow_owner := Is_Ready\<rparr>"
  using assms
  by (auto simp: owned_owner_def split: thread_owner.splits list.splits worker_op.splits worker_thread.splits)

lemma owned_inv_owner:
  assumes "owned_inv s" "owned_owner checked entry s = Some s'"
  shows "owned_inv s'"
  using assms(2)
proof (cases rule: owned_owner_cases)
  case (Started ops)
  with assms(1) show ?thesis
    by (cases "ow_thread s") (auto simp: owned_inv_def owned_start_def Let_def)
next
  case (Stopped ops)
  then show ?thesis by (cases "ow_thread s") (simp_all add: owned_inv_def owned_stop_def Let_def)
next
  case Joined
  with assms(1) show ?thesis by (simp add: owned_inv_def)
qed

lemma owned_safe_owner:
  assumes "owned_inv s" "owned_safe checked s" "owned_owner checked entry s = Some s'"
  shows "owned_safe checked s'"
  using assms(3)
proof (cases rule: owned_owner_cases)
  case (Started ops)
  with assms(1,2) show ?thesis
    by (cases "ow_thread s") (auto simp: owned_inv_def owned_safe_def owned_start_def Let_def)
next
  case (Stopped ops)
  with assms(2) show ?thesis
    by (cases "ow_thread s") (auto simp: owned_safe_def owned_stop_def Let_def)
next
  case Joined
  with assms(2) show ?thesis by (simp add: owned_safe_def)
qed

lemma owned_inv_next:
  assumes "owned_inv s" "owned_next checked entry body m s = Some s'"
  shows "owned_inv s'"
  using assms(2)
proof (cases rule: owned_next_cases)
  case Owner
  from owned_inv_owner [OF assms(1) Owner(3)] show ?thesis .
next
  case (Body i pc pc' d)
  then show ?thesis using assms(1) by (auto simp: owned_inv_def split: thread_owner.splits)
qed

lemma owned_safe_next:
  assumes "owned_inv s" "owned_safe checked s" "owned_next checked entry body m s = Some s'"
  shows "owned_safe checked s'"
  using assms(3)
proof (cases rule: owned_next_cases)
  case Owner
  from owned_safe_owner [OF assms(1,2) Owner(3)] show ?thesis .
next
  case (Body i pc pc' d)
  then show ?thesis using assms(2) by (simp add: owned_safe_def)
qed

text \<open>Whatever the loop does: an object that is not started twice never ends the program.\<close>

interpretation safe_owner: machine "owned_moves checked entry body"
  "\<lambda>s. \<exists>ops d. (checked \<or> no_double_start False ops) \<and> s = owned_new ops d" "\<lambda>s. owned_inv s \<and> owned_safe checked s"
  for checked entry body
proof (unfold_locales, goal_cases)
  case (1 s)
  then show ?case by (auto simp: owned_inv_def owned_safe_def owned_new_def)
next
  case (2 s s')
  then obtain m where m: "owned_next checked entry body m s = Some s'" by (auto elim: owned_movesE)
  with 2(1) owned_inv_next [OF _ m] owned_safe_next [OF _ _ m] show ?case by simp
qed

text \<open>To start it twice does end the program, at once.\<close>

lemma second_start_terminates:
  assumes "ow_owner s = Is_Ready" "ow_ops s = Start # ops" "ow_thread s \<noteq> No_Thread"
  shows "\<exists>s'. owned_moves False entry body s s' \<and> ow_owner s' = Is_Terminated"
proof -
  let ?s' = "owned_start False entry (s\<lparr>ow_ops := ops\<rparr>)"
  have "owned_next False entry body Owner_Step s = Some ?s'"
    using assms(1,2) by (simp add: owned_next_def owned_owner_def)
  moreover have "ow_owner ?s' = Is_Terminated"
    using assms(3) by (cases "ow_thread s") (simp_all add: owned_start_def Let_def)
  ultimately show ?thesis by (blast intro: owned_moves.owned_moves)
qed

section \<open>The loop\<close>

fun thread_pc :: "'pc worker_thread \<Rightarrow> 'pc option" where
  "thread_pc (Runs pc) = Some pc"
| "thread_pc _ = None"

lemma thread_pc_after [simp]: "thread_pc (after_step pc) = pc"
  by (cases pc) simp_all

definition owned_fine :: "('pc option \<Rightarrow> 'd \<Rightarrow> bool) \<Rightarrow> ('pc, 'd) owned \<Rightarrow> bool" where
  "owned_fine fine s \<longleftrightarrow> owned_inv s \<and> fine (thread_pc (ow_thread s)) (ow_data s)"

definition owned_rank :: "('pc \<Rightarrow> 'd \<Rightarrow> nat) \<Rightarrow> ('pc, 'd) owned \<Rightarrow> nat" where
  "owned_rank rank s = (case ow_thread s of Runs pc \<Rightarrow> rank pc (ow_data s) + 1 | _ \<Rightarrow> 0)
     + (if ow_owner s = Is_Joining then 1 else 0)"

definition owned_stopped :: "('pc, 'd) owned \<Rightarrow> bool" where
  "owned_stopped s \<longleftrightarrow> ow_owner s = Is_Ready \<and> ow_thread s = No_Thread"

text \<open>The last call of the owner is a \<open>stop\<close> under way, or it has returned.\<close>

definition owned_stopping :: "('pc option \<Rightarrow> 'd \<Rightarrow> bool) \<Rightarrow> ('pc, 'd) owned \<Rightarrow> bool" where
  "owned_stopping fine s \<longleftrightarrow> owned_fine fine s \<and> ow_ops s = [] \<and> (owned_stopped s \<or> ow_owner s = Is_Joining)"

text \<open>
  A step of the loop whose input says that nothing has changed since the last one, such as a clock that
  is read and has not advanced, may leave the thread where it is.
\<close>

fun stalls :: "('i \<Rightarrow> bool) \<Rightarrow> 'i owned_mover \<Rightarrow> bool" where
  "stalls idle Owner_Step = False"
| "stalls idle (Body_Step i) = idle i"

text \<open>
  \<open>stop\<close> returns: the thread and the owner together have at most \<open>bound\<close> steps left besides the idle
  ones, there is a way on at which it returns, and it does not return as long as a thread that still
  runs does not move.
\<close>

definition told_to_stop :: "('pc, 'd) owned \<Rightarrow> bool" where
  "told_to_stop s \<longleftrightarrow> ow_ops s = [] \<and> ow_owner s = Is_Joining"

definition stop_returns ::
  "('i \<Rightarrow> bool) \<Rightarrow> bool \<Rightarrow> 'pc \<Rightarrow> ('i, 'pc, 'd) loop_body \<Rightarrow> nat \<Rightarrow> ('pc, 'd) owned \<Rightarrow> bool" where
  "stop_returns idle checked entry body bound s \<longleftrightarrow>
     (\<forall>ms s'. owned_run checked entry body ms s = Some s' \<longrightarrow> length ms \<le> bound + length (filter (stalls idle) ms))
   \<and> (\<exists>s'. (owned_moves checked entry body)\<^sup>*\<^sup>* s s' \<and> owned_stopped s')
   \<and> (\<forall>pc ms s'. ow_thread s = Runs pc \<and> (\<forall>i. Body_Step i \<notin> set ms)
        \<and> owned_run checked entry body ms s = Some s' \<longrightarrow> \<not> owned_stopped s')"

text \<open>
  A loop keeps what it promises of its data (\<open>fine\<close>), is never stuck for ever in a call that
  returns, and once the flag is cleared has only so many steps left (\<open>rank\<close>) that are not \<open>idle\<close>.
\<close>

locale looping =
  fixes entry :: 'pc and body :: "('i, 'pc, 'd) loop_body"
    and fine :: "'pc option \<Rightarrow> 'd \<Rightarrow> bool" and rank :: "'pc \<Rightarrow> 'd \<Rightarrow> nat" and idle :: "'i \<Rightarrow> bool"
  assumes fine_start: "fine None d \<Longrightarrow> fine (Some entry) d"
    and fine_body: "fine (Some pc) d \<Longrightarrow> body i running pc d = Some (later, d') \<Longrightarrow> fine later d'"
    and told: "fine (Some pc) d \<Longrightarrow> body i False pc d = Some (Some pc', d')
      \<Longrightarrow> rank pc' d' < rank pc d \<or> (idle i \<and> rank pc' d' \<le> rank pc d)"
    and can_step: "fine (Some pc) d \<Longrightarrow> \<exists>i res. \<not> idle i \<and> body i running pc d = Some res"
begin

lemma fine_owner:
  assumes "owned_fine fine s" "owned_owner checked entry s = Some s'"
  shows "owned_fine fine s'"
proof -
  have inv: "owned_inv s'" using owned_inv_owner [OF _ assms(2)] assms(1) by (simp add: owned_fine_def)
  from assms(2) show ?thesis
  proof (cases rule: owned_owner_cases)
    case (Started ops)
    with assms(1) inv fine_start show ?thesis
      by (cases "ow_thread s") (auto simp: owned_fine_def owned_start_def Let_def)
  next
    case (Stopped ops)
    with assms(1) inv show ?thesis
      by (cases "ow_thread s") (auto simp: owned_fine_def owned_stop_def Let_def)
  next
    case Joined
    with assms(1) inv show ?thesis by (simp add: owned_fine_def)
  qed
qed

lemma fine_next:
  assumes "owned_fine fine s" "owned_next checked entry body m s = Some s'"
  shows "owned_fine fine s'"
  using assms(2)
proof (cases rule: owned_next_cases)
  case Owner
  from fine_owner [OF assms(1) Owner(3)] show ?thesis .
next
  case (Body i pc pc' d)
  have "fine pc' d" using fine_body [OF _ Body(4)] Body(3) assms(1) by (simp add: owned_fine_def)
  with owned_inv_next [OF _ assms(2)] assms(1) Body(5) show ?thesis by (simp add: owned_fine_def)
qed

text \<open>Once told to stop, every step that is not idle brings the join nearer.\<close>

lemma told_next:
  assumes "owned_stopping fine s" "owned_next checked entry body m s = Some s'"
  shows "owned_stopping fine s' \<and> (owned_rank rank s' < owned_rank rank s
    \<or> (stalls idle m \<and> owned_rank rank s' \<le> owned_rank rank s))"
proof -
  have ok: "owned_fine fine s" "ow_ops s = []" using assms(1) by (simp_all add: owned_stopping_def)
  note ok' = fine_next [OF ok(1) assms(2)]
  from assms(2) show ?thesis
  proof (cases rule: owned_next_cases)
    case Owner
    from Owner(3) ok(2) have "ow_owner s = Is_Joining" "ow_thread s = Has_Ended"
      "s' = s\<lparr>ow_thread := No_Thread, ow_owner := Is_Ready\<rparr>"
      by (cases rule: owned_owner_cases; simp)+
    with ok ok' show ?thesis by (simp add: owned_stopping_def owned_rank_def owned_stopped_def)
  next
    case (Body i pc pc' d)
    then have join: "ow_owner s = Is_Joining" using assms(1) by (auto simp: owned_stopping_def owned_stopped_def)
    then have "\<not> ow_running s" using ok(1) by (simp add: owned_fine_def owned_inv_def)
    then have b: "body i False pc (ow_data s) = Some (pc', d)" using Body(4) by simp
    have "fine (Some pc) (ow_data s)" using ok(1) Body(3) by (simp add: owned_fine_def)
    then have "owned_rank rank s' < owned_rank rank s \<or> (idle i \<and> owned_rank rank s' \<le> owned_rank rank s)"
      using Body(3,5) b by (cases pc') (auto simp: owned_rank_def dest: told)
    with ok(2) ok' join Body(1,5) show ?thesis by (simp add: owned_stopping_def)
  qed
qed

lemma told_progress:
  assumes "owned_stopping fine s" "\<not> owned_stopped s"
  shows "\<exists>m s'. \<not> stalls idle m \<and> owned_next checked entry body m s = Some s'"
proof -
  have j: "ow_owner s = Is_Joining" using assms by (simp add: owned_stopping_def)
  have fine: "fine (thread_pc (ow_thread s)) (ow_data s)" "ow_thread s \<noteq> No_Thread"
    using assms(1) j by (simp_all add: owned_stopping_def owned_fine_def owned_inv_def)
  show ?thesis
  proof (cases "ow_thread s")
    case (Runs pc)
    then obtain i res where "\<not> idle i" "body i (ow_running s) pc (ow_data s) = Some res" using can_step fine(1) by fastforce
    with Runs j show ?thesis by (intro exI [of _ "Body_Step i"]) (simp add: owned_next_def)
  next
    case Has_Ended
    with j show ?thesis by (intro exI [of _ Owner_Step]) (simp add: owned_next_def owned_owner_def)
  qed (use fine(2) in simp)
qed

end

text \<open>The steps that are not idle.\<close>

definition owned_advances ::
  "('i \<Rightarrow> bool) \<Rightarrow> bool \<Rightarrow> 'pc \<Rightarrow> ('i, 'pc, 'd) loop_body \<Rightarrow> ('pc, 'd) owned \<Rightarrow> ('pc, 'd) owned \<Rightarrow> bool" where
  "owned_advances idle checked entry body s s' \<longleftrightarrow>
     (\<exists>m. \<not> stalls idle m \<and> owned_next checked entry body m s = Some s')"

lemma advances_moves:
  "(owned_advances idle checked entry body)\<^sup>*\<^sup>* s s' \<Longrightarrow> (owned_moves checked entry body)\<^sup>*\<^sup>* s s'"
  by (rule rtranclp_mono [THEN predicate2D]) (auto simp: owned_advances_def intro: owned_moves.owned_moves)

text \<open>
  So a loop with its owner is a machine, and one that ends when it is being stopped and does not idle.
\<close>

sublocale looping < fine_owned: machine "owned_moves checked entry body"
  "\<lambda>s. \<exists>ops d. fine None d \<and> s = owned_new ops d" "owned_fine fine" for checked
proof (unfold_locales, goal_cases)
  case (1 s)
  then show ?case by (auto simp: owned_fine_def owned_inv_def owned_new_def)
next
  case (2 s s')
  then show ?case by (auto elim!: owned_movesE intro: fine_next)
qed

sublocale looping < ends: ending_machine "owned_advances idle checked entry body"
  "owned_stopping fine" "owned_stopping fine" "owned_rank rank" owned_stopped for checked
proof (unfold_locales, goal_cases)
  case (2 s s')
  then show ?case by (auto simp: owned_advances_def dest: told_next)
next
  case (3 s s')
  then show ?case by (auto simp: owned_advances_def dest: told_next)
next
  case (4 s)
  from told_progress [OF 4] show ?case unfolding owned_advances_def by blast
qed

context looping
begin

lemma fine_reachable:
  "fine None d \<Longrightarrow> (owned_moves checked entry body)\<^sup>*\<^sup>* (owned_new ops d) s \<Longrightarrow> owned_fine fine s"
  by (rule fine_owned.reachable_inv) blast+

text \<open>A join can be completed, whatever calls are still to come.\<close>

lemma join_completes:
  "owned_fine fine s \<Longrightarrow> ow_owner s = Is_Joining \<Longrightarrow> \<exists>s'. (owned_moves checked entry body)\<^sup>*\<^sup>* s s'
    \<and> ow_owner s' = Is_Ready \<and> ow_thread s' = No_Thread \<and> ow_ops s' = ow_ops s \<and> \<not> ow_running s'"
proof (induction s rule: measure_induct_rule [of "owned_rank rank"])
  case (less s)
  have inv: "\<not> ow_running s" "ow_thread s \<noteq> No_Thread" "fine (thread_pc (ow_thread s)) (ow_data s)"
    using less.prems by (simp_all add: owned_fine_def owned_inv_def)
  show ?case
  proof (cases "ow_thread s")
    case (Runs pc)
    then obtain i pc' d where b: "\<not> idle i" "body i False pc (ow_data s) = Some (pc', d)"
      using can_step inv(3) by (metis thread_pc.simps(1) surj_pair)
    let ?s1 = "s\<lparr>ow_thread := after_step pc', ow_data := d\<rparr>"
    have step: "owned_next checked entry body (Body_Step i) s = Some ?s1"
      using Runs b inv(1) less.prems(2) by (simp add: owned_next_def)
    have "fine (Some pc) (ow_data s)" using Runs inv(3) by simp
    then have "owned_rank rank ?s1 < owned_rank rank s"
      using Runs b less.prems(2) by (cases pc') (auto simp: owned_rank_def dest: told)
    from less.IH [OF this fine_next [OF less.prems(1) step]] less.prems(2)
    obtain s' where "(owned_moves checked entry body)\<^sup>*\<^sup>* ?s1 s'" "ow_owner s' = Is_Ready \<and> ow_thread s' = No_Thread
      \<and> ow_ops s' = ow_ops s \<and> \<not> ow_running s'" by auto
    with owned_moves.owned_moves [OF step] show ?thesis by (meson converse_rtranclp_into_rtranclp)
  next
    case Has_Ended
    let ?s1 = "s\<lparr>ow_thread := No_Thread, ow_owner := Is_Ready\<rparr>"
    have "owned_next checked entry body Owner_Step s = Some ?s1"
      using Has_Ended less.prems(2) by (simp add: owned_next_def owned_owner_def)
    from owned_moves.owned_moves [OF this] inv(1) show ?thesis by (intro exI [of _ ?s1]) auto
  qed (use inv(2) in simp)
qed

text \<open>Calls in which a \<open>start\<close> follows a \<open>start\<close> end the program in some run.\<close>

lemma double_start_terminates:
  "owned_fine fine s \<Longrightarrow> ow_owner s = Is_Ready \<Longrightarrow> \<not> no_double_start (ow_running s) (ow_ops s)
    \<Longrightarrow> \<exists>s'. (owned_moves False entry body)\<^sup>*\<^sup>* s s' \<and> ow_owner s' = Is_Terminated"
proof (induction "ow_ops s" arbitrary: s)
  case Nil
  then show ?case by (metis no_double_start.simps(1))
next
  case (Cons op ops)
  let ?moves = "owned_moves False entry body"
  have inv: "ow_running s = (ow_thread s \<noteq> No_Thread)" using Cons.prems(1,2) by (simp add: owned_fine_def owned_inv_def)
  have from_next: "\<exists>s'. ?moves\<^sup>*\<^sup>* s s' \<and> ow_owner s' = Is_Terminated"
    if "?moves\<^sup>*\<^sup>* s s1" "ow_ops s1 = ops" "ow_owner s1 = Is_Ready" "\<not> no_double_start (ow_running s1) ops" for s1
  proof -
    have "owned_fine fine s1" using fine_owned.inv_steps [OF that(1) Cons.prems(1)] .
    with Cons.hyps(1) [of s1] that show ?thesis by (metis rtranclp_trans)
  qed
  have call: "?moves s s1" if "owned_owner False entry s = Some s1" for s1
    by (rule owned_moves.owned_moves [where m = Owner_Step]) (use that Cons.prems(2) in \<open>simp add: owned_next_def\<close>)
  show ?case
  proof (cases op)
    case Start
    show ?thesis
    proof (cases "ow_thread s = No_Thread")
      case True
      let ?s1 = "owned_start False entry (s\<lparr>ow_ops := ops\<rparr>)"
      have s1: "ow_ops ?s1 = ops" "ow_owner ?s1 = Is_Ready" "ow_running ?s1"
        using True Cons.prems(2) by (simp_all add: owned_start_def Let_def)
      have nd: "\<not> no_double_start True ops"
        using Cons.prems(3) True inv Start Cons.hyps(2) [symmetric] by simp
      have "?moves s ?s1"
        by (rule call) (use Cons.prems(2) Start Cons.hyps(2) [symmetric] in \<open>simp add: owned_owner_def\<close>)
      then have "?moves\<^sup>*\<^sup>* s ?s1" by (rule r_into_rtranclp)
      from from_next [OF this s1(1,2)] s1(3) nd show ?thesis by simp
    next
      case False
      with second_start_terminates [OF Cons.prems(2) _ False] Start Cons.hyps(2) [symmetric] show ?thesis
        by (metis r_into_rtranclp)
    qed
  next
    case Stop
    have nd: "\<not> no_double_start False ops" using Cons.prems(3) Stop Cons.hyps(2) [symmetric] by simp
    let ?s1 = "owned_stop (s\<lparr>ow_ops := ops\<rparr>)"
    have step: "?moves s ?s1"
      by (rule call) (use Cons.prems(2) Stop Cons.hyps(2) [symmetric] in \<open>simp add: owned_owner_def\<close>)
    show ?thesis
    proof (cases "ow_thread s = No_Thread")
      case True
      then have s1: "ow_ops ?s1 = ops" "ow_owner ?s1 = Is_Ready" "\<not> ow_running ?s1"
        using Cons.prems(2) by (simp_all add: owned_stop_def Let_def)
      have "?moves\<^sup>*\<^sup>* s ?s1" using step by (rule r_into_rtranclp)
      from from_next [OF this s1(1,2)] s1(3) nd show ?thesis by simp
    next
      case False
      then have s1: "ow_ops ?s1 = ops" "ow_owner ?s1 = Is_Joining"
        by (cases "ow_thread s"; simp add: owned_stop_def Let_def)+
      have "owned_fine fine ?s1" using fine_owned.inv_step [OF Cons.prems(1) step] .
      from join_completes [OF this s1(2), where checked = False]
      obtain s2 where "?moves\<^sup>*\<^sup>* ?s1 s2" "ow_owner s2 = Is_Ready" "ow_ops s2 = ow_ops ?s1" "\<not> ow_running s2"
        by (elim exE conjE)
      with step have "?moves\<^sup>*\<^sup>* s s2" by (meson converse_rtranclp_into_rtranclp)
      from from_next [OF this \<open>ow_ops s2 = ow_ops ?s1\<close> [unfolded s1(1)] \<open>ow_owner s2 = Is_Ready\<close>] \<open>\<not> ow_running s2\<close> nd show ?thesis by simp
    qed
  qed
qed

text \<open>A thread that does not move, blocked in a call, holds \<open>stop\<close> up.\<close>

lemma blocked_loop:
  assumes "owned_run checked entry body ms s = Some s'" "owned_inv s" "ow_thread s = Runs pc"
    and "\<And>i. Body_Step i \<notin> set ms"
  shows "\<not> owned_stopped s'"
  using assms
proof (induction ms arbitrary: s)
  case (Cons m ms)
  from Cons.prems(1) obtain s1 where s1: "owned_next checked entry body m s = Some s1"
    "owned_run checked entry body ms s1 = Some s'" by (auto simp: bind_eq_Some_conv)
  have "m = Owner_Step" using Cons.prems(4) by (cases m) auto
  then have "owned_owner checked entry s = Some s1" using s1(1) by (simp add: owned_next_def split: if_splits)
  then have "ow_thread s1 = Runs pc" using Cons.prems(3)
    by (cases rule: owned_owner_cases) (auto simp: owned_start_def owned_stop_def Let_def)
  with Cons.IH [OF s1(2) owned_inv_next [OF Cons.prems(2) s1(1)]] Cons.prems(4) show ?case by simp
qed (simp add: owned_stopped_def)

text \<open>A run while the object is being stopped.\<close>

lemma stopping_run:
  "owned_run checked entry body ms s = Some s' \<Longrightarrow> owned_stopping fine s
    \<Longrightarrow> length ms + owned_rank rank s' \<le> owned_rank rank s + length (filter (stalls idle) ms)"
proof (induction ms arbitrary: s)
  case (Cons m ms)
  from Cons.prems(1) obtain s1 where s1: "owned_next checked entry body m s = Some s1"
    "owned_run checked entry body ms s1 = Some s'" by (auto simp: bind_eq_Some_conv)
  from told_next [OF Cons.prems(2) s1(1)] Cons.IH [OF s1(2)] show ?case by auto
qed simp

lemma stop_returns_within:
  assumes "owned_fine fine s" "told_to_stop s"
    and "\<And>pc d. fine (Some pc) d \<Longrightarrow> rank pc d \<le> b"
  shows "stop_returns idle checked entry body (b + 2) s"
proof -
  have st: "owned_stopping fine s" using assms(1,2) by (simp add: owned_stopping_def told_to_stop_def)
  have "owned_rank rank s \<le> b + 2"
    using assms(1,3) by (cases "ow_thread s") (auto simp: owned_rank_def owned_fine_def intro: le_SucI)
  moreover have "length ms \<le> owned_rank rank s + length (filter (stalls idle) ms)"
    if "owned_run checked entry body ms s = Some s'" for ms s'
    using stopping_run [OF that st] by simp
  ultimately have "length ms \<le> b + 2 + length (filter (stalls idle) ms)"
    if "owned_run checked entry body ms s = Some s'" for ms s'
    using that by (meson add_le_mono1 le_trans)
  moreover have "\<exists>s'. (owned_moves checked entry body)\<^sup>*\<^sup>* s s' \<and> owned_stopped s'"
    using ends.can_finish [where checked = checked, OF st] advances_moves [of idle checked entry body s] by blast
  moreover have "owned_inv s" using assms(1) by (simp add: owned_fine_def)
  ultimately show ?thesis using blocked_loop [of checked _ s] unfolding stop_returns_def by blast
qed

text \<open>The program is ended by a second \<open>start\<close> and by nothing else.\<close>

lemma terminated_iff:
  assumes "fine None d"
  shows "(\<exists>s. (owned_moves False entry body)\<^sup>*\<^sup>* (owned_new ops d) s \<and> ow_owner s = Is_Terminated)
    \<longleftrightarrow> \<not> no_double_start False ops"
proof
  assume "\<exists>s. (owned_moves False entry body)\<^sup>*\<^sup>* (owned_new ops d) s \<and> ow_owner s = Is_Terminated"
  then obtain s where s: "(owned_moves False entry body)\<^sup>*\<^sup>* (owned_new ops d) s" "ow_owner s = Is_Terminated"
    by blast
  show "\<not> no_double_start False ops"
  proof
    assume "no_double_start False ops"
    then have "owned_safe False s" using safe_owner.reachable_inv [OF _ s(1)] by blast
    with s(2) show False by (simp add: owned_safe_def)
  qed
next
  assume "\<not> no_double_start False ops"
  moreover have "owned_fine fine (owned_new ops d)"
    using assms by (simp add: owned_fine_def owned_inv_def owned_new_def)
  ultimately show "\<exists>s. (owned_moves False entry body)\<^sup>*\<^sup>* (owned_new ops d) s \<and> ow_owner s = Is_Terminated"
    using double_start_terminates [of "owned_new ops d"] by (simp add: owned_new_def)
qed

end

end
