(* ===== verification/LoopThreads.thy ===== *)
theory LoopThreads
  imports OwnedThread MarketThreads
begin

text \<open>
  The loops of the classes that own one thread, step by step: \<open>readLoop\<close> of \<^verbatim>\<open>TcpPipeline.h\<close> and
  \<^verbatim>\<open>UdpPipeline.h\<close>, \<open>injectLoop\<close> of \<^verbatim>\<open>SyntheticDataInjector.h\<close> and the loop of \<^verbatim>\<open>TcpHeartbeat.h\<close>.
  Each is the body of an owned thread (\<open>OwnedThread\<close>) and keeps the contract \<open>looping\<close>.
\<close>

section \<open>The read loops\<close>

text \<open>\<open>R_Decode\<close> is inside \<open>decode\<close>. What \<open>recv\<close> gave is recorded.\<close>

datatype read_pc = R_Check | R_Recv | R_Decode "u8 list"

record read_state =
  rs_decoder :: stage
  rs_received :: "u8 list list"

definition take_in :: "u8 list \<Rightarrow> read_state \<Rightarrow> (read_pc option \<times> read_state) option" where
  "take_in bytes d =
     (if bytes = [] \<or> length bytes > BUFFER_SIZE then None
      else Some (Some (R_Decode bytes), d\<lparr>rs_received := rs_received d @ [bytes]\<rparr>))"

definition tcp_body :: "(recv_result, read_pc, read_state) loop_body" where
  "tcp_body r running pc d =
     (case pc of
        R_Check \<Rightarrow> Some (if running then Some R_Recv else None, d)
      | R_Recv \<Rightarrow> (case r of No_Data \<Rightarrow> Some (None, d) | Received bytes \<Rightarrow> take_in bytes d)
      | R_Decode bytes \<Rightarrow> Some (Some R_Check, d\<lparr>rs_decoder := decode bytes (rs_decoder d)\<rparr>))"

definition udp_body :: "(datagram, read_pc, read_state) loop_body" where
  "udp_body dg running pc d =
     (case pc of
        R_Check \<Rightarrow> Some (if running then Some R_Recv else None, d)
      | R_Recv \<Rightarrow> (case udp_recv BUFFER_SIZE dg of No_Data \<Rightarrow> Some (Some R_Check, d) | Received bytes \<Rightarrow> take_in bytes d)
      | R_Decode bytes \<Rightarrow> Some (Some R_Check, d\<lparr>rs_decoder := decode bytes (rs_decoder d)\<rparr>))"

definition read_new :: read_state where
  "read_new = \<lparr>rs_decoder = subscribe stage_new, rs_received = []\<rparr>"

text \<open>The decoder's callback has had all that was received but for the message in hand.\<close>

fun in_hand :: "read_pc option \<Rightarrow> u8 list list" where
  "in_hand (Some (R_Decode bytes)) = [bytes]"
| "in_hand _ = []"

definition read_fine :: "read_pc option \<Rightarrow> read_state \<Rightarrow> bool" where
  "read_fine pc d \<longleftrightarrow> st_callback (rs_decoder d) \<and> rs_received d = st_calls (rs_decoder d) @ in_hand pc
     \<and> (\<forall>bytes \<in> set (rs_received d). bytes \<noteq> [] \<and> length bytes \<le> 4096)"

fun read_rank :: "read_pc \<Rightarrow> read_state \<Rightarrow> nat" where
  "read_rank R_Check d = 0"
| "read_rank (R_Decode _) d = 1"
| "read_rank R_Recv d = 2"

lemma read_fine_new: "read_fine None read_new"
  by (simp add: read_fine_def read_new_def subscribe_def stage_new_def)

lemma take_in_fine:
  "read_fine (Some R_Recv) d \<Longrightarrow> take_in bytes d = Some (pc', d') \<Longrightarrow> read_fine pc' d'"
  by (auto simp: take_in_def read_fine_def BUFFER_SIZE_def split: if_splits)

lemma take_in_pc: "take_in bytes d = Some (pc', d') \<Longrightarrow> pc' = Some (R_Decode bytes)"
  by (simp add: take_in_def split: if_splits)

lemma decode_fine:
  "read_fine (Some (R_Decode bytes)) d \<Longrightarrow> read_fine (Some R_Check) (d\<lparr>rs_decoder := decode bytes (rs_decoder d)\<rparr>)"
  by (simp add: read_fine_def)

lemma read_fine_move: "read_fine pc d \<Longrightarrow> in_hand pc' = in_hand pc \<Longrightarrow> read_fine pc' d"
  by (simp add: read_fine_def)

interpretation tcp_loop: looping R_Check tcp_body read_fine read_rank "\<lambda>_. False"
proof unfold_locales
  show "read_fine (Some R_Check) d" if "read_fine None d" for d using that by (simp add: read_fine_def)
  show "read_fine later d'" if "read_fine (Some pc) d" "tcp_body r running pc d = Some (later, d')" for pc d r running later d'
    using that take_in_fine [of d _ later d'] decode_fine [of _ d] read_fine_move [of "Some pc" d later]
    by (cases pc) (auto simp: tcp_body_def split: recv_result.splits if_splits)
  show "read_rank pc' d' < read_rank pc d \<or> (False \<and> read_rank pc' d' \<le> read_rank pc d)" if "read_fine (Some pc) d" "tcp_body r False pc d = Some (Some pc', d')"
    for pc d r pc' d'
    using that by (cases pc) (auto simp: tcp_body_def dest!: take_in_pc split: recv_result.splits)
  show "\<exists>r res. \<not> False \<and> tcp_body r running pc d = Some res" if "read_fine (Some pc) d" for pc d running
    by (cases pc) (auto simp: tcp_body_def intro: exI [of _ No_Data])
qed

interpretation udp_loop: looping R_Check udp_body read_fine read_rank "\<lambda>_. False"
proof unfold_locales
  show "read_fine (Some R_Check) d" if "read_fine None d" for d using that by (simp add: read_fine_def)
  show "read_fine later d'" if "read_fine (Some pc) d" "udp_body r running pc d = Some (later, d')" for pc d r running later d'
    using that take_in_fine [of d _ later d'] decode_fine [of _ d] read_fine_move [of "Some pc" d later]
    by (cases pc) (auto simp: udp_body_def split: recv_result.splits if_splits)
  show "read_rank pc' d' < read_rank pc d \<or> (False \<and> read_rank pc' d' \<le> read_rank pc d)" if "read_fine (Some pc) d" "udp_body r False pc d = Some (Some pc', d')"
    for pc d r pc' d'
    using that by (cases pc) (auto simp: udp_body_def dest!: take_in_pc split: recv_result.splits)
  show "\<exists>r res. \<not> False \<and> udp_body r running pc d = Some res" if "read_fine (Some pc) d" for pc d running
    by (cases pc) (auto simp: udp_body_def udp_recv_simps intro: exI [of _ Recv_Error])
qed

section \<open>The generator\<close>

text \<open>
  Each call of \<open>upsert\<close> is a step. A step is given the number drawn for a quantity and the draw for
  the shift of the price. The thread begins with \<open>G_Init\<close>: \<open>midPrice\<close> is a local variable, so every
  \<open>start\<close> sets it to its first value again.
\<close>

datatype inject_pc = G_Init | G_Check | G_Bid nat | G_Ask nat | G_Shift | G_Sleep

record 'p inject_state =
  gs_midPrice :: 'p
  gs_feed :: "'p feed"

definition inject_body ::
  "((('p::linorder) feed_order \<Rightarrow> 'p feed_order \<Rightarrow> bool) \<Rightarrow> 'p feed_order list \<Rightarrow> 'p feed_order list)
    \<Rightarrow> ('p \<Rightarrow> nat \<Rightarrow> 'p) \<Rightarrow> ('p \<Rightarrow> nat \<Rightarrow> 'p) \<Rightarrow> ('p \<Rightarrow> 'r \<Rightarrow> 'p) \<Rightarrow> 'p \<Rightarrow> nat
    \<Rightarrow> (u32 \<times> 'r, inject_pc, 'p inject_state) loop_body" where
  "inject_body srt bidAt askAt shift mid levels drawn running pc d =
     (case pc of
        G_Init \<Rightarrow> Some (Some G_Check, d\<lparr>gs_midPrice := mid\<rparr>)
      | G_Check \<Rightarrow> Some (if running then Some (G_Bid 0) else None, d)
      | G_Bid i \<Rightarrow>
          Some (if i < levels
                then (Some (G_Bid (Suc i)),
                      d\<lparr>gs_feed := upsert srt True (make_bid bidAt (gs_midPrice d) (\<lambda>_. fst drawn) i) (gs_feed d)\<rparr>)
                else (Some (G_Ask 0), d))
      | G_Ask i \<Rightarrow>
          Some (if i < levels
                then (Some (G_Ask (Suc i)),
                      d\<lparr>gs_feed := upsert srt False (make_ask askAt levels (gs_midPrice d) (\<lambda>_. fst drawn) i) (gs_feed d)\<rparr>)
                else (Some G_Shift, d))
      | G_Shift \<Rightarrow> Some (Some G_Sleep, d\<lparr>gs_midPrice := shift (gs_midPrice d) (snd drawn)\<rparr>)
      | G_Sleep \<Rightarrow> Some (Some G_Check, d))"

definition inject_fine :: "nat \<Rightarrow> inject_pc option \<Rightarrow> ('p::linorder) inject_state \<Rightarrow> bool" where
  "inject_fine levels pc d \<longleftrightarrow> generated levels (gs_feed d)"

fun inject_rank :: "nat \<Rightarrow> inject_pc \<Rightarrow> ('p::linorder) inject_state \<Rightarrow> nat" where
  "inject_rank levels G_Check d = 0"
| "inject_rank levels G_Init d = 1"
| "inject_rank levels G_Sleep d = 1"
| "inject_rank levels G_Shift d = 2"
| "inject_rank levels (G_Ask i) d = (levels - i) + 3"
| "inject_rank levels (G_Bid i) d = (levels - i) + levels + 4"

definition inject_new :: "'p \<Rightarrow> nat \<Rightarrow> 'p inject_state" where
  "inject_new midPrice maxLevels = \<lparr>gs_midPrice = midPrice, gs_feed = feed_new maxLevels\<rparr>"

lemma inject_fine_new: "inject_fine levels None (inject_new midPrice maxLevels)"
proof -
  have "injected_ids levels (feed_new maxLevels)" by (simp add: injected_ids_def feed_new_def)
  then show ?thesis by (simp add: inject_fine_def generated_def inject_new_def feed_ok_new)
qed

lemma generated_bid:
  assumes "std_sort srt" "generated levels fd" "i < levels"
  shows "generated levels (upsert srt True (make_bid bidAt mid draw i) fd)"
proof -
  have "injects levels (Upsert True (make_bid bidAt mid draw i))"
    using assms(3) by (simp add: injects_def make_bid_def bid_ids_def ex_bool_eq)
  from generated_upsert [OF assms(1,2) this] show ?thesis by simp
qed

lemma generated_ask:
  assumes "std_sort srt" "generated levels fd" "i < levels"
  shows "generated levels (upsert srt False (make_ask askAt levels mid draw i) fd)"
proof -
  have "injects levels (Upsert False (make_ask askAt levels mid draw i))"
    using assms(3) by (simp add: injects_def make_ask_def ask_ids_def ex_bool_eq)
  from generated_upsert [OF assms(1,2) this] show ?thesis by simp
qed

text \<open>The contract needs the law of \<open>std::sort\<close>, so it is a lemma with that hypothesis.\<close>

lemma inject_looping:
  assumes "std_sort srt"
  shows "looping G_Init (inject_body srt bidAt askAt shift mid levels :: (u32 \<times> 'r, inject_pc, _) loop_body)
    (inject_fine levels) (inject_rank levels) (\<lambda>_. False)"
proof unfold_locales
  let ?body = "inject_body srt bidAt askAt shift mid levels :: (u32 \<times> 'r, inject_pc, _) loop_body"
  show "inject_fine levels (Some G_Init) d" if "inject_fine levels None d" for d
    using that by (simp add: inject_fine_def)
  show "inject_fine levels later d'" if "inject_fine levels (Some pc) d" "?body r running pc d = Some (later, d')"
    for pc d r running later d'
    using that generated_bid [OF assms] generated_ask [OF assms]
    by (cases pc) (auto simp: inject_body_def inject_fine_def split: if_splits)
  show "inject_rank levels pc' d' < inject_rank levels pc d \<or> (False \<and> inject_rank levels pc' d' \<le> inject_rank levels pc d)"
    if "inject_fine levels (Some pc) d" "?body r False pc d = Some (Some pc', d')" for pc d r pc' d'
    using that by (cases pc) (auto simp: inject_body_def split: if_splits)
  show "\<exists>r res. \<not> False \<and> ?body r running pc d = Some res" if "inject_fine levels (Some pc) d" for pc d running
    by (cases pc) (auto simp: inject_body_def)
qed

interpretation inject_loop: looping G_Init "inject_body cmp_sort bidAt askAt shift mid levels" "inject_fine levels"
  "inject_rank levels" "\<lambda>_. False" for bidAt askAt shift mid levels
  by (rule inject_looping [OF std_sort_cmp_sort])

section \<open>The heartbeat\<close>

text \<open>
  Times are nanoseconds on the clock that the thread reads; a step that reads it is given by how much
  it has advanced. \<open>H_End\<close> is the reading after the callable, \<open>H_Sleep\<close> the sleep with the reading
  after it, \<open>H_Spin\<close> one round of the spin loop. The clock never goes back, but a reading can give the
  time of the one before; such a step is idle.
\<close>

datatype heartbeat_pc = H_Check | H_Start | H_Beat nat | H_End nat | H_Sleep nat | H_Spin nat

record heartbeat_state =
  hs_now :: nat
  hs_beats :: "nat list"

definition heartbeat_body :: "nat \<Rightarrow> (nat, heartbeat_pc, heartbeat_state) loop_body" where
  "heartbeat_body interval advance running pc d =
     (let now = hs_now d + advance
      in case pc of
        H_Check \<Rightarrow> Some (if running then Some H_Start else None, d)
      | H_Start \<Rightarrow> Some (Some (H_Beat now), d\<lparr>hs_now := now\<rparr>)
      | H_Beat loopStart \<Rightarrow> Some (Some (H_End loopStart), d\<lparr>hs_beats := hs_beats d @ [loopStart]\<rparr>)
      | H_End loopStart \<Rightarrow>
          (let elapsed = now - loopStart; remaining = interval - elapsed
           in Some (Some (if elapsed < interval
                          then (if remaining < 50000 then H_Spin (now + remaining) else H_Sleep (remaining - 50000))
                          else H_Check),
                    d\<lparr>hs_now := now\<rparr>))
      | H_Sleep time \<Rightarrow> Some (Some (H_Spin (now + time + 50000)), d\<lparr>hs_now := now + time\<rparr>)
      | H_Spin target \<Rightarrow> Some (Some (if now < target then H_Spin target else H_Check), d\<lparr>hs_now := now\<rparr>))"

text \<open>The beats are at least the interval apart, and so is the next one from the last.\<close>

fun next_beat :: "nat \<Rightarrow> heartbeat_pc option \<Rightarrow> heartbeat_state \<Rightarrow> nat" where
  "next_beat interval (Some (H_Beat loopStart)) d = loopStart"
| "next_beat interval (Some (H_End loopStart)) d = loopStart + interval"
| "next_beat interval (Some (H_Sleep time)) d = hs_now d + time + 50000"
| "next_beat interval (Some (H_Spin target)) d = target"
| "next_beat interval _ d = hs_now d"

definition heartbeat_fine :: "nat \<Rightarrow> heartbeat_pc option \<Rightarrow> heartbeat_state \<Rightarrow> bool" where
  "heartbeat_fine interval pc d \<longleftrightarrow> successively (\<lambda>a b. a + interval \<le> b) (hs_beats d)
     \<and> (hs_beats d \<noteq> [] \<longrightarrow> last (hs_beats d) + interval \<le> next_beat interval pc d)
     \<and> (case pc of Some (H_Beat loopStart) \<Rightarrow> loopStart \<le> hs_now d
        | Some (H_End loopStart) \<Rightarrow> loopStart \<le> hs_now d \<and> hs_beats d \<noteq> [] \<and> last (hs_beats d) = loopStart
        | Some (H_Spin target) \<Rightarrow> target \<le> hs_now d + 50000
        | _ \<Rightarrow> True)"

fun heartbeat_rank :: "heartbeat_pc \<Rightarrow> heartbeat_state \<Rightarrow> nat" where
  "heartbeat_rank H_Check d = 0"
| "heartbeat_rank (H_Spin target) d = Suc (target - hs_now d)"
| "heartbeat_rank (H_Sleep time) d = 50002"
| "heartbeat_rank (H_End loopStart) d = 50003"
| "heartbeat_rank (H_Beat loopStart) d = 50004"
| "heartbeat_rank H_Start d = 50005"

definition heartbeat_state_new :: "nat \<Rightarrow> heartbeat_state" where
  "heartbeat_state_new now = \<lparr>hs_now = now, hs_beats = []\<rparr>"

lemma heartbeat_fine_new: "heartbeat_fine interval None (heartbeat_state_new now)"
  by (simp add: heartbeat_fine_def heartbeat_state_new_def)

lemma heartbeat_fine_body:
  assumes "heartbeat_fine interval (Some pc) d" "heartbeat_body interval advance running pc d = Some (later, d')"
  shows "heartbeat_fine interval later d'"
proof (cases pc)
  case (H_Beat loopStart)
  with assms show ?thesis
    by (auto simp: heartbeat_body_def heartbeat_fine_def Let_def successively_append_iff)
next
  case (H_End loopStart)
  with assms show ?thesis
    by (auto simp: heartbeat_body_def heartbeat_fine_def Let_def)
qed (use assms in \<open>auto simp: heartbeat_body_def heartbeat_fine_def Let_def split: if_splits\<close>)

interpretation heartbeat_thread: looping H_Check "heartbeat_body interval" "heartbeat_fine interval" heartbeat_rank
  "\<lambda>advance. advance = 0" for interval
proof unfold_locales
  show "heartbeat_fine interval (Some H_Check) d" if "heartbeat_fine interval None d" for d
    using that by (simp add: heartbeat_fine_def)
  show "heartbeat_fine interval later d'"
    if "heartbeat_fine interval (Some pc) d" "heartbeat_body interval i running pc d = Some (later, d')"
    for pc d i running later d' using heartbeat_fine_body that .
  show "heartbeat_rank pc' d' < heartbeat_rank pc d \<or> (i = 0 \<and> heartbeat_rank pc' d' \<le> heartbeat_rank pc d)"
    if "heartbeat_fine interval (Some pc) d" "heartbeat_body interval i False pc d = Some (Some pc', d')" for pc d i pc' d'
    using that(2) by (cases pc) (auto simp: heartbeat_body_def Let_def split: if_splits)
  show "\<exists>i res. \<not> i = 0 \<and> heartbeat_body interval i running pc d = Some res" if "heartbeat_fine interval (Some pc) d" for pc d running
    by (cases pc) (auto simp: heartbeat_body_def Let_def intro: exI [of _ 1])
qed

text \<open>The ranks have bounds, so \<open>stop\<close> of the four classes returns within a fixed number of steps.\<close>

lemma read_rank_bound: "read_rank pc d \<le> 2"
  by (cases pc) simp_all

lemma inject_rank_bound: "inject_rank levels pc d \<le> 2 * levels + 4"
  by (cases pc) simp_all

lemma heartbeat_rank_bound: "heartbeat_fine interval (Some pc) d \<Longrightarrow> heartbeat_rank pc d \<le> 50005"
  by (cases pc) (auto simp: heartbeat_fine_def)

section \<open>What the pipelines deliver\<close>

lemma read_fine_calls:
  assumes "read_fine pc d"
  shows "\<exists>rest. rs_received d = st_calls (rs_decoder d) @ rest \<and> length rest \<le> 1"
proof -
  have "length (in_hand pc) \<le> 1" by (cases pc rule: in_hand.cases) simp_all
  with assms show ?thesis by (auto simp: read_fine_def)
qed

text \<open>A framer behind the decoder's callback.\<close>

lemma read_fine_frames:
  assumes "read_fine pc d" "concat (rs_received d) @ more_bytes = fold (encode le) ps []"
    and "\<And>p. p \<in> set ps \<Longrightarrow> frame_fits p" "65536 + 4096 \<le> n"
  shows "\<exists>frames f. receive le (st_calls (rs_decoder d)) (framer_new n) = Inr (frames, f) \<and> (\<exists>later. ps = frames @ later)
    \<and> (more_bytes = [] \<and> in_hand pc = [] \<longrightarrow> frames = ps)"
proof -
  let ?calls = "st_calls (rs_decoder d)"
  have none: "split_frame_bytes le [] = None" by (simp add: split_frame_bytes_def nextFrame_def)
  have rec: "rs_received d = ?calls @ in_hand pc" using assms(1) by (simp add: read_fine_def)
  then have "length c \<le> 4096" if "c \<in> set ?calls" for c
    using assms(1) that by (auto simp: read_fine_def)
  then obtain frames f where r: "receive le ?calls (framer_new n) = Inr (frames, f)"
    using receive_no_overflow [of ?calls 4096 "framer_new n" le] assms(4) none by (auto simp: framer_new_def)
  have "concat ?calls @ (concat (in_hand pc) @ more_bytes) = fold (encode le) ps []" using assms(2) rec by simp
  with receive_part [OF r _ assms(3)] receive_encoded [OF r _ none assms(3)] r show ?thesis by auto
qed

end
