(* ===== verification/Layout.thy ===== *)
theory Layout
  imports Prelude
begin

text \<open>
  Where the members of a class lie: \<^verbatim>\<open>MatchResult.h\<close>, whose header asserts its size and alignment,
  \<^verbatim>\<open>Order.h\<close> and \<^verbatim>\<open>OrderBookEntry.h\<close>, whose entries are to fill a cache line, and the members
  of \<^verbatim>\<open>SpScRingBuffer.h\<close> with its \<open>alignas(64)\<close>.

  The rules are those of a standard-layout class: a member starts at the next multiple of its
  alignment, the class has the largest alignment of its members and of its own \<open>alignas\<close>, and a
  size that is a multiple of it. Sizes of the basic types are those of a 64-bit platform.
\<close>

section \<open>The rules\<close>

record field =
  fi_name :: string
  fi_size :: nat
  fi_align :: nat

definition align_up :: "nat \<Rightarrow> nat \<Rightarrow> nat" where
  "align_up n a = (n + a - 1) div a * a"

text \<open>The members with their offsets, and the first free offset after them.\<close>

fun place :: "nat \<Rightarrow> field list \<Rightarrow> (nat \<times> field) list \<times> nat" where
  "place pos [] = ([], pos)"
| "place pos (f # fs) =
     (let off = align_up pos (fi_align f); (placed, end) = place (off + fi_size f) fs
      in ((off, f) # placed, end))"

definition struct_align :: "nat \<Rightarrow> field list \<Rightarrow> nat" where
  "struct_align a fs = fold (\<lambda>f m. max (fi_align f) m) fs a"

definition struct_size :: "nat \<Rightarrow> field list \<Rightarrow> nat" where
  "struct_size a fs = align_up (snd (place 0 fs)) (struct_align a fs)"

definition offset_of :: "string \<Rightarrow> field list \<Rightarrow> nat option" where
  "offset_of name fs = map_option fst (find (\<lambda>(off, f). fi_name f = name) (fst (place 0 fs)))"

lemma align_up_props:
  assumes "0 < a"
  shows "a dvd align_up n a" "n \<le> align_up n a" "align_up n a < n + a"
proof -
  show "a dvd align_up n a" by (simp add: align_up_def)
  have "(n + a - 1) div a * a + (n + a - 1) mod a = n + a - 1" by simp
  moreover have "(n + a - 1) mod a < a" using assms by simp
  ultimately show "n \<le> align_up n a" "align_up n a < n + a" unfolding align_up_def by linarith+
qed

lemma align_up_multiple [simp]: "0 < a \<Longrightarrow> a dvd n \<Longrightarrow> align_up n a = n"
  using align_up_props [of a n] by (metis dvd_diff_nat dvd_imp_le less_diff_conv2 linorder_not_less
    add.commute le_neq_implies_less zero_less_diff)

text \<open>
  Every member is aligned, lies before the end of the class, and ends before the next one begins.
\<close>

lemma place_sound:
  assumes "\<And>f. f \<in> set fs \<Longrightarrow> 0 < fi_align f"
  shows "map snd (fst (place pos fs)) = fs \<and> pos \<le> snd (place pos fs)
    \<and> (\<forall>(off, f) \<in> set (fst (place pos fs)). fi_align f dvd off \<and> pos \<le> off \<and> off + fi_size f \<le> snd (place pos fs))
    \<and> sorted_wrt (\<lambda>(off, f) (off', f'). off + fi_size f \<le> off') (fst (place pos fs))"
  using assms
proof (induction fs arbitrary: pos)
  case (Cons f fs)
  let ?off = "align_up pos (fi_align f)"
  have a: "fi_align f dvd ?off" "pos \<le> ?off" using align_up_props [of "fi_align f" pos] Cons.prems by simp_all
  obtain placed e where p: "place (?off + fi_size f) fs = (placed, e)" by fastforce
  from Cons.IH [of "?off + fi_size f"] Cons.prems p a show ?case
    by (fastforce simp: Let_def)
qed simp

section \<open>The classes\<close>

record match_result =
  mr_orderId :: u64
  mr_restingOrderId :: u64
  mr_fillPrice :: u32
  mr_fillQty :: u32
  mr_restingProtocol :: u8
  mr_aggressorProtocol :: u8
  mr_aggressorSide :: char
  mr_pad :: char

datatype add_result = ADDED | FILLED | PARTIAL | REJECTED | CANCELLED

definition match_result_fields :: "field list" where
  "match_result_fields =
    [\<lparr>fi_name = ''_orderId'', fi_size = 8, fi_align = 8\<rparr>,
     \<lparr>fi_name = ''_restingOrderId'', fi_size = 8, fi_align = 8\<rparr>,
     \<lparr>fi_name = ''_fillPrice'', fi_size = 4, fi_align = 4\<rparr>,
     \<lparr>fi_name = ''_fillQty'', fi_size = 4, fi_align = 4\<rparr>,
     \<lparr>fi_name = ''_restingProtocol'', fi_size = 1, fi_align = 1\<rparr>,
     \<lparr>fi_name = ''_aggressorProtocol'', fi_size = 1, fi_align = 1\<rparr>,
     \<lparr>fi_name = ''_aggressorSide'', fi_size = 1, fi_align = 1\<rparr>,
     \<lparr>fi_name = ''_pad'', fi_size = 1, fi_align = 1\<rparr>]"

definition order_fields :: "field list" where
  "order_fields =
    [\<lparr>fi_name = ''symbol'', fi_size = 16, fi_align = 1\<rparr>,
     \<lparr>fi_name = ''orderId'', fi_size = 8, fi_align = 8\<rparr>,
     \<lparr>fi_name = ''price'', fi_size = 8, fi_align = 8\<rparr>,
     \<lparr>fi_name = ''quantity'', fi_size = 8, fi_align = 8\<rparr>,
     \<lparr>fi_name = ''isBuy'', fi_size = 1, fi_align = 1\<rparr>]"

definition entry_fields :: "field list" where
  "entry_fields =
    [\<lparr>fi_name = ''order'', fi_size = struct_size 1 order_fields, fi_align = struct_align 1 order_fields\<rparr>,
     \<lparr>fi_name = ''nextFreeIndex'', fi_size = 8, fi_align = 8\<rparr>]"

text \<open>The buffer is an array of \<open>cap\<close> elements of size \<open>sz\<close> and alignment \<open>al\<close>.\<close>

definition ring_fields :: "nat \<Rightarrow> nat \<Rightarrow> nat \<Rightarrow> field list" where
  "ring_fields cap sz al =
    [\<lparr>fi_name = ''_buffer'', fi_size = cap * sz, fi_align = al\<rparr>,
     \<lparr>fi_name = ''_head'', fi_size = 8, fi_align = 64\<rparr>,
     \<lparr>fi_name = ''_tail'', fi_size = 8, fi_align = 64\<rparr>,
     \<lparr>fi_name = ''_dropped'', fi_size = 8, fi_align = 8\<rparr>,
     \<lparr>fi_name = ''_highWaterMark'', fi_size = 8, fi_align = 8\<rparr>]"

section \<open>Cache lines\<close>

text \<open>The lines of 64 bytes that hold \<open>n\<close> bytes from an address on.\<close>

definition lines_at :: "nat \<Rightarrow> nat \<Rightarrow> nat set" where
  "lines_at addr n = {addr div 64 .. (addr + n - 1) div 64}"

definition field_lines :: "nat \<Rightarrow> string \<Rightarrow> field list \<Rightarrow> nat set" where
  "field_lines base name fs =
     (case find (\<lambda>(off, f). fi_name f = name) (fst (place 0 fs)) of
        None \<Rightarrow> {}
      | Some (off, f) \<Rightarrow> lines_at (base + off) (fi_size f))"

lemma struct_sizes:
  "struct_size 32 match_result_fields = 32" "struct_align 32 match_result_fields = 32"
  "struct_size 1 order_fields = 48" "struct_align 1 order_fields = 8"
  "struct_size 64 entry_fields = 64" "struct_align 64 entry_fields = 64"
  by (simp_all add: struct_size_def struct_align_def match_result_fields_def order_fields_def
      entry_fields_def align_up_def Let_def)

text \<open>An entry of an array that starts on a line has a line of its own.\<close>

lemma entry_line:
  assumes "64 dvd base"
  shows "lines_at (base + i * struct_size 64 entry_fields) (struct_size 64 entry_fields) = {base div 64 + i}"
proof -
  obtain k where "base = 64 * k" using assms by blast
  then show ?thesis by (auto simp: lines_at_def struct_sizes)
qed

lemma place_ring:
  assumes "0 < al"
  shows "fst (place 0 (ring_fields cap sz al)) =
    zip [0, align_up (cap * sz) 64, align_up (cap * sz) 64 + 64, align_up (cap * sz) 64 + 72,
      align_up (cap * sz) 64 + 80] (ring_fields cap sz al)"
proof -
  obtain h where h: "align_up (cap * sz) 64 = 64 * h"
    using align_up_props(1) [of 64 "cap * sz"] by auto
  have "align_up (64 * h + 8) 64 = 64 * h + 64" by (simp add: align_up_def)
  moreover have "align_up (64 * h + 72) 8 = 64 * h + 72" "align_up (64 * h + 80) 8 = 64 * h + 80"
    by (rule align_up_multiple; presburger)+
  moreover have "align_up 0 al = 0" using assms by simp
  ultimately show ?thesis by (simp add: ring_fields_def Let_def h add.commute)
qed

lemma ring_lines:
  assumes "0 < al" "0 < cap" "0 < sz" "64 dvd base"
  defines "l \<equiv> \<lambda>name. field_lines base name (ring_fields cap sz al)"
  shows "l ''_buffer'' \<inter> l ''_head'' = {}" "l ''_buffer'' \<inter> l ''_tail'' = {}" "l ''_head'' \<inter> l ''_tail'' = {}"
    "l ''_dropped'' = l ''_tail''" "l ''_highWaterMark'' = l ''_tail''"
proof -
  obtain h where h: "align_up (cap * sz) 64 = 64 * h" and le: "cap * sz \<le> 64 * h"
    using align_up_props(1,2) [of 64 "cap * sz"] by auto
  obtain k where k: "base = 64 * k" using assms(4) by blast
  have pos: "0 < cap * sz" using assms(2,3) by simp
  have "l ''_buffer'' = lines_at base (cap * sz)" "l ''_head'' = {k + h}" "l ''_tail'' = {k + h + 1}"
    "l ''_dropped'' = {k + h + 1}" "l ''_highWaterMark'' = {k + h + 1}"
    unfolding l_def field_lines_def place_ring [OF assms(1)] h
    by (auto simp: ring_fields_def lines_at_def k)
  moreover have "(64 * k + cap * sz - 1) div 64 < k + h" 
  proof -
    have "64 * k + cap * sz - 1 < (k + h) * 64"
    proof -
      obtain n where n: "cap * sz = Suc n" using pos gr0_implies_Suc by blast
      show ?thesis using le unfolding n by simp
    qed
    then show ?thesis by (simp add: div_less_iff_less_mult del: One_nat_def)
  qed
  ultimately show "l ''_buffer'' \<inter> l ''_head'' = {}" "l ''_buffer'' \<inter> l ''_tail'' = {}"
    "l ''_head'' \<inter> l ''_tail'' = {}" "l ''_dropped'' = l ''_tail''" "l ''_highWaterMark'' = l ''_tail''"
    by (auto simp: lines_at_def k)
qed

end
