(* ===== verification/MatchingEngine.thy ===== *)
theory MatchingEngine
  imports Prelude
begin

unbundle bit_operations_syntax

text \<open>
  The matching engine of \<^verbatim>\<open>libs/match/MatchingEngine.h\<close>, with its pointers. An order lives in a
  cell of the order pool; the books hold the addresses of the resting orders, in the order of
  arrival, and the matching loop updates quantities through the addresses.

  The pool class behind \<open>_pool\<close> (\<^verbatim>\<open>order_pool.h\<close>: \<open>acquire\<close> and \<open>release\<close>) is not part of the
  repository. It is a parameter: \<open>acquire\<close> maps a pool state to an address, or none when the pool
  is exhausted, and a new state; \<open>release\<close> gives an address back. The callbacks are the
  user's; a call is recorded in \<open>en_log\<close> with its arguments, in the order of the calls.
  \<open>OrderBookEntry\<close> is the record \<open>book\<close>. The array \<open>_books\<close> is a function of the index, which
  \<open>hashSymbol\<close> keeps below 1024.
\<close>

section \<open>State\<close>

record eng_order =
  eo_orderId :: u64
  eo_price :: i64
  eo_quantity :: u64
  eo_isBuy :: bool
  eo_symbol :: "u8 list"

datatype event =
  ExecReport eng_order u64
| MatchReport eng_order eng_order u64

record 'ptr book =
  buyOrders :: "'ptr list"
  sellOrders :: "'ptr list"

record ('ptr, 'pool) engine =
  en_books :: "nat \<Rightarrow> 'ptr book"
  en_pool :: 'pool
  en_mem :: "'ptr \<Rightarrow> eng_order"
  en_log :: "event list"

definition engine_new :: "'pool \<Rightarrow> ('ptr \<Rightarrow> eng_order) \<Rightarrow> ('ptr, 'pool) engine" where
  "engine_new pool mem = \<lparr>en_books = (\<lambda>_. \<lparr>buyOrders = [], sellOrders = []\<rparr>), en_pool = pool,
     en_mem = mem, en_log = []\<rparr>"

section \<open>The symbol hash\<close>

text \<open>
  The FNV-1a loop. It reads \<open>symbol[i]\<close> before it compares \<open>i\<close> with 16, and a read outside the
  array is undefined. \<open>char\<close> is signed, so a byte is sign-extended to \<open>size_t\<close>.
\<close>

function fnv1a :: "u8 list \<Rightarrow> nat \<Rightarrow> u64 \<Rightarrow> u64 option" where
  "fnv1a symbol i hash =
     (case array_get symbol i of
        None \<Rightarrow> None
      | Some c \<Rightarrow> if c \<noteq> 0 \<and> i < 16
                  then fnv1a symbol (Suc i) ((hash XOR scast c) * 1099511628211)
                  else Some hash)"
  by pat_completeness auto
termination
  by (relation "measure (\<lambda>(symbol, i, hash). length symbol - i)")
    (auto simp: array_get_Some_iff)

declare fnv1a.simps [simp del]

definition hashSymbol :: "u8 list \<Rightarrow> nat option" where
  "hashSymbol symbol =
     map_option (\<lambda>hash. unat (hash mod 1024)) (fnv1a symbol 0 14695981039346656037)"

section \<open>Matching\<close>

definition crosses :: "eng_order \<Rightarrow> eng_order \<Rightarrow> bool" where
  "crosses incoming resting \<longleftrightarrow>
     (eo_isBuy incoming \<and> sint (eo_price incoming) \<ge> sint (eo_price resting))
     \<or> (\<not> eo_isBuy incoming \<and> sint (eo_price incoming) \<le> sint (eo_price resting))"

definition reduce_by :: "u64 \<Rightarrow> eng_order \<Rightarrow> eng_order" where
  "reduce_by fillQty ord = ord\<lparr>eo_quantity := eo_quantity ord - fillQty\<rparr>"

text \<open>
  The loop of \<open>matchOrder\<close> over the opposite side, from index \<open>i\<close>. The last component of the
  result says whether the loop returned from \<open>matchOrder\<close> (the incoming order was used up and
  released).
\<close>

function matchLoop ::
  "('ptr \<Rightarrow> 'pool \<Rightarrow> 'pool) \<Rightarrow> 'ptr \<Rightarrow> nat \<Rightarrow> 'ptr list \<Rightarrow> ('ptr \<Rightarrow> eng_order) \<Rightarrow> 'pool \<Rightarrow> event list
    \<Rightarrow> 'ptr list \<times> ('ptr \<Rightarrow> eng_order) \<times> 'pool \<times> event list \<times> bool" where
  "matchLoop release incoming i oppositeSide mem pool log =
     (if i < length oppositeSide then
        let resting = oppositeSide ! i in
        if crosses (mem incoming) (mem resting) then
          let fillQty = min (eo_quantity (mem incoming)) (eo_quantity (mem resting));
              mem1 = mem(incoming := reduce_by fillQty (mem incoming));
              mem2 = mem1(resting := reduce_by fillQty (mem1 resting));
              log2 = log @ [ExecReport (mem2 incoming) fillQty, ExecReport (mem2 resting) fillQty,
                            MatchReport (mem2 incoming) (mem2 resting) fillQty];
              used = (eo_quantity (mem2 resting) = 0);
              pool2 = (if used then release resting pool else pool);
              opposite2 = (if used then take i oppositeSide @ drop (Suc i) oppositeSide
                           else oppositeSide);
              i2 = (if used then i else Suc i)
          in if eo_quantity (mem2 incoming) = 0
             then (opposite2, mem2, release incoming pool2, log2, True)
             else matchLoop release incoming i2 opposite2 mem2 pool2 log2
        else (oppositeSide, mem, pool, log, False)
      else (oppositeSide, mem, pool, log, False))"
  by pat_completeness auto
termination
  by (relation "measure (\<lambda>(release, incoming, i, oppositeSide, mem, pool, log). length oppositeSide - i)")
    auto

declare matchLoop.simps [simp del]

definition matchOrder ::
  "('ptr \<Rightarrow> 'pool \<Rightarrow> 'pool) \<Rightarrow> nat \<Rightarrow> 'ptr \<Rightarrow> ('ptr, 'pool) engine \<Rightarrow> ('ptr, 'pool) engine" where
  "matchOrder release k incoming e =
     (let book = en_books e k;
          isBuy = eo_isBuy (en_mem e incoming);
          oppositeSide = (if isBuy then sellOrders book else buyOrders book);
          (opposite2, mem2, pool2, log2, returned) =
            matchLoop release incoming 0 oppositeSide (en_mem e) (en_pool e) (en_log e);
          book2 = (if isBuy then book\<lparr>sellOrders := opposite2\<rparr> else book\<lparr>buyOrders := opposite2\<rparr>);
          book3 = (if \<not> returned \<and> eo_quantity (mem2 incoming) > 0
                   then (if eo_isBuy (mem2 incoming)
                         then book2\<lparr>buyOrders := buyOrders book2 @ [incoming]\<rparr>
                         else book2\<lparr>sellOrders := sellOrders book2 @ [incoming]\<rparr>)
                   else book2)
      in e\<lparr>en_books := (en_books e)(k := book3), en_mem := mem2, en_pool := pool2, en_log := log2\<rparr>)"

text \<open>An order is dropped when the pool is exhausted, otherwise copied, hashed and matched.\<close>

definition submitOrder ::
  "('pool \<Rightarrow> 'ptr option \<times> 'pool) \<Rightarrow> ('ptr \<Rightarrow> 'pool \<Rightarrow> 'pool) \<Rightarrow> eng_order
    \<Rightarrow> ('ptr, 'pool) engine \<Rightarrow> ('ptr, 'pool) engine option" where
  "submitOrder acquire release ord e =
     (case acquire (en_pool e) of
        (None, pool1) \<Rightarrow> Some (e\<lparr>en_pool := pool1\<rparr>)
      | (Some newOrder, pool1) \<Rightarrow>
          (let e1 = e\<lparr>en_pool := pool1, en_mem := (en_mem e)(newOrder := ord)\<rparr>
           in case hashSymbol (eo_symbol ord) of
                None \<Rightarrow> None
              | Some k \<Rightarrow> Some (matchOrder release k newOrder e1)))"

fun submit_all ::
  "('pool \<Rightarrow> 'ptr option \<times> 'pool) \<Rightarrow> ('ptr \<Rightarrow> 'pool \<Rightarrow> 'pool) \<Rightarrow> eng_order list
    \<Rightarrow> ('ptr, 'pool) engine \<Rightarrow> ('ptr, 'pool) engine option" where
  "submit_all acquire release [] e = Some e"
| "submit_all acquire release (ord # ords) e =
     (case submitOrder acquire release ord e of
        None \<Rightarrow> None
      | Some e' \<Rightarrow> submit_all acquire release ords e')"

section \<open>The hash\<close>

lemma fnv1a_defined:
  assumes "length s = 16" "i \<le> 16"
  shows "fnv1a s i h \<noteq> None \<longleftrightarrow> 0 \<in> set (drop i s)"
  using assms
proof (induction s i h rule: fnv1a.induct)
  case (1 s i h)
  show ?case
  proof (cases "i < 16")
    case False
    with "1.prems" show ?thesis by (simp add: fnv1a.simps array_get_def)
  next
    case True
    then have d: "drop i s = s ! i # drop (Suc i) s"
      using "1.prems" by (simp add: Cons_nth_drop_Suc)
    show ?thesis
    proof (cases "s ! i = 0")
      case True
      then show ?thesis using d \<open>i < 16\<close> "1.prems" by (simp add: fnv1a.simps array_get_def)
    next
      case False
      with "1.IH" [of "s ! i"] "1.prems" True d show ?thesis
        by (subst fnv1a.simps) (simp add: array_get_def)
    qed
  qed
qed

lemma hashSymbol_defined: "length s = 16 \<Longrightarrow> hashSymbol s \<noteq> None \<longleftrightarrow> 0 \<in> set s"
  using fnv1a_defined [of s 0 14695981039346656037] by (simp add: hashSymbol_def)

lemma hashSymbol_less: "hashSymbol s = Some k \<Longrightarrow> k < 1024"
proof -
  have "unat (h mod 1024) < 1024" for h :: u64
    by (simp add: unat_mod)
  then show "hashSymbol s = Some k \<Longrightarrow> k < 1024"
    by (auto simp: hashSymbol_def)
qed

text \<open>The bytes after the terminator do not matter.\<close>

lemma fnv1a_terminated:
  "length s = 16 \<Longrightarrow> length t = 16 \<Longrightarrow> 0 \<in> set (drop i s)
    \<Longrightarrow> takeWhile (\<lambda>c. c \<noteq> 0) (drop i s) = takeWhile (\<lambda>c. c \<noteq> 0) (drop i t)
    \<Longrightarrow> 0 \<in> set (drop i t) \<Longrightarrow> fnv1a s i h = fnv1a t i h"
proof (induction s i h rule: fnv1a.induct)
  case (1 s i h)
  then have i: "i < 16" by (cases "i < 16") auto
  have ds: "drop i s = s ! i # drop (Suc i) s" and dt: "drop i t = t ! i # drop (Suc i) t"
    using "1.prems" i by (auto simp: Cons_nth_drop_Suc)
  show ?case
  proof (cases "s ! i = 0")
    case True
    then have "t ! i = 0" using "1.prems"(4) ds dt by (cases "t ! i = 0") auto
    with True i "1.prems" show ?thesis by (simp add: fnv1a.simps [of _ i] array_get_def)
  next
    case False
    then have ti: "t ! i = s ! i" using "1.prems"(4) ds dt by (cases "t ! i = 0") auto
    have "fnv1a s (Suc i) ((h XOR scast (s ! i)) * 1099511628211)
        = fnv1a t (Suc i) ((h XOR scast (s ! i)) * 1099511628211)"
      using "1.IH" [of "s ! i"] "1.prems" False i ds dt ti by (simp add: array_get_def)
    with False i "1.prems" ti show ?thesis by (simp add: fnv1a.simps [of _ i] array_get_def)
  qed
qed

end
