(* ===== verification/MatchSpec.thy ===== *)
theory MatchSpec
  imports MatchingEngine
begin

text \<open>
  What matching computes, without pointers: \<open>fill\<close> runs an incoming order against a list of
  resting orders and gives the reports, what is left of the incoming order and the resting
  orders afterwards. \<open>matchLoop\<close> of \<^verbatim>\<open>MatchingEngine.h\<close> implements it on every set of distinct
  addresses, and the lemmas here say what \<open>fill\<close> does to quantities, prices and order.
\<close>

section \<open>The specification\<close>

definition fill_events :: "eng_order \<Rightarrow> eng_order \<Rightarrow> u64 \<Rightarrow> event list" where
  "fill_events inc r f = [ExecReport (reduce_by f inc) f, ExecReport (reduce_by f r) f,
     MatchReport (reduce_by f inc) (reduce_by f r) f]"

fun fill :: "eng_order \<Rightarrow> eng_order list \<Rightarrow> event list \<times> eng_order \<times> eng_order list" where
  "fill inc [] = ([], inc, [])"
| "fill inc (r # rs) =
     (if crosses inc r then
        let f = min (eo_quantity inc) (eo_quantity r);
            inc' = reduce_by f inc; r' = reduce_by f r; ev = fill_events inc r f
        in if eo_quantity r' = 0 then
             (if eo_quantity inc' = 0 then (ev, inc', rs)
              else let (ev', inc2, rs') = fill inc' rs in (ev @ ev', inc2, rs'))
           else (ev, inc', r' # rs)
      else ([], inc, r # rs))"

lemma reduce_by_fields [simp]:
  "eo_price (reduce_by f ord) = eo_price ord"
  "eo_isBuy (reduce_by f ord) = eo_isBuy ord"
  "eo_orderId (reduce_by f ord) = eo_orderId ord"
  "eo_symbol (reduce_by f ord) = eo_symbol ord"
  "eo_quantity (reduce_by f ord) = eo_quantity ord - f"
  by (simp_all add: reduce_by_def)

lemma crosses_reduce_by [simp]:
  "crosses (reduce_by f inc) r = crosses inc r" "crosses inc (reduce_by f r) = crosses inc r"
  by (simp_all add: crosses_def)

text \<open>A fill takes the smaller quantity, so at least one of the two orders is used up.\<close>

lemma fill_uses_one:
  fixes a b :: u64
  shows "b - min a b \<noteq> 0 \<Longrightarrow> a - min a b = 0"
  by (simp add: min_def split: if_splits)

section \<open>The loop implements it\<close>

lemma fill_no_events: "fill inc rs = ([], inc', rs') \<Longrightarrow> inc' = inc \<and> rs' = rs"
  by (cases rs) (auto simp: Let_def fill_events_def split: if_splits prod.splits)

lemma matchLoop_fill:
  assumes "incoming \<notin> set opp" "distinct opp"
    and "fill (mem incoming) (map mem opp) = (ev, inc', rs')"
  shows "\<exists>gone opp' mem' returned.
      matchLoop release incoming 0 opp mem pool log
        = (opp', mem', (if returned then release incoming (fold release gone pool)
                        else fold release gone pool), log @ ev, returned)
    \<and> opp = gone @ opp' \<and> map mem' opp' = rs' \<and> mem' incoming = inc'
    \<and> (\<forall>p. p \<noteq> incoming \<longrightarrow> p \<notin> set opp \<longrightarrow> mem' p = mem p)
    \<and> (returned \<longrightarrow> eo_quantity inc' = 0) \<and> (returned \<longleftrightarrow> eo_quantity inc' = 0 \<and> ev \<noteq> [])"
  using assms
proof (induction opp arbitrary: mem pool log ev inc' rs')
  case Nil
  then show ?case by (auto simp: matchLoop.simps)
next
  case (Cons r rs)
  let ?f = "min (eo_quantity (mem incoming)) (eo_quantity (mem r))"
  let ?mem = "mem(incoming := reduce_by ?f (mem incoming), r := reduce_by ?f (mem r))"
  have ne: "incoming \<noteq> r" "incoming \<notin> set rs" "r \<notin> set rs" "distinct rs" using Cons.prems by auto
  have other: "map ?mem rs = map mem rs" using ne by auto
  show ?case
  proof (cases "crosses (mem incoming) (mem r)")
    case False
    with Cons.prems show ?thesis by (auto simp: matchLoop.simps)
  next
    case cr: True
    show ?thesis
    proof (cases "eo_quantity (mem incoming) - ?f = 0")
      case True
      with cr Cons.prems ne other show ?thesis
        by (subst matchLoop.simps)
          (cases "eo_quantity (mem r) - ?f = 0"; auto simp: Let_def fill_events_def fun_upd_def)
    next
      case False
      then have r0: "eo_quantity (mem r) - ?f = 0" using fill_uses_one by blast
      obtain ev2 inc2 rs2 where rec: "fill (?mem incoming) (map ?mem rs) = (ev2, inc2, rs2)"
        by (metis prod_cases3)
      have res: "ev = fill_events (mem incoming) (mem r) ?f @ ev2" "inc' = inc2" "rs' = rs2"
        using Cons.prems(3) cr False r0 rec ne other by (auto simp: Let_def)
      obtain gone opp' mem' returned where ih:
        "matchLoop release incoming 0 rs ?mem (release r pool)
            (log @ fill_events (mem incoming) (mem r) ?f)
          = (opp', mem', (if returned then release incoming (fold release gone (release r pool))
                else fold release gone (release r pool)),
             (log @ fill_events (mem incoming) (mem r) ?f) @ ev2, returned)"
        "rs = gone @ opp'" "map mem' opp' = rs2" "mem' incoming = inc2"
        "\<forall>p. p \<noteq> incoming \<longrightarrow> p \<notin> set rs \<longrightarrow> mem' p = ?mem p"
        "returned \<longleftrightarrow> eo_quantity inc2 = 0 \<and> ev2 \<noteq> []"
        using Cons.IH [OF ne(2,4) rec] by blast
      have "ev2 = [] \<Longrightarrow> inc2 = ?mem incoming"
        using fill_no_events [of "?mem incoming" "map ?mem rs"] rec by simp
      then have ret: "returned \<longleftrightarrow> eo_quantity inc2 = 0" using ih(6) False ne by auto
      have step: "matchLoop release incoming 0 (r # rs) mem pool log
          = matchLoop release incoming 0 rs ?mem (release r pool)
              (log @ fill_events (mem incoming) (mem r) ?f)"
        using cr False r0 ne by (subst matchLoop.simps) (simp add: Let_def fill_events_def)
      have "matchLoop release incoming 0 (r # rs) mem pool log
          = (opp', mem', (if returned then release incoming (fold release (r # gone) pool)
                          else fold release (r # gone) pool), log @ ev, returned)"
        unfolding step ih(1) res(1) by simp
      moreover have "\<forall>p. p \<noteq> incoming \<longrightarrow> p \<notin> set (r # rs) \<longrightarrow> mem' p = mem p"
        using ih(5) by simp
      moreover have "ev \<noteq> []" by (simp add: res(1) fill_events_def)
      ultimately show ?thesis
        using ih(2,3,4) ret res(2,3)
        by (intro exI [of _ "r # gone"] exI [of _ opp'] exI [of _ mem'] exI [of _ returned]) simp
    qed
  qed
qed


section \<open>Properties of the specification\<close>

text \<open>
  The four things that can happen at the first resting order, and the induction over a whole
  run that they give.
\<close>

lemma fill_cases:
  assumes "fill inc (r # rs) = (ev, inc', rs')"
  obtains (stop) "\<not> crosses inc r" "ev = []" "inc' = inc" "rs' = r # rs"
  | (partial) "crosses inc r" "eo_quantity inc < eo_quantity r"
      "ev = fill_events inc r (eo_quantity inc)" "inc' = reduce_by (eo_quantity inc) inc"
      "rs' = reduce_by (eo_quantity inc) r # rs"
  | (both) "crosses inc r" "eo_quantity inc = eo_quantity r"
      "ev = fill_events inc r (eo_quantity inc)" "inc' = reduce_by (eo_quantity inc) inc" "rs' = rs"
  | (more) ev2 where "crosses inc r" "eo_quantity r < eo_quantity inc"
      "fill (reduce_by (eo_quantity r) inc) rs = (ev2, inc', rs')"
      "ev = fill_events inc r (eo_quantity r) @ ev2"
proof (cases "crosses inc r")
  case False
  with assms show ?thesis by (intro that(1)) simp_all
next
  case True
  consider "eo_quantity inc < eo_quantity r" | "eo_quantity inc = eo_quantity r"
    | "eo_quantity r < eo_quantity inc" by (rule linorder_cases)
  then show ?thesis
  proof cases
    case 1
    then have "min (eo_quantity inc) (eo_quantity r) = eo_quantity inc" by simp
    moreover have "eo_quantity r \<noteq> eo_quantity inc" using 1 by auto
    ultimately show ?thesis using 1 True assms by (intro that(2)) (auto simp: Let_def)
  next
    case 2
    with True assms show ?thesis by (intro that(3)) (auto simp: Let_def)
  next
    case 3
    then have m: "min (eo_quantity inc) (eo_quantity r) = eo_quantity r" by simp
    obtain ev2 inc2 rs2 where rec: "fill (reduce_by (eo_quantity r) inc) rs = (ev2, inc2, rs2)"
      by (metis prod_cases3)
    have "ev = fill_events inc r (eo_quantity r) @ ev2" "inc' = inc2" "rs' = rs2"
      using assms True m rec less_imp_neq [OF 3] by (auto simp: Let_def)
    with 3 True rec show ?thesis by (intro that(4)) simp_all
  qed
qed

lemma fill_induct [consumes 1, case_names empty stop partial both more]:
  assumes "fill inc rs = (ev, inc', rs')"
    and "\<And>inc. P inc [] [] inc []"
    and "\<And>inc r rs. \<not> crosses inc r \<Longrightarrow> P inc (r # rs) [] inc (r # rs)"
    and "\<And>inc r rs. crosses inc r \<Longrightarrow> eo_quantity inc < eo_quantity r \<Longrightarrow>
      P inc (r # rs) (fill_events inc r (eo_quantity inc)) (reduce_by (eo_quantity inc) inc)
        (reduce_by (eo_quantity inc) r # rs)"
    and "\<And>inc r rs. crosses inc r \<Longrightarrow> eo_quantity inc = eo_quantity r \<Longrightarrow>
      P inc (r # rs) (fill_events inc r (eo_quantity inc)) (reduce_by (eo_quantity inc) inc) rs"
    and "\<And>inc r rs ev2 inc' rs'. crosses inc r \<Longrightarrow> eo_quantity r < eo_quantity inc \<Longrightarrow>
      P (reduce_by (eo_quantity r) inc) rs ev2 inc' rs' \<Longrightarrow>
      P inc (r # rs) (fill_events inc r (eo_quantity r) @ ev2) inc' rs'"
  shows "P inc rs ev inc' rs'"
  using assms(1)
proof (induction rs arbitrary: inc ev)
  case Nil
  then show ?case using assms(2) by simp
next
  case (Cons r rs)
  from Cons.prems show ?case
    by (cases rule: fill_cases) (use Cons.IH assms(3-6) in auto)
qed

lemma fill_incoming:
  "fill inc rs = (ev, inc', rs')
    \<Longrightarrow> eo_isBuy inc' = eo_isBuy inc \<and> eo_price inc' = eo_price inc \<and> eo_symbol inc' = eo_symbol inc
      \<and> eo_orderId inc' = eo_orderId inc"
  by (induction rule: fill_induct) simp_all

text \<open>The quantity that changed hands, and the quantity resting in a list of orders.\<close>

fun executed :: "event list \<Rightarrow> nat" where
  "executed [] = 0"
| "executed (MatchReport a r f # evs) = unat f + executed evs"
| "executed (ExecReport ord f # evs) = executed evs"

definition resting_qty :: "eng_order list \<Rightarrow> nat" where
  "resting_qty rs = sum_list (map (\<lambda>r. unat (eo_quantity r)) rs)"

lemma executed_append [simp]: "executed (xs @ ys) = executed xs + executed ys"
  by (induction xs rule: executed.induct) auto

lemma executed_fill_events [simp]: "executed (fill_events inc r f) = unat f"
  by (simp add: fill_events_def)

lemma resting_qty_simps [simp]:
  "resting_qty [] = 0" "resting_qty (r # rs) = unat (eo_quantity r) + resting_qty rs"
  "resting_qty (xs @ ys) = resting_qty xs + resting_qty ys"
  by (simp_all add: resting_qty_def)

lemma fill_conserves:
  "fill inc rs = (ev, inc', rs')
    \<Longrightarrow> unat (eo_quantity inc) = unat (eo_quantity inc') + executed ev
      \<and> resting_qty rs = resting_qty rs' + executed ev"
  by (induction rule: fill_induct) (auto simp: unat_minus_lt word_less_nat_alt)

text \<open>Every trade is at a price both sides accept, and trades something.\<close>

lemma match_in_fill_events:
  "MatchReport a r f \<in> set (fill_events inc r0 g) \<longleftrightarrow> a = reduce_by g inc \<and> r = reduce_by g r0 \<and> f = g"
  by (auto simp: fill_events_def)

lemma fill_trades:
  "fill inc rs = (ev, inc', rs') \<Longrightarrow> MatchReport a r f \<in> set ev
    \<Longrightarrow> crosses a r \<and> eo_isBuy a = eo_isBuy inc \<and> eo_price a = eo_price inc
      \<and> (\<exists>r0 \<in> set rs. eo_price r = eo_price r0 \<and> eo_orderId r = eo_orderId r0 \<and> eo_symbol r = eo_symbol r0)"
  by (induction rule: fill_induct) (auto simp: match_in_fill_events)

lemma fill_trades_positive:
  "fill inc rs = (ev, inc', rs') \<Longrightarrow> MatchReport a r f \<in> set ev
    \<Longrightarrow> 0 < eo_quantity inc \<Longrightarrow> (\<And>x. x \<in> set rs \<Longrightarrow> 0 < eo_quantity x) \<Longrightarrow> 0 < f"
  by (induction rule: fill_induct)
    (auto simp: match_in_fill_events word_diff_pos)

text \<open>Matching stops only when the order is used up or the first resting order does not cross.\<close>

lemma fill_stops:
  "fill inc rs = (ev, inc', rs')
    \<Longrightarrow> eo_quantity inc' = 0 \<or> rs' = [] \<or> \<not> crosses inc' (hd rs')"
  by (induction rule: fill_induct) auto

text \<open>
  Time priority: resting orders are used from the front. Those in front of the first one left
  are used up, and only that one can have a smaller quantity than before.
\<close>

lemma fill_front:
  "fill inc rs = (ev, inc', rs')
    \<Longrightarrow> \<exists>gone rest. rs = gone @ rest
      \<and> (rs' = rest \<or> (\<exists>r rs2 f. rest = r # rs2 \<and> rs' = reduce_by f r # rs2 \<and> f < eo_quantity r
            \<and> eo_quantity inc' = 0))
      \<and> resting_qty gone \<le> executed ev"
proof (induction rule: fill_induct)
  case (empty inc)
  then show ?case by simp
next
  case (stop inc r rs)
  then show ?case by (intro exI [of _ "[]"] exI [of _ "r # rs"]) simp
next
  case (partial inc r rs)
  then show ?case by (intro exI [of _ "[]"] exI [of _ "r # rs"]) auto
next
  case (both inc r rs)
  then show ?case by (intro exI [of _ "[r]"] exI [of _ rs]) simp
next
  case (more inc r rs ev2 inc' rs')
  then obtain gone rest where "rs = gone @ rest" "resting_qty gone \<le> executed ev2"
    "rs' = rest \<or> (\<exists>r rs2 f. rest = r # rs2 \<and> rs' = reduce_by f r # rs2 \<and> f < eo_quantity r
       \<and> eo_quantity inc' = 0)" by blast
  then show ?case by (intro exI [of _ "r # gone"] exI [of _ rest]) simp
qed

lemma fill_positive:
  "fill inc rs = (ev, inc', rs') \<Longrightarrow> (\<And>x. x \<in> set rs \<Longrightarrow> 0 < eo_quantity x)
    \<Longrightarrow> x \<in> set rs' \<Longrightarrow> 0 < eo_quantity x"
  by (induction rule: fill_induct) (auto simp: word_diff_pos)

lemma fill_sides:
  "fill inc rs = (ev, inc', rs') \<Longrightarrow> (\<And>x. x \<in> set rs \<Longrightarrow> eo_isBuy x = d)
    \<Longrightarrow> x \<in> set rs' \<Longrightarrow> eo_isBuy x = d"
  by (induction rule: fill_induct) auto

end
