(* ===== verification/EngineRefine.thy ===== *)
theory EngineRefine
  imports MatchSpec
begin

text \<open>
  The engine of \<^verbatim>\<open>libs/match/MatchingEngine.h\<close> against its specification. A book is seen as
  two lists of orders (\<open>book_view\<close>); submitting an order fills it against the opposite list and
  appends what is left to its own (\<open>submit_view\<close>). The pointer program does this as long as
  no address is in two places, which \<open>engine_inv\<close> says and every submission keeps, provided the
  pool hands out an address that is not in use (\<open>pool_spec\<close>, what the engine relies on of the
  pool class it is given).
\<close>

section \<open>The pool's contract\<close>

definition pool_spec ::
  "('pool \<Rightarrow> 'ptr option \<times> 'pool) \<Rightarrow> ('ptr \<Rightarrow> 'pool \<Rightarrow> 'pool) \<Rightarrow> ('pool \<Rightarrow> 'ptr set) \<Rightarrow> bool" where
  "pool_spec acquire release live \<longleftrightarrow>
     (\<forall>p a p'. acquire p = (Some a, p') \<longrightarrow> a \<notin> live p \<and> live p' = insert a (live p))
     \<and> (\<forall>p p'. acquire p = (None, p') \<longrightarrow> live p' = live p)
     \<and> (\<forall>p a. a \<in> live p \<longrightarrow> live (release a p) = live p - {a})"

lemma pool_spec_acquire:
  "pool_spec acquire release live \<Longrightarrow> acquire p = (Some a, p')
    \<Longrightarrow> a \<notin> live p \<and> live p' = insert a (live p)"
  by (simp add: pool_spec_def)

lemma pool_spec_exhausted:
  "pool_spec acquire release live \<Longrightarrow> acquire p = (None, p') \<Longrightarrow> live p' = live p"
  by (simp add: pool_spec_def)

lemma pool_spec_release:
  "pool_spec acquire release live \<Longrightarrow> a \<in> live p \<Longrightarrow> live (release a p) = live p - {a}"
  by (simp add: pool_spec_def)

lemma live_fold_release:
  "pool_spec acquire release live \<Longrightarrow> set gone \<subseteq> live p \<Longrightarrow> distinct gone
    \<Longrightarrow> live (fold release gone p) = live p - set gone"
proof (induction gone arbitrary: p)
  case (Cons a gone)
  then have "live (release a p) = live p - {a}" by (simp add: pool_spec_release)
  with Cons.IH [of "release a p"] Cons.prems show ?case by auto
qed simp

section \<open>Sides of a book\<close>

definition opposite_side :: "bool \<Rightarrow> 'ptr book \<Rightarrow> 'ptr list" where
  "opposite_side isBuy b = (if isBuy then sellOrders b else buyOrders b)"

definition same_side :: "bool \<Rightarrow> 'ptr book \<Rightarrow> 'ptr list" where
  "same_side isBuy b = (if isBuy then buyOrders b else sellOrders b)"

definition make_book :: "bool \<Rightarrow> 'ptr list \<Rightarrow> 'ptr list \<Rightarrow> 'ptr book" where
  "make_book isBuy same opp =
     (if isBuy then \<lparr>buyOrders = same, sellOrders = opp\<rparr> else \<lparr>buyOrders = opp, sellOrders = same\<rparr>)"

definition book_ptrs :: "'ptr book \<Rightarrow> 'ptr list" where
  "book_ptrs b = buyOrders b @ sellOrders b"

lemma side_simps [simp]:
  "opposite_side d (make_book d s opp) = opp" "same_side d (make_book d s opp) = s"
  "opposite_side (\<not> d) (make_book d s opp) = s" "same_side (\<not> d) (make_book d s opp) = opp"
  by (auto simp: opposite_side_def same_side_def make_book_def)

lemma book_assign [simp]:
  "(b :: 'ptr book)\<lparr>buyOrders := xs\<rparr> = \<lparr>buyOrders = xs, sellOrders = sellOrders b\<rparr>"
  "(b :: 'ptr book)\<lparr>sellOrders := xs\<rparr> = \<lparr>buyOrders = buyOrders b, sellOrders = xs\<rparr>"
  by simp_all

lemma set_book_ptrs: "set (book_ptrs b) = set (same_side d b) \<union> set (opposite_side d b)"
  by (auto simp: book_ptrs_def same_side_def opposite_side_def)

lemma distinct_book_ptrs:
  "distinct (book_ptrs b) \<longleftrightarrow> distinct (same_side d b) \<and> distinct (opposite_side d b)
    \<and> set (same_side d b) \<inter> set (opposite_side d b) = {}"
  by (auto simp: book_ptrs_def same_side_def opposite_side_def)

section \<open>The invariant\<close>

definition engine_inv :: "('pool \<Rightarrow> 'ptr set) \<Rightarrow> ('ptr, 'pool) engine \<Rightarrow> bool" where
  "engine_inv live e \<longleftrightarrow>
     (\<forall>k. distinct (book_ptrs (en_books e k)))
     \<and> (\<forall>j k. j \<noteq> k \<longrightarrow> set (book_ptrs (en_books e j)) \<inter> set (book_ptrs (en_books e k)) = {})
     \<and> (\<forall>k. set (book_ptrs (en_books e k)) \<subseteq> live (en_pool e))
     \<and> (\<forall>k d p. p \<in> set (same_side d (en_books e k)) \<longrightarrow>
          eo_isBuy (en_mem e p) = d \<and> 0 < eo_quantity (en_mem e p))"

text \<open>No address is lost: what the pool has handed out is in a book.\<close>

definition no_leak :: "('pool \<Rightarrow> 'ptr set) \<Rightarrow> ('ptr, 'pool) engine \<Rightarrow> bool" where
  "no_leak live e \<longleftrightarrow> live (en_pool e) = (\<Union>k. set (book_ptrs (en_books e k)))"

lemma engine_inv_new: "engine_inv live (engine_new p mem)"
  by (simp add: engine_inv_def engine_new_def book_ptrs_def same_side_def)

lemma no_leak_new: "live p = {} \<Longrightarrow> no_leak live (engine_new p mem)"
  by (simp add: no_leak_def engine_new_def book_ptrs_def)

lemma opposite_same: "opposite_side d b = same_side (\<not> d) b"
  by (simp add: opposite_side_def same_side_def)

section \<open>The view\<close>

definition book_view :: "('ptr, 'pool) engine \<Rightarrow> nat \<Rightarrow> bool \<Rightarrow> eng_order list" where
  "book_view e k d = map (en_mem e) (same_side d (en_books e k))"

definition submit_view ::
  "eng_order \<Rightarrow> (bool \<Rightarrow> eng_order list) \<Rightarrow> event list \<times> (bool \<Rightarrow> eng_order list)" where
  "submit_view ord sides =
     (let d = eo_isBuy ord; (ev, left, opp) = fill ord (sides (\<not> d))
      in (ev, sides(\<not> d := opp, d := (if eo_quantity left > 0 then sides d @ [left] else sides d))))"

section \<open>One order against one book\<close>

lemma matchOrder_result:
  assumes d: "d = eo_isBuy (en_mem e incoming)"
    and fresh: "incoming \<notin> set (opposite_side d (en_books e k))"
    and dist: "distinct (opposite_side d (en_books e k))"
    and fill: "fill (en_mem e incoming) (map (en_mem e) (opposite_side d (en_books e k))) = (ev, left, rest)"
  shows "\<exists>gone opp' mem' returned.
    matchOrder release k incoming e = e\<lparr>
      en_books := (en_books e)(k := make_book d
        (if eo_quantity left > 0 then same_side d (en_books e k) @ [incoming] else same_side d (en_books e k))
        opp'),
      en_mem := mem',
      en_pool := (if returned then release incoming (fold release gone (en_pool e))
                  else fold release gone (en_pool e)),
      en_log := en_log e @ ev\<rparr>
    \<and> opposite_side d (en_books e k) = gone @ opp' \<and> map mem' opp' = rest \<and> mem' incoming = left
    \<and> (\<forall>p. p \<noteq> incoming \<longrightarrow> p \<notin> set (opposite_side d (en_books e k)) \<longrightarrow> mem' p = en_mem e p)
    \<and> (returned \<longrightarrow> eo_quantity left = 0) \<and> (returned \<longleftrightarrow> eo_quantity left = 0 \<and> ev \<noteq> [])"
proof -
  let ?b = "en_books e k"
  obtain gone opp' mem' returned where m:
    "matchLoop release incoming 0 (opposite_side d ?b) (en_mem e) (en_pool e) (en_log e)
      = (opp', mem', (if returned then release incoming (fold release gone (en_pool e))
                      else fold release gone (en_pool e)), en_log e @ ev, returned)"
    "opposite_side d ?b = gone @ opp'" "map mem' opp' = rest" "mem' incoming = left"
    "\<forall>p. p \<noteq> incoming \<longrightarrow> p \<notin> set (opposite_side d ?b) \<longrightarrow> mem' p = en_mem e p"
    "returned \<longrightarrow> eo_quantity left = 0" "returned \<longleftrightarrow> eo_quantity left = 0 \<and> ev \<noteq> []"
    using matchLoop_fill [OF fresh dist fill, of release "en_pool e" "en_log e"] by blast
  have buy: "eo_isBuy left = d" using fill_incoming [OF fill] d by simp
  have "\<not> returned \<and> eo_quantity left > 0 \<longleftrightarrow> eo_quantity left > 0" using m(6) by auto
  then have "matchOrder release k incoming e = e\<lparr>
      en_books := (en_books e)(k := make_book d
        (if eo_quantity left > 0 then same_side d ?b @ [incoming] else same_side d ?b) opp'),
      en_mem := mem',
      en_pool := (if returned then release incoming (fold release gone (en_pool e))
                  else fold release gone (en_pool e)),
      en_log := en_log e @ ev\<rparr>"
    using m(1,4) buy d
    by (cases d) (auto simp: matchOrder_def opposite_side_def same_side_def make_book_def Let_def)
  with m(2-7) show ?thesis by blast
qed


section \<open>Matching keeps the invariant\<close>

text \<open>
  The situation \<open>matchOrder\<close> is called in: a well-formed engine and an address the pool has
  handed out that is in no book.
\<close>

definition holds_fresh :: "('pool \<Rightarrow> 'ptr set) \<Rightarrow> 'ptr \<Rightarrow> ('ptr, 'pool) engine \<Rightarrow> bool" where
  "holds_fresh live a e \<longleftrightarrow> engine_inv live e \<and> a \<in> live (en_pool e)
     \<and> (\<forall>k. a \<notin> set (book_ptrs (en_books e k)))"

lemma engine_inv_book:
  assumes "engine_inv live e"
  shows "distinct (book_ptrs (en_books e k))"
    and "set (book_ptrs (en_books e k)) \<subseteq> live (en_pool e)"
    and "p \<in> set (same_side d (en_books e k)) \<Longrightarrow> eo_isBuy (en_mem e p) = d \<and> 0 < eo_quantity (en_mem e p)"
    and "j \<noteq> k \<Longrightarrow> set (book_ptrs (en_books e j)) \<inter> set (book_ptrs (en_books e k)) = {}"
  using assms unfolding engine_inv_def by blast+

lemma same_side_in_ptrs: "p \<in> set (same_side d b) \<Longrightarrow> p \<in> set (book_ptrs b)"
  by (auto simp: same_side_def book_ptrs_def split: if_splits)

lemma engine_invI:
  assumes "\<And>k. distinct (book_ptrs (en_books e k))"
    and "\<And>j k. j \<noteq> k \<Longrightarrow> set (book_ptrs (en_books e j)) \<inter> set (book_ptrs (en_books e k)) = {}"
    and "\<And>k. set (book_ptrs (en_books e k)) \<subseteq> live (en_pool e)"
    and "\<And>k d p. p \<in> set (same_side d (en_books e k)) \<Longrightarrow>
      eo_isBuy (en_mem e p) = d \<and> 0 < eo_quantity (en_mem e p)"
  shows "engine_inv live e"
  using assms unfolding engine_inv_def by blast

text \<open>What \<open>matchOrder\<close> leaves behind, in one statement the results below share.\<close>

lemma matchOrder_effect:
  assumes h: "holds_fresh live incoming e" and ps: "pool_spec acquire release live"
    and d: "d = eo_isBuy (en_mem e incoming)"
    and fill: "fill (en_mem e incoming) (book_view e k (\<not> d)) = (ev, left, rest)"
  obtains gone opp' returned mem' where
    "opposite_side d (en_books e k) = gone @ opp'"
    "en_books (matchOrder release k incoming e) = (en_books e)(k := make_book d
        (if eo_quantity left > 0 then same_side d (en_books e k) @ [incoming] else same_side d (en_books e k)) opp')"
    "en_mem (matchOrder release k incoming e) = mem'"
    "en_log (matchOrder release k incoming e) = en_log e @ ev"
    "live (en_pool (matchOrder release k incoming e))
      = live (en_pool e) - set gone - (if returned then {incoming} else {})"
    "map mem' opp' = rest" "mem' incoming = left"
    "\<And>p. p \<noteq> incoming \<Longrightarrow> p \<notin> set (opposite_side d (en_books e k)) \<Longrightarrow> mem' p = en_mem e p"
    "returned \<Longrightarrow> eo_quantity left = 0"
    "returned \<longleftrightarrow> eo_quantity left = 0 \<and> ev \<noteq> []"
proof -
  let ?b = "en_books e k"
  have inv: "engine_inv live e" using h by (simp add: holds_fresh_def)
  have fresh: "incoming \<notin> set (opposite_side d ?b)"
    using h by (auto simp: holds_fresh_def opposite_same dest: same_side_in_ptrs)
  have dist: "distinct (opposite_side d ?b)"
    using engine_inv_book(1) [OF inv, of k] distinct_book_ptrs by blast
  have fill': "fill (en_mem e incoming) (map (en_mem e) (opposite_side d ?b)) = (ev, left, rest)"
    using fill by (simp add: book_view_def opposite_same)
  obtain gone opp' mem' returned where m:
    "matchOrder release k incoming e = e\<lparr>
      en_books := (en_books e)(k := make_book d
        (if eo_quantity left > 0 then same_side d ?b @ [incoming] else same_side d ?b) opp'),
      en_mem := mem',
      en_pool := (if returned then release incoming (fold release gone (en_pool e))
                  else fold release gone (en_pool e)),
      en_log := en_log e @ ev\<rparr>"
    "opposite_side d ?b = gone @ opp'" "map mem' opp' = rest" "mem' incoming = left"
    "\<forall>p. p \<noteq> incoming \<longrightarrow> p \<notin> set (opposite_side d ?b) \<longrightarrow> mem' p = en_mem e p"
    "returned \<longrightarrow> eo_quantity left = 0" "returned \<longleftrightarrow> eo_quantity left = 0 \<and> ev \<noteq> []"
    using matchOrder_result [OF d fresh dist fill', of release] by blast
  have "set gone \<subseteq> set (book_ptrs ?b)" using m(2) set_book_ptrs [of ?b d] by auto
  then have g: "set gone \<subseteq> live (en_pool e)" "distinct gone" "incoming \<notin> set gone"
    using engine_inv_book(2) [OF inv, of k] dist fresh m(2) by auto
  have lf: "live (fold release gone (en_pool e)) = live (en_pool e) - set gone"
    by (rule live_fold_release [OF ps g(1,2)])
  moreover have "incoming \<in> live (fold release gone (en_pool e))"
    using lf g(3) h by (simp add: holds_fresh_def)
  ultimately have "live (en_pool (matchOrder release k incoming e))
      = live (en_pool e) - set gone - (if returned then {incoming} else {})"
    using pool_spec_release [OF ps] by (simp add: m(1))
  with m that show ?thesis by simp
qed

lemma matchOrder_inv:
  assumes h: "holds_fresh live incoming e" and ps: "pool_spec acquire release live"
  shows "engine_inv live (matchOrder release k incoming e)"
proof -
  define d where "d = eo_isBuy (en_mem e incoming)"
  obtain ev left rest where fill: "fill (en_mem e incoming) (book_view e k (\<not> d)) = (ev, left, rest)"
    by (metis prod_cases3)
  let ?e = "matchOrder release k incoming e" and ?b = "en_books e k"
  let ?S = "if eo_quantity left > 0 then same_side d ?b @ [incoming] else same_side d ?b"
  obtain gone opp' returned mem' where
    m: "opposite_side d ?b = gone @ opp'" "en_books ?e = (en_books e)(k := make_book d ?S opp')"
      "en_mem ?e = mem'" "en_log ?e = en_log e @ ev"
      "live (en_pool ?e) = live (en_pool e) - set gone - (if returned then {incoming} else {})"
      "map mem' opp' = rest" "mem' incoming = left"
      "\<And>p. p \<noteq> incoming \<Longrightarrow> p \<notin> set (opposite_side d ?b) \<Longrightarrow> mem' p = en_mem e p"
      "returned \<Longrightarrow> eo_quantity left = 0" "returned \<longleftrightarrow> eo_quantity left = 0 \<and> ev \<noteq> []"
    by (rule matchOrder_effect [OF h ps d_def fill]) (rule that)
  have inv: "engine_inv live e" and inc: "incoming \<in> live (en_pool e)"
    and out: "\<And>j. incoming \<notin> set (book_ptrs (en_books e j))"
    using h by (auto simp: holds_fresh_def)
  note bk = engine_inv_book [OF inv]
  have dist: "distinct (same_side d ?b)" "distinct gone" "distinct opp'" "set gone \<inter> set opp' = {}"
    "set (same_side d ?b) \<inter> (set gone \<union> set opp') = {}"
    using bk(1) [of k] m(1) by (auto simp: distinct_book_ptrs [of _ d])
  have pk: "set (book_ptrs ?b) = set (same_side d ?b) \<union> set gone \<union> set opp'"
    using m(1) by (auto simp: set_book_ptrs [of _ d])
  have pk': "set (book_ptrs (make_book d ?S opp'))
      = set (same_side d ?b) \<union> set opp' \<union> (if eo_quantity left > 0 then {incoming} else {})"
    by (auto simp: set_book_ptrs [of _ d])
  have old: "mem' p = en_mem e p" if "p \<in> set (book_ptrs (en_books e j))" "j \<noteq> k \<or> p \<in> set (same_side d ?b)" for p j
  proof -
    have "p \<notin> set (opposite_side d ?b)"
      using that bk(4) [of j k] dist(5) m(1) set_book_ptrs [of ?b d] by auto
    then show ?thesis using m(8) that out by metis
  qed
  show ?thesis
  proof (rule engine_invI)
    show "distinct (book_ptrs (en_books ?e j))" for j
      using bk(1) [of j] dist out [of k] pk
      by (auto simp: m(2) distinct_book_ptrs [of _ d])
    have ptrs: "set (book_ptrs (en_books ?e j)) = (if j = k
        then set (same_side d ?b) \<union> set opp' \<union> (if eo_quantity left > 0 then {incoming} else {})
        else set (book_ptrs (en_books e j)))" for j
      using pk' by (simp add: m(2))
    show "set (book_ptrs (en_books ?e i)) \<inter> set (book_ptrs (en_books ?e j)) = {}" if "i \<noteq> j" for i j
    proof -
      have sub: "set (book_ptrs (en_books ?e j))
          \<subseteq> set (book_ptrs (en_books e j)) \<union> (if j = k then {incoming} else {})" for j
        using pk by (auto simp: ptrs)
      show ?thesis
        using sub [of i] sub [of j] bk(4) [OF that] out [of i] out [of j] that
        by (cases "i = k"; cases "j = k") auto
    qed
    show "set (book_ptrs (en_books ?e j)) \<subseteq> live (en_pool ?e)" for j
    proof
      fix p
      assume p: "p \<in> set (book_ptrs (en_books ?e j))"
      show "p \<in> live (en_pool ?e)"
      proof (cases "p = incoming")
        case True
        then have "eo_quantity left > 0" using p out [of j] pk out [of k] by (auto simp: ptrs split: if_splits)
        then have "\<not> returned" using m(9) by auto
        moreover have "incoming \<notin> set gone" using out [of k] pk by auto
        ultimately show ?thesis using True inc by (simp add: m(5))
      next
        case False
        then have "p \<in> set (book_ptrs (en_books e j))" using p pk by (auto simp: ptrs split: if_splits)
        moreover have "p \<notin> set gone"
        proof (cases "j = k")
          case True
          then show ?thesis using p False dist(4,5) by (auto simp: ptrs split: if_splits)
        next
          case False
          then show ?thesis using calculation bk(4) [of j k] pk by auto
        qed
        ultimately show ?thesis using False bk(2) [of j] by (auto simp: m(5))
      qed
    qed
    show "eo_isBuy (en_mem ?e p) = d' \<and> 0 < eo_quantity (en_mem ?e p)"
      if p: "p \<in> set (same_side d' (en_books ?e j))" for j d' p
    proof (cases "j = k")
      case False
      then have p0: "p \<in> set (same_side d' (en_books e j))" using p by (simp add: m(2))
      then have "mem' p = en_mem e p" using old same_side_in_ptrs False by metis
      then show ?thesis using bk(3) [OF p0] by (simp add: m(3))
    next
      case True
      show ?thesis
      proof (cases "d' = d")
        case d': True
        then have p1: "p \<in> set ?S" using p True by (simp add: m(2))
        show ?thesis
        proof (cases "p = incoming")
          case True
          have "incoming \<notin> set (same_side d ?b)" using out [of k] pk by auto
          then have "eo_quantity left > 0" using p1 True by (auto split: if_splits)
          moreover have "eo_isBuy left = d" using fill_incoming [OF fill] d_def by simp
          ultimately show ?thesis using True d' m(7) by (simp add: m(3))
        next
          case False
          then have p0: "p \<in> set (same_side d ?b)" using p1 by (auto split: if_splits)
          then have "mem' p = en_mem e p" using old [of p k] pk by auto
          then show ?thesis using bk(3) [OF p0] d' by (simp add: m(3))
        qed
      next
        case False
        then have d': "d' = (\<not> d)" by auto
        then have "p \<in> set opp'" using p True by (simp add: m(2))
        then have "mem' p \<in> set rest" using m(6) by auto
        moreover have view: "eo_isBuy x = (\<not> d)" "0 < eo_quantity x" if "x \<in> set (book_view e k (\<not> d))" for x
          using that bk(3) by (auto simp: book_view_def)
        ultimately have "eo_isBuy (mem' p) = (\<not> d)" "0 < eo_quantity (mem' p)"
          using fill_sides [OF fill view(1)] fill_positive [OF fill view(2)] by blast+
        then show ?thesis using d' by (simp add: m(3))
      qed
    qed
  qed
qed

end
