(* ===== verification/EngineSubmit.thy ===== *)
theory EngineSubmit
  imports EngineRefine OrderData "HOL-Library.Sublist"
begin

text \<open>
  \<open>submitOrder\<close> of \<^verbatim>\<open>libs/match/MatchingEngine.h\<close> against its specification, and whole runs of
  orders. The last part shows a pool that satisfies the contract, for the examples.
\<close>

section \<open>The view after one order\<close>

lemma matchOrder_view:
  assumes h: "holds_fresh live incoming e" and ps: "pool_spec acquire release live"
    and sv: "submit_view (en_mem e incoming) (book_view e k) = (ev, sides)"
  shows "book_view (matchOrder release k incoming e) = (book_view e)(k := sides)
    \<and> en_log (matchOrder release k incoming e) = en_log e @ ev"
proof -
  define d where "d = eo_isBuy (en_mem e incoming)"
  obtain ev2 left rest where fill: "fill (en_mem e incoming) (book_view e k (\<not> d)) = (ev2, left, rest)"
    by (metis prod_cases3)
  let ?e = "matchOrder release k incoming e" and ?b = "en_books e k"
  let ?S = "if eo_quantity left > 0 then same_side d ?b @ [incoming] else same_side d ?b"
  obtain gone opp' returned mem' where
    m: "opposite_side d ?b = gone @ opp'" "en_books ?e = (en_books e)(k := make_book d ?S opp')"
      "en_mem ?e = mem'" "en_log ?e = en_log e @ ev2"
      "live (en_pool ?e) = live (en_pool e) - set gone - (if returned then {incoming} else {})"
      "map mem' opp' = rest" "mem' incoming = left"
      "\<And>p. p \<noteq> incoming \<Longrightarrow> p \<notin> set (opposite_side d ?b) \<Longrightarrow> mem' p = en_mem e p"
      "returned \<Longrightarrow> eo_quantity left = 0" "returned \<longleftrightarrow> eo_quantity left = 0 \<and> ev2 \<noteq> []"
    by (rule matchOrder_effect [OF h ps d_def fill]) (rule that)
  have sv': "ev = ev2" "sides = (book_view e k)(\<not> d := rest,
      d := (if eo_quantity left > 0 then book_view e k d @ [left] else book_view e k d))"
    using sv fill by (auto simp: submit_view_def Let_def d_def)
  have inv: "engine_inv live e" and out: "\<And>j. incoming \<notin> set (book_ptrs (en_books e j))"
    using h by (auto simp: holds_fresh_def)
  note bk = engine_inv_book [OF inv]
  have same: "mem' p = en_mem e p"
    if "p \<in> set (same_side d' (en_books e j))" "j \<noteq> k \<or> d' = d" for p j d'
  proof -
    have p: "p \<in> set (book_ptrs (en_books e j))" using that(1) by (rule same_side_in_ptrs)
    have "p \<notin> set (opposite_side d ?b)"
      using that bk(1) [of k] bk(4) [of j k] p set_book_ptrs [of ?b d] distinct_book_ptrs [of ?b d] by blast
    then show ?thesis using m(8) p out by metis
  qed
  have k1: "book_view ?e k d' = sides d'" for d'
  proof (cases "d' = d")
    case True
    have "map mem' (same_side d ?b) = book_view e k d"
      using same [of _ d k] by (simp add: book_view_def)
    then show ?thesis using True by (simp add: book_view_def m(2,3,7) sv'(2))
  next
    case False
    then have "d' = (\<not> d)" by auto
    then show ?thesis using m(6) by (simp add: book_view_def m(2,3) sv'(2))
  qed
  have k2: "book_view ?e j d' = book_view e j d'" if "j \<noteq> k" for j d'
    using same [of _ d' j] that by (simp add: book_view_def m(2,3))
  have "book_view ?e = (book_view e)(k := sides)"
    using k1 k2 by (intro ext) simp
  with m(4) sv'(1) show ?thesis by simp
qed

text \<open>
  Where every address the pool has given out is in a book or is the one just handed out, all of
  them are in a book or given back after matching, except the address of an order that had no
  quantity and did not trade.
\<close>

definition lost_order :: "eng_order \<Rightarrow> (bool \<Rightarrow> eng_order list) \<Rightarrow> bool" where
  "lost_order ord sides \<longleftrightarrow> eo_quantity ord = 0 \<and> fst (fill ord (sides (\<not> eo_isBuy ord))) = []"

lemma matchOrder_live:
  assumes h: "holds_fresh live incoming e" and ps: "pool_spec acquire release live"
    and tight: "live (en_pool e) = insert incoming (\<Union>j. set (book_ptrs (en_books e j)))"
  shows "live (en_pool (matchOrder release k incoming e))
    = (\<Union>j. set (book_ptrs (en_books (matchOrder release k incoming e) j)))
      \<union> (if lost_order (en_mem e incoming) (book_view e k) then {incoming} else {})"
proof -
  define d where "d = eo_isBuy (en_mem e incoming)"
  obtain ev left rest where fill: "fill (en_mem e incoming) (book_view e k (\<not> d)) = (ev, left, rest)"
    by (metis prod_cases3)
  let ?e = "matchOrder release k incoming e" and ?b = "en_books e k"
  let ?S = "if eo_quantity left > 0 then same_side d ?b @ [incoming] else same_side d ?b"
  let ?others = "\<Union>j \<in> - {k}. set (book_ptrs (en_books e j))"
  obtain gone opp' returned mem' where
    m: "opposite_side d ?b = gone @ opp'" "en_books ?e = (en_books e)(k := make_book d ?S opp')"
      "en_mem ?e = mem'" "en_log ?e = en_log e @ ev"
      "live (en_pool ?e) = live (en_pool e) - set gone - (if returned then {incoming} else {})"
      "map mem' opp' = rest" "mem' incoming = left"
      "\<And>p. p \<noteq> incoming \<Longrightarrow> p \<notin> set (opposite_side d ?b) \<Longrightarrow> mem' p = en_mem e p"
      "returned \<Longrightarrow> eo_quantity left = 0" "returned \<longleftrightarrow> eo_quantity left = 0 \<and> ev \<noteq> []"
    by (rule matchOrder_effect [OF h ps d_def fill]) (rule that)
  have inv: "engine_inv live e" and out: "\<And>j. incoming \<notin> set (book_ptrs (en_books e j))"
    using h by (auto simp: holds_fresh_def)
  note bk = engine_inv_book [OF inv]
  have split_k: "(\<Union>j. set (book_ptrs (b j))) = set (book_ptrs (b k)) \<union> (\<Union>j \<in> - {k}. set (book_ptrs (b j)))"
    for b by auto
  have others: "(\<Union>j \<in> - {k}. set (book_ptrs (en_books ?e j))) = ?others" by (auto simp: m(2))
  have pk: "set (book_ptrs ?b) = set (same_side d ?b) \<union> set gone \<union> set opp'"
    using m(1) by (auto simp: set_book_ptrs [of _ d])
  have new_k: "set (book_ptrs (en_books ?e k))
      = set (same_side d ?b) \<union> set opp' \<union> (if eo_quantity left > 0 then {incoming} else {})"
    by (auto simp: m(2) set_book_ptrs [of _ d])
  have dist: "set gone \<inter> (set (same_side d ?b) \<union> set opp' \<union> ?others) = {}"
    using bk(1) [of k] m(1) bk(4) [of _ k] pk by (fastforce simp: distinct_book_ptrs [of _ d])
  have inc: "incoming \<notin> set (same_side d ?b) \<union> set gone \<union> set opp' \<union> ?others"
    using out pk by auto
  have old: "live (en_pool e) = insert incoming (set (same_side d ?b) \<union> set gone \<union> set opp' \<union> ?others)"
    using tight split_k [of "en_books e"] pk by simp
  have new: "(\<Union>j. set (book_ptrs (en_books ?e j)))
      = set (same_side d ?b) \<union> set opp' \<union> (if eo_quantity left > 0 then {incoming} else {}) \<union> ?others"
    using split_k [of "en_books ?e"] others new_k by simp
  have lost: "lost_order (en_mem e incoming) (book_view e k) \<longleftrightarrow> eo_quantity left = 0 \<and> ev = []"
    using fill fill_no_events [of "en_mem e incoming" "book_view e k (\<not> d)" left rest]
    by (auto simp: lost_order_def d_def)
  have zero: "eo_quantity left > 0 \<longleftrightarrow> eo_quantity left \<noteq> 0" by (simp add: word_neq_0_conv)
  show ?thesis
    unfolding new lost m(5) old zero using dist inc m(10) by (cases returned) auto
qed

lemma matchOrder_live_subset:
  assumes h: "holds_fresh live incoming e" and ps: "pool_spec acquire release live"
  shows "live (en_pool (matchOrder release k incoming e)) \<subseteq> live (en_pool e)"
proof -
  define d where "d = eo_isBuy (en_mem e incoming)"
  obtain ev left rest where fill: "fill (en_mem e incoming) (book_view e k (\<not> d)) = (ev, left, rest)"
    by (metis prod_cases3)
  show ?thesis
    by (rule matchOrder_effect [OF h ps d_def fill]) auto
qed

section \<open>Submitting one order\<close>

text \<open>The books of the specification: the two lists of orders of each table index.\<close>

type_synonym view = "nat \<Rightarrow> bool \<Rightarrow> eng_order list"

definition submit_books :: "eng_order \<Rightarrow> view \<Rightarrow> event list \<times> view" where
  "submit_books ord v =
     (case hashSymbol (eo_symbol ord) of
        None \<Rightarrow> ([], v)
      | Some k \<Rightarrow> let (ev, sides) = submit_view ord (v k) in (ev, v(k := sides)))"

fun run_books :: "eng_order list \<Rightarrow> view \<Rightarrow> event list \<times> view" where
  "run_books [] v = ([], v)"
| "run_books (ord # ords) v =
     (let (ev, v1) = submit_books ord v; (ev', v2) = run_books ords v1 in (ev @ ev', v2))"

lemma symbol_wf_hash:
  assumes "symbol_wf s"
  obtains k where "hashSymbol s = Some k"
  using assms hashSymbol_defined [of s] by (auto simp: symbol_wf_def MAX_SYMBOL_LENGTH_def)

lemma submitOrder_exhausted:
  assumes "acquire (en_pool e) = (None, p)"
  shows "submitOrder acquire release ord e = Some (e\<lparr>en_pool := p\<rparr>)"
  using assms by (simp add: submitOrder_def)

lemma engine_inv_pool:
  "engine_inv live e \<Longrightarrow> live p = live (en_pool e) \<Longrightarrow> engine_inv live (e\<lparr>en_pool := p\<rparr>)"
  unfolding engine_inv_def by simp

lemma book_view_pool [simp]: "book_view (e\<lparr>en_pool := p\<rparr>) = book_view e"
  by (simp add: book_view_def fun_eq_iff)

text \<open>After \<open>acquire\<close> and the copy the engine is ready for \<open>matchOrder\<close>.\<close>

lemma holds_fresh_acquired:
  assumes inv: "engine_inv live e" and ps: "pool_spec acquire release live"
    and acq: "acquire (en_pool e) = (Some a, p)"
  shows "holds_fresh live a (e\<lparr>en_pool := p, en_mem := (en_mem e)(a := ord)\<rparr>)"
    and "book_view (e\<lparr>en_pool := p, en_mem := (en_mem e)(a := ord)\<rparr>) = book_view e"
proof -
  let ?e = "e\<lparr>en_pool := p, en_mem := (en_mem e)(a := ord)\<rparr>"
  note bk = engine_inv_book [OF inv]
  have a: "a \<notin> live (en_pool e)" "live p = insert a (live (en_pool e))"
    using pool_spec_acquire [OF ps acq] by auto
  then have out: "a \<notin> set (book_ptrs (en_books e k))" for k using bk(2) by blast
  have "engine_inv live ?e"
  proof (rule engine_invI)
    show "distinct (book_ptrs (en_books ?e k))" for k using bk(1) by simp
    show "set (book_ptrs (en_books ?e i)) \<inter> set (book_ptrs (en_books ?e j)) = {}" if "i \<noteq> j" for i j
      using bk(4) [OF that] by simp
    show "set (book_ptrs (en_books ?e k)) \<subseteq> live (en_pool ?e)" for k using bk(2) [of k] a(2) by auto
    show "eo_isBuy (en_mem ?e q) = d \<and> 0 < eo_quantity (en_mem ?e q)"
      if "q \<in> set (same_side d (en_books ?e k))" for k d q
    proof -
      have q: "q \<in> set (same_side d (en_books e k))" using that by simp
      then have "q \<noteq> a" using same_side_in_ptrs [OF q] out [of k] by blast
      then show ?thesis using bk(3) [OF q] by simp
    qed
  qed
  then show "holds_fresh live a ?e" using a out by (simp add: holds_fresh_def)
  show "book_view ?e = book_view e"
  proof (intro ext)
    fix k d
    have "a \<notin> set (same_side d (en_books e k))" 
      using out [of k] same_side_in_ptrs [of a d "en_books e k"] by metis
    then show "book_view ?e k d = book_view e k d" by (simp add: book_view_def)
  qed
qed

lemma submitOrder_accepted:
  assumes inv: "engine_inv live e" and ps: "pool_spec acquire release live"
    and acq: "acquire (en_pool e) = (Some a, p)" and k: "hashSymbol (eo_symbol ord) = Some k"
  shows "\<exists>e'. submitOrder acquire release ord e = Some e' \<and> engine_inv live e'
    \<and> book_view e' = snd (submit_books ord (book_view e))
    \<and> en_log e' = en_log e @ fst (submit_books ord (book_view e))
    \<and> live (en_pool e') \<subseteq> insert a (live (en_pool e))"
proof -
  let ?e = "e\<lparr>en_pool := p, en_mem := (en_mem e)(a := ord)\<rparr>"
  note h = holds_fresh_acquired [OF inv ps acq, of ord]
  obtain ev sides where sv: "submit_view ord (book_view e k) = (ev, sides)" by fastforce
  then have sv': "submit_view (en_mem ?e a) (book_view ?e k) = (ev, sides)" by (simp add: h(2))
  have "submitOrder acquire release ord e = Some (matchOrder release k a ?e)"
    using acq k by (simp add: submitOrder_def)
  moreover have "live (en_pool (matchOrder release k a ?e)) \<subseteq> live (en_pool ?e)"
    by (rule matchOrder_live_subset [OF h(1) ps])
  moreover have "live p = insert a (live (en_pool e))" using pool_spec_acquire [OF ps acq] by simp
  ultimately show ?thesis
    using matchOrder_inv [OF h(1) ps, of k] matchOrder_view [OF h(1) ps sv'] sv k h(2)
    by (simp add: submit_books_def)
qed

text \<open>The whole operation: exhausted pool or not, memory safety for a terminated symbol.\<close>

lemma submitOrder_step:
  assumes inv: "engine_inv live e" and ps: "pool_spec acquire release live"
    and sym: "symbol_wf (eo_symbol ord)"
  shows "\<exists>e'. submitOrder acquire release ord e = Some e' \<and> engine_inv live e'
    \<and> (if fst (acquire (en_pool e)) = None
       then book_view e' = book_view e \<and> en_log e' = en_log e \<and> live (en_pool e') = live (en_pool e)
       else book_view e' = snd (submit_books ord (book_view e))
         \<and> en_log e' = en_log e @ fst (submit_books ord (book_view e))
         \<and> (\<exists>a. live (en_pool e') \<subseteq> insert a (live (en_pool e))))"
proof (cases "acquire (en_pool e)")
  case (Pair r p)
  obtain k where k: "hashSymbol (eo_symbol ord) = Some k" using sym by (rule symbol_wf_hash)
  show ?thesis
  proof (cases r)
    case None
    then have "live p = live (en_pool e)" using pool_spec_exhausted [OF ps] Pair by simp
    with None Pair show ?thesis
      using submitOrder_exhausted [of acquire e p release ord] engine_inv_pool [OF inv] by simp
  next
    case (Some a)
    with Pair submitOrder_accepted [OF inv ps _ k, of a p] show ?thesis by auto
  qed
qed

section \<open>Runs\<close>

text \<open>
  The orders of a run that the engine takes: those at which \<open>acquire\<close> of the pool, in the state the
  run has brought it to, gives an address. All others are dropped.
\<close>

fun accepted ::
  "('pool \<Rightarrow> 'ptr option \<times> 'pool) \<Rightarrow> ('ptr \<Rightarrow> 'pool \<Rightarrow> 'pool) \<Rightarrow> eng_order list
    \<Rightarrow> ('ptr, 'pool) engine \<Rightarrow> eng_order list" where
  "accepted acquire release [] e = []"
| "accepted acquire release (ord # ords) e =
     (if fst (acquire (en_pool e)) = None then [] else [ord])
     @ (case submitOrder acquire release ord e of None \<Rightarrow> [] | Some e' \<Rightarrow> accepted acquire release ords e')"

lemma set_accepted: "set (accepted acquire release ords e) \<subseteq> set ords"
proof (induction ords arbitrary: e)
  case (Cons ord ords)
  show ?case
  proof (cases "submitOrder acquire release ord e")
    case (Some e')
    with Cons.IH [of e'] show ?thesis by auto
  qed simp
qed simp

text \<open>
  A run of orders is the run of the specification on the orders the pool had room for.
\<close>

lemma submit_all_accepted:
  assumes "engine_inv live e" "pool_spec acquire release live"
    and "\<And>ord. ord \<in> set ords \<Longrightarrow> symbol_wf (eo_symbol ord)"
  shows "\<exists>e'. submit_all acquire release ords e = Some e' \<and> engine_inv live e'
    \<and> book_view e' = snd (run_books (accepted acquire release ords e) (book_view e))
    \<and> en_log e' = en_log e @ fst (run_books (accepted acquire release ords e) (book_view e))"
  using assms
proof (induction ords arbitrary: e)
  case Nil
  then show ?case by (intro exI [of _ e]) simp
next
  case (Cons ord ords)
  obtain e1 where e1: "submitOrder acquire release ord e = Some e1" "engine_inv live e1"
    "if fst (acquire (en_pool e)) = None
     then book_view e1 = book_view e \<and> en_log e1 = en_log e \<and> live (en_pool e1) = live (en_pool e)
     else book_view e1 = snd (submit_books ord (book_view e))
       \<and> en_log e1 = en_log e @ fst (submit_books ord (book_view e))
       \<and> (\<exists>a. live (en_pool e1) \<subseteq> insert a (live (en_pool e)))"
    using submitOrder_step [OF Cons.prems(1,2), of ord] Cons.prems(3) by auto
  let ?acc = "accepted acquire release ords e1"
  obtain e' where e': "submit_all acquire release ords e1 = Some e'" "engine_inv live e'"
    "book_view e' = snd (run_books ?acc (book_view e1))"
    "en_log e' = en_log e1 @ fst (run_books ?acc (book_view e1))"
    using Cons.IH [OF e1(2) Cons.prems(2)] Cons.prems(3) by auto
  show ?case
  proof (cases "fst (acquire (en_pool e)) = None")
    case True
    with e1 e' show ?thesis by (intro exI [of _ e']) simp
  next
    case False
    with e1 e' show ?thesis by (intro exI [of _ e']) (simp add: case_prod_beta del: not_None_eq)
  qed
qed

lemma submit_all_room:
  assumes "engine_inv live e" "pool_spec acquire release live"
    and "\<And>ord. ord \<in> set ords \<Longrightarrow> symbol_wf (eo_symbol ord)"
    and room: "\<And>p. fst (acquire p) = None \<Longrightarrow> N \<le> card (live p)"
    and "finite (live (en_pool e))" "card (live (en_pool e)) + length ords \<le> N"
  shows "\<exists>e'. submit_all acquire release ords e = Some e' \<and> engine_inv live e'
    \<and> book_view e' = snd (run_books ords (book_view e))
    \<and> en_log e' = en_log e @ fst (run_books ords (book_view e))"
  using assms(1-3,5,6)
proof (induction ords arbitrary: e)
  case (Cons ord ords)
  have some: "fst (acquire (en_pool e)) \<noteq> None" using room [of "en_pool e"] Cons.prems(5) by auto
  obtain e1 where e1: "submitOrder acquire release ord e = Some e1" "engine_inv live e1"
    "book_view e1 = snd (submit_books ord (book_view e))"
    "en_log e1 = en_log e @ fst (submit_books ord (book_view e))"
    "\<exists>a. live (en_pool e1) \<subseteq> insert a (live (en_pool e))"
    using submitOrder_step [OF Cons.prems(1,2), of ord] Cons.prems(3) some by auto
  then obtain a where a: "live (en_pool e1) \<subseteq> insert a (live (en_pool e))" by blast
  then have "finite (live (en_pool e1))" "card (live (en_pool e1)) \<le> Suc (card (live (en_pool e)))"
    using Cons.prems(4) card_mono [OF _ a] card_insert_le_m1 [of "Suc (card (live (en_pool e)))"]
    by (auto intro: finite_subset simp: card_insert_if split: if_splits)
  then obtain e' where "submit_all acquire release ords e1 = Some e'" "engine_inv live e'"
    "book_view e' = snd (run_books ords (book_view e1))"
    "en_log e' = en_log e1 @ fst (run_books ords (book_view e1))"
    using Cons.IH [OF e1(2) Cons.prems(2)] Cons.prems(3,5) by auto
  with e1(1,3,4) show ?case by (simp add: case_prod_beta)
qed simp

text \<open>When the pool has room for all of them, all are accepted.\<close>

lemma accepted_all:
  assumes "engine_inv live e" "pool_spec acquire release live"
    and "\<And>ord. ord \<in> set ords \<Longrightarrow> symbol_wf (eo_symbol ord)"
    and room: "\<And>p. fst (acquire p) = None \<Longrightarrow> N \<le> card (live p)"
    and "finite (live (en_pool e))" "card (live (en_pool e)) + length ords \<le> N"
  shows "accepted acquire release ords e = ords"
  using assms(1-3,5,6)
proof (induction ords arbitrary: e)
  case (Cons ord ords)
  have some: "fst (acquire (en_pool e)) \<noteq> None" using room [of "en_pool e"] Cons.prems(5) by auto
  obtain e1 a where e1: "submitOrder acquire release ord e = Some e1" "engine_inv live e1"
    and a: "live (en_pool e1) \<subseteq> insert a (live (en_pool e))"
    using submitOrder_step [OF Cons.prems(1,2), of ord] Cons.prems(3) some by auto
  have "finite (live (en_pool e1))" "card (live (en_pool e1)) \<le> Suc (card (live (en_pool e)))"
    using Cons.prems(4) card_mono [OF _ a] by (auto intro: finite_subset [OF a] simp: card_insert_if split: if_splits)
  then have "accepted acquire release ords e1 = ords"
    using Cons.IH [OF e1(2) Cons.prems(2)] Cons.prems(3,5) by auto
  with e1(1) some show ?case by (simp del: not_None_eq)
qed simp

text \<open>A run that is continued.\<close>

lemma submit_all_append:
  "submit_all acquire release (xs @ ys) e
    = (case submit_all acquire release xs e of None \<Rightarrow> None | Some e' \<Rightarrow> submit_all acquire release ys e')"
  by (induction xs arbitrary: e) (simp_all split: option.split)

section \<open>Leaks\<close>

lemma submitOrder_live:
  assumes inv: "engine_inv live e" and ps: "pool_spec acquire release live" and nl: "no_leak live e"
    and acq: "acquire (en_pool e) = (Some a, p)" and k: "hashSymbol (eo_symbol ord) = Some k"
  shows "\<exists>e'. submitOrder acquire release ord e = Some e' \<and>
    (if lost_order ord (book_view e k)
     then a \<in> live (en_pool e') \<and> (\<forall>j. a \<notin> set (book_ptrs (en_books e' j)))
     else no_leak live e')"
proof -
  let ?e = "e\<lparr>en_pool := p, en_mem := (en_mem e)(a := ord)\<rparr>"
  let ?e' = "matchOrder release k a ?e"
  note h = holds_fresh_acquired [OF inv ps acq, of ord]
  have a: "a \<notin> live (en_pool e)" "live p = insert a (live (en_pool e))"
    using pool_spec_acquire [OF ps acq] by auto
  have "live (en_pool ?e) = insert a (\<Union>j. set (book_ptrs (en_books ?e j)))"
    using a nl by (simp add: no_leak_def)
  then have live: "live (en_pool ?e') = (\<Union>j. set (book_ptrs (en_books ?e' j)))
      \<union> (if lost_order ord (book_view e k) then {a} else {})"
    using matchOrder_live [OF h(1) ps, of k] by (simp add: h(2))
  have step: "submitOrder acquire release ord e = Some ?e'"
    using acq k by (simp add: submitOrder_def)
  show ?thesis
  proof (cases "lost_order ord (book_view e k)")
    case False
    with live step show ?thesis by (simp add: no_leak_def)
  next
    case True
    define d where "d = eo_isBuy (en_mem ?e a)"
    obtain ev left rest where fill: "fill (en_mem ?e a) (book_view ?e k (\<not> d)) = (ev, left, rest)"
      by (metis prod_cases3)
    have left: "eo_quantity left = 0" "ev = []"
      using True fill fill_no_events [of ord "book_view e k (\<not> d)" left rest]
      by (auto simp: lost_order_def d_def h(2))
    have out: "a \<notin> set (book_ptrs (en_books ?e j))" for j using h(1) by (simp add: holds_fresh_def)
    obtain gone opp' where
      "opposite_side d (en_books ?e k) = gone @ opp'"
      "en_books ?e' = (en_books ?e)(k := make_book d
        (if eo_quantity left > 0 then same_side d (en_books ?e k) @ [a] else same_side d (en_books ?e k)) opp')"
      by (rule matchOrder_effect [OF h(1) ps d_def fill]) (rule that)
    then have "set (book_ptrs (en_books ?e' j)) \<subseteq> set (book_ptrs (en_books ?e j))" for j
      using left by (auto simp: set_book_ptrs [of _ d])
    then have "a \<notin> set (book_ptrs (en_books ?e' j))" for j using out by blast
    with True live step show ?thesis by simp
  qed
qed

lemma submitOrder_no_leak:
  assumes "engine_inv live e" "pool_spec acquire release live" "no_leak live e"
    and sym: "symbol_wf (eo_symbol ord)" and "0 < eo_quantity ord"
    and step: "submitOrder acquire release ord e = Some e'"
  shows "no_leak live e'"
proof (cases "acquire (en_pool e)")
  case (Pair r p)
  obtain k where k: "hashSymbol (eo_symbol ord) = Some k" using sym by (rule symbol_wf_hash)
  show ?thesis
  proof (cases r)
    case None
    then show ?thesis
      using assms submitOrder_exhausted [of acquire e p release ord] Pair pool_spec_exhausted [of acquire release live]
      by (auto simp: no_leak_def)
  next
    case (Some a)
    then have acq: "acquire (en_pool e) = (Some a, p)" using Pair by simp
    have "\<not> lost_order ord (book_view e k)" using assms(5) by (auto simp: lost_order_def)
    with submitOrder_live [OF assms(1-3) acq k] step show ?thesis by auto
  qed
qed

lemma submit_all_no_leak:
  assumes "engine_inv live e" "pool_spec acquire release live" "no_leak live e"
    and "\<And>ord. ord \<in> set ords \<Longrightarrow> symbol_wf (eo_symbol ord) \<and> 0 < eo_quantity ord"
    and "submit_all acquire release ords e = Some e'"
  shows "no_leak live e'"
  using assms
proof (induction ords arbitrary: e)
  case (Cons ord ords)
  obtain e1 where e1: "submitOrder acquire release ord e = Some e1" "engine_inv live e1"
    using submitOrder_step [OF Cons.prems(1,2), of ord] Cons.prems(4) by auto
  have "no_leak live e1"
    using submitOrder_no_leak [OF Cons.prems(1-3) _ _ e1(1)] Cons.prems(4) by auto
  then show ?case using Cons.IH [OF e1(2) Cons.prems(2)] Cons.prems(4,5) e1(1) by auto
qed simp

end
