(* ===== verification/BookRuns.thy ===== *)
theory BookRuns
  imports EngineSubmit
begin

text \<open>
  What holds of every run of the books: where an order rests, what a trade may be, and that no
  quantity appears or disappears. These are facts about the specification \<open>run_books\<close>;
  \<open>submit_all_accepted\<close> carries them over to \<open>submitOrder\<close>.
\<close>

section \<open>Where orders rest\<close>

definition books_ok :: "view \<Rightarrow> bool" where
  "books_ok v \<longleftrightarrow> (\<forall>k d. \<forall>x \<in> set (v k d).
     hashSymbol (eo_symbol x) = Some k \<and> eo_isBuy x = d \<and> 0 < eo_quantity x)"

definition no_books :: view where
  "no_books = (\<lambda>k d. [])"

lemma books_ok_empty: "books_ok no_books"
  by (simp add: books_ok_def no_books_def)

lemma book_view_new [simp]: "book_view (engine_new p mem) = no_books"
  by (simp add: book_view_def engine_new_def same_side_def no_books_def fun_eq_iff)

lemma fill_resting:
  "fill inc rs = (ev, inc', rs') \<Longrightarrow> x \<in> set rs'
    \<Longrightarrow> \<exists>r \<in> set rs. eo_symbol x = eo_symbol r \<and> eo_isBuy x = eo_isBuy r \<and> eo_price x = eo_price r
      \<and> eo_orderId x = eo_orderId r"
  by (induction rule: fill_induct) auto

text \<open>Submitting in terms of \<open>fill\<close>.\<close>

lemma submit_books_fill:
  assumes "hashSymbol (eo_symbol ord) = Some k" "d = eo_isBuy ord"
    and "fill ord (v k (\<not> d)) = (ev, left, opp)"
  shows "submit_books ord v = (ev, v(k := (v k)(\<not> d := opp,
    d := (if eo_quantity left > 0 then v k d @ [left] else v k d))))"
  using assms by (simp add: submit_books_def submit_view_def Let_def)

lemma submit_books_cases:
  obtains (unhashed) "hashSymbol (eo_symbol ord) = None" "submit_books ord v = ([], v)"
  | (filled) k d ev left opp where "hashSymbol (eo_symbol ord) = Some k" "d = eo_isBuy ord"
      "fill ord (v k (\<not> d)) = (ev, left, opp)"
      "submit_books ord v = (ev, v(k := (v k)(\<not> d := opp,
        d := (if eo_quantity left > 0 then v k d @ [left] else v k d))))"
proof (cases "hashSymbol (eo_symbol ord)")
  case None
  then show ?thesis by (intro that(1)) (simp_all add: submit_books_def)
next
  case (Some k)
  obtain ev left opp where "fill ord (v k (\<not> eo_isBuy ord)) = (ev, left, opp)" by (metis prod_cases3)
  with that(2) [OF Some refl] submit_books_fill [where v = v, OF Some refl] show ?thesis by blast
qed

lemma submit_books_ok:
  assumes "books_ok v"
  shows "books_ok (snd (submit_books ord v))"
proof (cases rule: submit_books_cases [of ord v])
  case unhashed
  with assms show ?thesis by simp
next
  case (filled k d ev left opp)
  have opp: "hashSymbol (eo_symbol x) = Some k \<and> eo_isBuy x = (\<not> d) \<and> 0 < eo_quantity x" if "x \<in> set opp" for x
    using fill_resting [OF filled(3) that] fill_positive [OF filled(3) _ that] assms
    unfolding books_ok_def by metis
  have left: "hashSymbol (eo_symbol left) = Some k \<and> eo_isBuy left = d"
    using fill_incoming [OF filled(3)] filled(1,2) by simp
  have old: "hashSymbol (eo_symbol x) = Some j \<and> eo_isBuy x = d' \<and> 0 < eo_quantity x" if "x \<in> set (v j d')" for x j d'
    using assms that by (simp add: books_ok_def)
  have "hashSymbol (eo_symbol x) = Some j \<and> eo_isBuy x = d' \<and> 0 < eo_quantity x"
    if "x \<in> set (snd (submit_books ord v) j d')" for x j d'
    using that opp left old
    by (cases "j = k"; cases "d' = d") (auto simp: filled(4) split: if_splits)
  then show ?thesis by (simp add: books_ok_def)
qed

lemma run_books_ok: "books_ok v \<Longrightarrow> books_ok (snd (run_books ords v))"
proof (induction ords arbitrary: v)
  case (Cons ord ords)
  then show ?case using submit_books_ok [of v ord] by (simp add: case_prod_beta)
qed simp

section \<open>Trades\<close>

text \<open>
  A trade is between a buy and a sell in the same book, the buyer's limit is not below the
  seller's, and it trades something.
\<close>

definition limits_meet :: "eng_order \<Rightarrow> eng_order \<Rightarrow> bool" where
  "limits_meet a r \<longleftrightarrow>
     (if eo_isBuy a then \<not> eo_isBuy r \<and> sint (eo_price r) \<le> sint (eo_price a)
      else eo_isBuy r \<and> sint (eo_price a) \<le> sint (eo_price r))"

lemma crosses_limits_meet: "crosses a r \<Longrightarrow> eo_isBuy r = (\<not> eo_isBuy a) \<Longrightarrow> limits_meet a r"
  by (auto simp: limits_meet_def crosses_def)

definition good_trade :: "event \<Rightarrow> bool" where
  "good_trade t \<longleftrightarrow> (case t of
     MatchReport a r f \<Rightarrow> limits_meet a r \<and> 0 < f
       \<and> hashSymbol (eo_symbol a) = hashSymbol (eo_symbol r)
   | ExecReport _ f \<Rightarrow> 0 < f)"

lemma fill_events_good:
  assumes "fill inc rs = (ev, inc', rs')" "0 < eo_quantity inc"
    and "\<And>x. x \<in> set rs \<Longrightarrow> 0 < eo_quantity x \<and> eo_isBuy x = (\<not> eo_isBuy inc)
      \<and> hashSymbol (eo_symbol x) = hashSymbol (eo_symbol inc)"
  shows "\<forall>t \<in> set ev. good_trade t"
  using assms
  by (induction rule: fill_induct) (auto simp: fill_events_def good_trade_def word_diff_pos intro!: crosses_limits_meet)

lemma submit_books_trades:
  assumes "books_ok v" "0 < eo_quantity ord"
  shows "\<forall>t \<in> set (fst (submit_books ord v)). good_trade t"
proof (cases rule: submit_books_cases [of ord v])
  case unhashed
  then show ?thesis by simp
next
  case (filled k d ev left opp)
  have "\<forall>t \<in> set ev. good_trade t"
  proof (rule fill_events_good [OF filled(3) assms(2)])
    fix x assume "x \<in> set (v k (\<not> d))"
    then show "0 < eo_quantity x \<and> eo_isBuy x = (\<not> eo_isBuy ord)
        \<and> hashSymbol (eo_symbol x) = hashSymbol (eo_symbol ord)"
      using assms(1) filled(1,2) by (simp add: books_ok_def)
  qed
  then show ?thesis by (simp add: filled(4))
qed

lemma run_books_trades:
  "books_ok v \<Longrightarrow> (\<And>ord. ord \<in> set ords \<Longrightarrow> 0 < eo_quantity ord)
    \<Longrightarrow> \<forall>t \<in> set (fst (run_books ords v)). good_trade t"
proof (induction ords arbitrary: v)
  case (Cons ord ords)
  then show ?case
    using submit_books_ok [of v ord] submit_books_trades [of v ord] by (auto simp: case_prod_beta)
qed simp

section \<open>Conservation of quantity\<close>

definition total_resting :: "view \<Rightarrow> nat" where
  "total_resting v = (\<Sum>k<1024. resting_qty (v k True) + resting_qty (v k False))"

lemma sum_update_one:
  fixes f g :: "nat \<Rightarrow> nat"
  assumes "k < n" "\<And>j. j \<noteq> k \<Longrightarrow> g j = f j"
  shows "(\<Sum>j<n. g j) + f k = (\<Sum>j<n. f j) + g k"
proof -
  have "(\<Sum>j<n. h j) = h k + (\<Sum>j \<in> {..<n} - {k}. h j)" for h :: "nat \<Rightarrow> nat"
    using assms(1) by (simp add: sum.remove)
  moreover have "(\<Sum>j \<in> {..<n} - {k}. g j) = (\<Sum>j \<in> {..<n} - {k}. f j)"
    using assms(2) by (intro sum.cong) auto
  ultimately show ?thesis by simp
qed

lemma submit_books_conserves:
  assumes "symbol_wf (eo_symbol ord)"
  shows "total_resting v + unat (eo_quantity ord)
    = total_resting (snd (submit_books ord v)) + 2 * executed (fst (submit_books ord v))"
proof (cases rule: submit_books_cases [of ord v])
  case unhashed
  then show ?thesis using symbol_wf_hash [OF assms] by auto
next
  case (filled k d ev left opp)
  let ?v = "snd (submit_books ord v)"
  have c: "unat (eo_quantity ord) = unat (eo_quantity left) + executed ev"
    "resting_qty (v k (\<not> d)) = resting_qty opp + executed ev"
    using fill_conserves [OF filled(3)] by auto
  have side: "resting_qty (w True) + resting_qty (w False) = resting_qty (w d) + resting_qty (w (\<not> d))"
    for w :: "bool \<Rightarrow> eng_order list" by (cases d) auto
  have z: "\<not> 0 < eo_quantity left \<Longrightarrow> unat (eo_quantity left) = 0"
    by (metis unat_0 word_neq_0_conv)
  have new: "resting_qty (?v k d) + resting_qty (?v k (\<not> d))
      = resting_qty (v k d) + unat (eo_quantity left) + resting_qty opp"
    using z by (auto simp: filled(4))
  have k: "k < 1024" using filled(1) by (rule hashSymbol_less)
  have same: "\<And>j. j \<noteq> k \<Longrightarrow> ?v j = v j" by (simp add: filled(4))
  have "total_resting ?v + (resting_qty (v k True) + resting_qty (v k False))
      = total_resting v + (resting_qty (?v k True) + resting_qty (?v k False))"
    unfolding total_resting_def by (rule sum_update_one [OF k]) (simp add: same)
  then have "total_resting ?v + (resting_qty (v k d) + resting_qty (v k (\<not> d)))
      = total_resting v + (resting_qty (?v k d) + resting_qty (?v k (\<not> d)))"
    using side [of "v k"] side [of "?v k"] by simp
  then have "total_resting ?v + executed ev = total_resting v + unat (eo_quantity left)"
    using new c(2) by simp
  then show ?thesis using c(1) by (simp add: filled(4))
qed

definition submitted_qty :: "eng_order list \<Rightarrow> nat" where
  "submitted_qty ords = (\<Sum>ord\<leftarrow>ords. unat (eo_quantity ord))"

lemma run_books_conserves:
  "(\<And>ord. ord \<in> set ords \<Longrightarrow> symbol_wf (eo_symbol ord))
    \<Longrightarrow> total_resting v + submitted_qty ords
      = total_resting (snd (run_books ords v)) + 2 * executed (fst (run_books ords v))"
proof (induction ords arbitrary: v)
  case Nil
  then show ?case by (simp add: submitted_qty_def)
next
  case (Cons ord ords)
  have "total_resting v + unat (eo_quantity ord)
    = total_resting (snd (submit_books ord v)) + 2 * executed (fst (submit_books ord v))"
    using submit_books_conserves Cons.prems by simp
  moreover have "total_resting (snd (submit_books ord v)) + submitted_qty ords
      = total_resting (snd (run_books ords (snd (submit_books ord v))))
        + 2 * executed (fst (run_books ords (snd (submit_books ord v))))"
    using Cons.IH Cons.prems by simp
  ultimately show ?case by (simp add: case_prod_beta submitted_qty_def)
qed

lemma no_books_total [simp]: "total_resting no_books = 0"
  by (simp add: total_resting_def no_books_def)

text \<open>The same for the engine: what a run leaves and reports is made of the orders it accepted.\<close>

lemma accepted_balance:
  assumes "pool_spec acquire release live" "en_log e = []" "engine_inv live e" "book_view e = no_books"
    and "\<And>ord. ord \<in> set ords \<Longrightarrow> symbol_wf (eo_symbol ord)"
  shows "\<exists>e'. submit_all acquire release ords e = Some e' \<and> engine_inv live e'
    \<and> book_view e' = snd (run_books (accepted acquire release ords e) no_books)
    \<and> en_log e' = fst (run_books (accepted acquire release ords e) no_books)
    \<and> submitted_qty (accepted acquire release ords e) = total_resting (book_view e') + 2 * executed (en_log e')"
proof -
  let ?acc = "accepted acquire release ords e"
  have "symbol_wf (eo_symbol ord)" if "ord \<in> set ?acc" for ord
    using that set_accepted [of acquire release ords e] assms(5) by blast
  then show ?thesis
    using submit_all_accepted [OF assms(3,1), of ords] run_books_conserves [of ?acc no_books] assms(2,4,5) by auto
qed

end
