(* ===== verification/EngineCases.thy ===== *)
theory EngineCases
  imports BookRuns
begin

text \<open>
  A pool that keeps its contract, with numbered slots, and symbols and orders to run the engine
  on. The two ticker symbols WMT and MRK have the same hash.
\<close>

section \<open>A pool of numbered slots\<close>

text \<open>The state is the list of the slots in use; \<open>acquire\<close> takes the least free one.\<close>

definition slot_acquire :: "nat \<Rightarrow> nat list \<Rightarrow> nat option \<times> nat list" where
  "slot_acquire N used =
     (case List.find (\<lambda>a. a \<notin> set used) [0..<N] of
        None \<Rightarrow> (None, used)
      | Some a \<Rightarrow> (Some a, a # used))"

definition slot_release :: "nat \<Rightarrow> nat list \<Rightarrow> nat list" where
  "slot_release a used = removeAll a used"

lemma slot_pool_spec: "pool_spec (slot_acquire N) slot_release set"
  by (auto simp: pool_spec_def slot_acquire_def slot_release_def find_Some_iff split: option.splits)

lemma slot_pool_room: "fst (slot_acquire N used) = None \<Longrightarrow> N \<le> card (set used)"
proof -
  assume "fst (slot_acquire N used) = None"
  then have "set [0..<N] \<subseteq> set used"
    by (auto simp: slot_acquire_def find_None_iff split: option.splits)
  then have "card (set [0..<N]) \<le> card (set used)" by (intro card_mono) auto
  then show ?thesis by simp
qed

section \<open>Symbols and orders\<close>

definition sym_WMT :: "u8 list" where
  "sym_WMT = [87, 77, 84, 0, 0, 0, 0, 0, 0, 0, 0, 0, 0, 0, 0, 0]"

definition sym_MRK :: "u8 list" where
  "sym_MRK = [77, 82, 75, 0, 0, 0, 0, 0, 0, 0, 0, 0, 0, 0, 0, 0]"

definition mk_order :: "u64 \<Rightarrow> i64 \<Rightarrow> u64 \<Rightarrow> bool \<Rightarrow> u8 list \<Rightarrow> eng_order" where
  "mk_order oid price qty isBuy symbol =
     \<lparr>eo_orderId = oid, eo_price = price, eo_quantity = qty, eo_isBuy = isBuy, eo_symbol = symbol\<rparr>"

lemma hash_WMT: "hashSymbol sym_WMT = Some 495"
  by code_simp

lemma hash_MRK: "hashSymbol sym_MRK = Some 495"
  by code_simp

lemma symbols_wf: "symbol_wf sym_WMT" "symbol_wf sym_MRK"
  by (simp_all add: symbol_wf_def sym_WMT_def sym_MRK_def MAX_SYMBOL_LENGTH_def)

lemma mk_order_fields [simp]:
  "eo_orderId (mk_order oid price qty b sy) = oid" "eo_price (mk_order oid price qty b sy) = price"
  "eo_quantity (mk_order oid price qty b sy) = qty" "eo_isBuy (mk_order oid price qty b sy) = b"
  "eo_symbol (mk_order oid price qty b sy) = sy"
  by (simp_all add: mk_order_def)

definition engine0 :: "(nat, nat list) engine" where
  "engine0 = engine_new [] (\<lambda>_. mk_order 0 0 0 True sym_WMT)"

lemma engine0_ok: "engine_inv set engine0" "no_leak set engine0" "book_view engine0 = no_books"
  "en_pool engine0 = []" "en_log engine0 = []"
  using engine_inv_new [of set] no_leak_new [of set "[]"] book_view_new
  by (simp_all add: engine0_def) (simp_all add: engine_new_def)

text \<open>A buy and a sell that would trade rest in the same book.\<close>

definition crossed :: "(bool \<Rightarrow> eng_order list) \<Rightarrow> bool" where
  "crossed sides \<longleftrightarrow> (\<exists>b \<in> set (sides True). \<exists>s \<in> set (sides False).
     sint (eo_price s) \<le> sint (eo_price b))"

text \<open>Runs: a sell met by a smaller buy, a buy between two sells, and two symbols that collide.\<close>

definition sell_buy :: "eng_order list" where
  "sell_buy = [mk_order 1 100 10 False sym_WMT, mk_order 2 101 4 True sym_WMT]"

definition sells_buy :: "eng_order list" where
  "sells_buy = [mk_order 1 105 10 False sym_WMT, mk_order 2 100 10 False sym_WMT,
     mk_order 3 102 10 True sym_WMT]"

definition colliding :: "eng_order list" where
  "colliding = [mk_order 1 100 10 False sym_WMT, mk_order 2 100 10 True sym_MRK]"

lemma runs_ok:
  "ord \<in> set sell_buy \<Longrightarrow> symbol_wf (eo_symbol ord) \<and> 0 < eo_quantity ord"
  "ord \<in> set sells_buy \<Longrightarrow> symbol_wf (eo_symbol ord) \<and> 0 < eo_quantity ord"
  "ord \<in> set colliding \<Longrightarrow> symbol_wf (eo_symbol ord) \<and> 0 < eo_quantity ord"
  using symbols_wf by (auto simp: sell_buy_def sells_buy_def colliding_def)

lemma runs_length: "length sell_buy = 2" "length sells_buy = 3" "length colliding = 2"
  by (simp_all add: sell_buy_def sells_buy_def colliding_def)

lemma run_sell_buy:
  "snd (run_books sell_buy no_books) 495 False = [mk_order 1 100 6 False sym_WMT]"
  "snd (run_books sell_buy no_books) 495 True = []"
  "fst (run_books sell_buy no_books) = [ExecReport (mk_order 2 101 0 True sym_WMT) 4,
     ExecReport (mk_order 1 100 6 False sym_WMT) 4,
     MatchReport (mk_order 2 101 0 True sym_WMT) (mk_order 1 100 6 False sym_WMT) 4]"
  by (simp_all add: sell_buy_def submit_books_def submit_view_def hash_WMT no_books_def crosses_def
      fill_events_def Let_def reduce_by_def mk_order_def)

lemma run_sells_buy:
  "crossed (snd (run_books sells_buy no_books) 495)" "fst (run_books sells_buy no_books) = []"
  by (simp_all add: sells_buy_def submit_books_def submit_view_def hash_WMT crossed_def crosses_def
      no_books_def Let_def)

lemma run_colliding:
  "MatchReport (mk_order 2 100 0 True sym_MRK) (mk_order 1 100 0 False sym_WMT) 10
    \<in> set (fst (run_books colliding no_books))"
  by (simp add: colliding_def submit_books_def submit_view_def hash_WMT hash_MRK crosses_def no_books_def
      fill_events_def Let_def reduce_by_def mk_order_def)

text \<open>With a single slot, the second order of the first run is dropped.\<close>

lemma accepted_sell_buy:
  "accepted (slot_acquire 1) slot_release sell_buy engine0 = [mk_order 1 100 10 False sym_WMT]"
  by (simp add: sell_buy_def engine0_def engine_new_def submitOrder_def slot_acquire_def hash_WMT matchOrder_def
      matchLoop.simps Let_def)

lemma engine0_run:
  assumes "\<And>ord. ord \<in> set ords \<Longrightarrow> symbol_wf (eo_symbol ord) \<and> 0 < eo_quantity ord" "length ords \<le> 4"
  shows "\<exists>e'. submit_all (slot_acquire 4) slot_release ords engine0 = Some e'
    \<and> book_view e' = snd (run_books ords no_books) \<and> en_log e' = fst (run_books ords no_books)"
  using submit_all_room [OF engine0_ok(1) slot_pool_spec, of ords 4 4] slot_pool_room [of 4] assms
  by (auto simp: engine0_ok)

end
