(* ===== verification/SymbolHash.thy ===== *)
theory SymbolHash
  imports EngineCases
begin

unbundle bit_operations_syntax

text \<open>
  What \<open>hashSymbol\<close> of \<^verbatim>\<open>MatchingEngine.h\<close> computes: of the 64 bits of the FNV-1a hash only the
  lowest ten are used, and these depend on nothing above them, so a hash with ten bits of state is
  an equivalent reference.
\<close>

definition small_step :: "u8 \<Rightarrow> 10 word \<Rightarrow> 10 word" where
  "small_step c h = (h XOR scast c) * 435"

definition small_hash :: "u8 list \<Rightarrow> nat" where
  "small_hash symbol = unat (fold small_step (takeWhile (\<lambda>c. c \<noteq> 0) symbol) 805)"

lemma take_bit_10_mult: "take_bit 10 (take_bit 64 a * take_bit 64 b) = take_bit 10 (a * b :: int)"
  using take_bit_mult [of 10 "take_bit 64 a" "take_bit 64 b"] take_bit_mult [of 10 a b] by simp

lemma ucast_mult_10: "(ucast (a * b :: u64) :: 10 word) = ucast a * ucast b"
  by transfer (simp add: take_bit_10_mult)

lemma ucast_xor_10: "(ucast (a XOR b :: u64) :: 10 word) = ucast a XOR ucast b"
  by (rule bit_word_eqI) (auto simp: bit_simps)

lemma ucast_scast_10: "(ucast (scast (c :: u8) :: u64) :: 10 word) = scast c"
  by (rule bit_word_eqI) (auto simp: bit_simps)

lemma unat_mod_1024: "unat (h mod 1024 :: u64) = unat (ucast h :: 10 word)"
  by (simp add: unat_mod_distrib unsigned_ucast_eq take_bit_eq_mod)

text \<open>One round of the loop, seen in the lowest ten bits.\<close>

lemma small_step_ucast:
  "ucast ((h XOR scast c) * 1099511628211 :: u64) = small_step c (ucast h)"
proof -
  have "(ucast (1099511628211 :: u64) :: 10 word) = 435" by simp
  then show ?thesis unfolding small_step_def ucast_mult_10 ucast_xor_10 ucast_scast_10 by (simp only:)
qed

lemma fnv1a_small:
  assumes "0 \<in> set (drop i s)" "length s = 16"
  shows "map_option (ucast :: u64 \<Rightarrow> 10 word) (fnv1a s i h)
    = Some (fold small_step (takeWhile (\<lambda>c. c \<noteq> 0) (drop i s)) (ucast h))"
  using assms(1)
proof (induction "length s - i" arbitrary: i h)
  case 0
  then show ?case by simp
next
  case (Suc n)
  then have i: "i < length s" by simp
  then have d: "drop i s = s ! i # drop (Suc i) s" by (simp add: Cons_nth_drop_Suc)
  have unfold: "fnv1a s i h = (if s ! i \<noteq> 0 then fnv1a s (Suc i) ((h XOR scast (s ! i)) * 1099511628211) else Some h)"
    using i assms(2) by (subst fnv1a.simps) (simp add: array_get_def)
  show ?case
  proof (cases "s ! i = 0")
    case True
    then show ?thesis using unfold d by simp
  next
    case False
    then have "0 \<in> set (drop (Suc i) s)" using Suc.prems d by auto
    moreover have "n = length s - Suc i" using Suc.hyps(2) by simp
    ultimately show ?thesis
      using Suc.hyps(1) [of "Suc i" "(h XOR scast (s ! i)) * 1099511628211"] False unfold d
      unfolding small_step_ucast by simp
  qed
qed

text \<open>The reference computes the same book for every symbol with a terminator.\<close>

lemma hashSymbol_small:
  assumes "symbol_wf s"
  shows "hashSymbol s = Some (small_hash s)"
proof -
  have s: "0 \<in> set (drop 0 s)" "length s = 16" using assms by (auto simp: symbol_wf_def MAX_SYMBOL_LENGTH_def)
  have start: "(ucast (14695981039346656037 :: u64) :: 10 word) = 805" by simp
  obtain h where h: "fnv1a s 0 14695981039346656037 = Some h"
    "ucast h = fold small_step (takeWhile (\<lambda>c. c \<noteq> 0) s) (805 :: 10 word)"
    using fnv1a_small [OF s, of 14695981039346656037] unfolding start by (auto simp: map_option_case split: option.splits)
  then show ?thesis by (simp add: hashSymbol_def small_hash_def unat_mod_1024)
qed

text \<open>So among any 1025 symbols two share a book.\<close>

lemma symbols_share:
  assumes "finite S" "1024 < card S" "\<And>s. s \<in> S \<Longrightarrow> symbol_wf s"
  shows "\<exists>s \<in> S. \<exists>s' \<in> S. s \<noteq> s' \<and> hashSymbol s = hashSymbol s'"
proof (rule ccontr)
  assume "\<not> ?thesis"
  then have inj: "inj_on small_hash S" using hashSymbol_small [OF assms(3)] by (fastforce simp: inj_on_def)
  have "small_hash ` S \<subseteq> {..<1024}"
    using unsigned_less [where ?'a = nat and ?'b = 10] by (auto simp: small_hash_def)
  from card_mono [OF _ this] have "card S \<le> 1024" using card_image [OF inj] by simp
  with assms(2) show False by simp
qed

section \<open>The standard hash\<close>

text \<open>FNV-1a as it is published, over unsigned bytes.\<close>

definition reference_fnv1a :: "u8 list \<Rightarrow> u64" where
  "reference_fnv1a bytes = fold (\<lambda>c h. (h XOR ucast c) * 1099511628211) bytes 14695981039346656037"

lemma scast_ascii: "c < 128 \<Longrightarrow> (scast (c :: u8) :: u64) = ucast c"
proof -
  assume "c < 128"
  then have "\<not> bit c 7" by (simp add: bit_iff_odd_drop_bit drop_bit_eq_div word_less_nat_alt unat_arith_simps word_arith_nat_div)
  moreover have "\<not> bit c n" if "7 < n" for n using bit_imp_le_length [of c n] that by auto
  ultimately have "\<not> bit c n" if "7 \<le> n" for n using that by (cases "n = 7") auto
  then show ?thesis by (intro bit_word_eqI) (auto simp: bit_simps min_def)
qed

lemma fnv1a_reference:
  assumes "0 \<in> set (drop i s)" "length s = 16" "\<forall>c \<in> set s. c < 128"
  shows "fnv1a s i h = Some (fold (\<lambda>c h. (h XOR ucast c) * 1099511628211) (takeWhile (\<lambda>c. c \<noteq> 0) (drop i s)) h)"
  using assms(1)
proof (induction "length s - i" arbitrary: i h)
  case 0
  then show ?case by simp
next
  case (Suc n)
  then have i: "i < length s" by simp
  then have d: "drop i s = s ! i # drop (Suc i) s" by (simp add: Cons_nth_drop_Suc)
  have unfold: "fnv1a s i h = (if s ! i \<noteq> 0 then fnv1a s (Suc i) ((h XOR ucast (s ! i)) * 1099511628211) else Some h)"
    using i assms(2,3) by (subst fnv1a.simps) (simp add: array_get_def scast_ascii)
  show ?case
  proof (cases "s ! i = 0")
    case True
    then show ?thesis using unfold d by simp
  next
    case False
    then have "0 \<in> set (drop (Suc i) s)" using Suc.prems d by auto
    moreover have "n = length s - Suc i" using Suc.hyps(2) by simp
    ultimately show ?thesis
      using Suc.hyps(1) [of "Suc i" "(h XOR ucast (s ! i)) * 1099511628211"] False unfold d by simp
  qed
qed

text \<open>On ASCII symbols the code computes the standard hash; on a byte above it does not.\<close>

lemma hashSymbol_reference:
  assumes "symbol_wf s" "\<forall>c \<in> set s. c < 128"
  shows "hashSymbol s = Some (unat (reference_fnv1a (takeWhile (\<lambda>c. c \<noteq> 0) s) mod 1024))"
proof -
  have s: "0 \<in> set (drop 0 s)" "length s = 16" using assms(1) by (auto simp: symbol_wf_def MAX_SYMBOL_LENGTH_def)
  from fnv1a_reference [OF s assms(2)] show ?thesis by (simp add: hashSymbol_def reference_fnv1a_def)
qed

definition sym_high :: "u8 list" where
  "sym_high = 200 # replicate 15 0"

lemma hashSymbol_high:
  "symbol_wf sym_high" "hashSymbol sym_high \<noteq> Some (unat (reference_fnv1a (takeWhile (\<lambda>c. c \<noteq> 0) sym_high) mod 1024))"
proof -
  show "symbol_wf sym_high" by (simp add: symbol_wf_def sym_high_def MAX_SYMBOL_LENGTH_def)
  show "hashSymbol sym_high \<noteq> Some (unat (reference_fnv1a (takeWhile (\<lambda>c. c \<noteq> 0) sym_high) mod 1024))"
    by code_simp
qed

end
