(* ===== verification/EngineThrows.thy ===== *)
theory EngineThrows
  imports EngineCases
begin

text \<open>
  The engine of \<^verbatim>\<open>libs/match/MatchingEngine.h\<close> with callbacks that throw. They are called in the
  middle of the matching loop, after the quantities have changed and before the books and the pool
  are put in order, and nothing catches the exception. An empty \<open>std::function\<close> throws when it is
  called; nothing checks the two of \<open>MatchingEngineConfig\<close>.

  \<open>throws n ev\<close> says whether the \<open>n\<close>-th call of a callback throws when it is given \<open>ev\<close>. A call
  that throws is not recorded in the log.
\<close>

section \<open>The configuration\<close>

text \<open>Of the callbacks the record says whether they can be called.\<close>

record engine_config =
  cf_maxOrders :: nat
  cf_executionReportCb :: bool
  cf_matchReportCb :: bool

definition engine_of_config ::
  "(nat \<Rightarrow> 'pool) \<Rightarrow> ('ptr \<Rightarrow> eng_order) \<Rightarrow> engine_config \<Rightarrow> ('ptr, 'pool) engine" where
  "engine_of_config make_pool mem config = engine_new (make_pool (cf_maxOrders config)) mem"

definition config_throws :: "engine_config \<Rightarrow> nat \<Rightarrow> event \<Rightarrow> bool" where
  "config_throws config n ev = (case ev of
     ExecReport _ _ \<Rightarrow> \<not> cf_executionReportCb config
   | MatchReport _ _ _ \<Rightarrow> \<not> cf_matchReportCb config)"

section \<open>Operations\<close>

text \<open>One callback after the other, up to the first that throws.\<close>

fun call_all :: "(nat \<Rightarrow> event \<Rightarrow> bool) \<Rightarrow> event list \<Rightarrow> event list \<Rightarrow> event list \<times> bool" where
  "call_all throws log [] = (log, False)"
| "call_all throws log (ev # evs) =
     (if throws (length log) ev then (log, True) else call_all throws (log @ [ev]) evs)"

datatype loop_exit = Loop_Ended | Loop_Returned | Loop_Thrown

function matchLoop_ex ::
  "(nat \<Rightarrow> event \<Rightarrow> bool) \<Rightarrow> ('ptr \<Rightarrow> 'pool \<Rightarrow> 'pool) \<Rightarrow> 'ptr \<Rightarrow> nat \<Rightarrow> 'ptr list \<Rightarrow> ('ptr \<Rightarrow> eng_order) \<Rightarrow> 'pool
    \<Rightarrow> event list \<Rightarrow> 'ptr list \<times> ('ptr \<Rightarrow> eng_order) \<times> 'pool \<times> event list \<times> loop_exit" where
  "matchLoop_ex throws release incoming i oppositeSide mem pool log =
     (if i < length oppositeSide then
        let resting = oppositeSide ! i in
        if crosses (mem incoming) (mem resting) then
          let fillQty = min (eo_quantity (mem incoming)) (eo_quantity (mem resting));
              mem1 = mem(incoming := reduce_by fillQty (mem incoming));
              mem2 = mem1(resting := reduce_by fillQty (mem1 resting));
              called = call_all throws log [ExecReport (mem2 incoming) fillQty, ExecReport (mem2 resting) fillQty,
                            MatchReport (mem2 incoming) (mem2 resting) fillQty];
              used = (eo_quantity (mem2 resting) = 0);
              pool2 = (if used then release resting pool else pool);
              opposite2 = (if used then take i oppositeSide @ drop (Suc i) oppositeSide
                           else oppositeSide);
              i2 = (if used then i else Suc i)
          in if snd called then (oppositeSide, mem2, pool, fst called, Loop_Thrown)
             else if eo_quantity (mem2 incoming) = 0
             then (opposite2, mem2, release incoming pool2, fst called, Loop_Returned)
             else matchLoop_ex throws release incoming i2 opposite2 mem2 pool2 (fst called)
        else (oppositeSide, mem, pool, log, Loop_Ended)
      else (oppositeSide, mem, pool, log, Loop_Ended))"
  by pat_completeness auto
termination
  by (relation "measure (\<lambda>(throws, release, incoming, i, oppositeSide, mem, pool, log). length oppositeSide - i)")
    auto

declare matchLoop_ex.simps [simp del]

text \<open>The result says whether an exception left the function.\<close>

definition matchOrder_ex ::
  "(nat \<Rightarrow> event \<Rightarrow> bool) \<Rightarrow> ('ptr \<Rightarrow> 'pool \<Rightarrow> 'pool) \<Rightarrow> nat \<Rightarrow> 'ptr \<Rightarrow> ('ptr, 'pool) engine
    \<Rightarrow> ('ptr, 'pool) engine \<times> bool" where
  "matchOrder_ex throws release k incoming e =
     (let book = en_books e k;
          isBuy = eo_isBuy (en_mem e incoming);
          oppositeSide = (if isBuy then sellOrders book else buyOrders book);
          (opposite2, mem2, pool2, log2, exit) =
            matchLoop_ex throws release incoming 0 oppositeSide (en_mem e) (en_pool e) (en_log e);
          book2 = (if isBuy then book\<lparr>sellOrders := opposite2\<rparr> else book\<lparr>buyOrders := opposite2\<rparr>);
          book3 = (if exit = Loop_Ended \<and> eo_quantity (mem2 incoming) > 0
                   then (if eo_isBuy (mem2 incoming)
                         then book2\<lparr>buyOrders := buyOrders book2 @ [incoming]\<rparr>
                         else book2\<lparr>sellOrders := sellOrders book2 @ [incoming]\<rparr>)
                   else book2)
      in (e\<lparr>en_books := (en_books e)(k := book3), en_mem := mem2, en_pool := pool2, en_log := log2\<rparr>,
          exit = Loop_Thrown))"

definition submitOrder_ex ::
  "(nat \<Rightarrow> event \<Rightarrow> bool) \<Rightarrow> ('pool \<Rightarrow> 'ptr option \<times> 'pool) \<Rightarrow> ('ptr \<Rightarrow> 'pool \<Rightarrow> 'pool) \<Rightarrow> eng_order
    \<Rightarrow> ('ptr, 'pool) engine \<Rightarrow> (('ptr, 'pool) engine \<times> bool) option" where
  "submitOrder_ex throws acquire release ord e =
     (case acquire (en_pool e) of
        (None, pool1) \<Rightarrow> Some (e\<lparr>en_pool := pool1\<rparr>, False)
      | (Some newOrder, pool1) \<Rightarrow>
          (let e1 = e\<lparr>en_pool := pool1, en_mem := (en_mem e)(newOrder := ord)\<rparr>
           in case hashSymbol (eo_symbol ord) of
                None \<Rightarrow> None
              | Some k \<Rightarrow> Some (matchOrder_ex throws release k newOrder e1)))"

section \<open>Against the run without exceptions\<close>

text \<open>
  \<open>stops throws log L n\<close>: of the calls that would make the log \<open>L\<close> out of \<open>log\<close>, number \<open>n\<close> is the first
  that throws.
\<close>

definition stops :: "(nat \<Rightarrow> event \<Rightarrow> bool) \<Rightarrow> event list \<Rightarrow> event list \<Rightarrow> nat \<Rightarrow> bool" where
  "stops throws log L n \<longleftrightarrow> length log \<le> n \<and> n < length L \<and> throws n (L ! n)
     \<and> (\<forall>m. length log \<le> m \<and> m < n \<longrightarrow> \<not> throws m (L ! m))"

definition undisturbed :: "(nat \<Rightarrow> event \<Rightarrow> bool) \<Rightarrow> event list \<Rightarrow> event list \<Rightarrow> bool" where
  "undisturbed throws log L \<longleftrightarrow> (\<forall>m. length log \<le> m \<and> m < length L \<longrightarrow> \<not> throws m (L ! m))"

lemma stops_later:
  assumes "undisturbed throws log (log @ evs)" "stops throws (log @ evs) ((log @ evs) @ later) n"
  shows "stops throws log ((log @ evs) @ later) n"
proof -
  have "\<not> throws m (((log @ evs) @ later) ! m)" if "length log \<le> m" "m < length (log @ evs)" for m
    using assms(1) that by (auto simp: undisturbed_def nth_append)
  with assms(2) show ?thesis unfolding stops_def by (metis le_trans length_append linorder_not_less le_add1)
qed

lemma undisturbed_append:
  "undisturbed throws log (log @ evs) \<Longrightarrow> undisturbed throws (log @ evs) ((log @ evs) @ later) \<Longrightarrow> undisturbed throws log ((log @ evs) @ later)"
  unfolding undisturbed_def by (metis length_append linorder_not_less nth_append)

lemma stops_front:
  assumes "stops throws log (log @ evs) n"
  shows "stops throws log ((log @ evs) @ later) n \<and> take n ((log @ evs) @ later) = take n (log @ evs)"
  using assms by (auto simp: stops_def nth_append)

lemma call_all_result:
  "call_all throws log evs = (log', threw) \<Longrightarrow>
    (if threw then \<exists>n. stops throws log (log @ evs) n \<and> log' = take n (log @ evs)
     else log' = log @ evs \<and> undisturbed throws log (log @ evs))"
proof (induction evs arbitrary: log)
  case (Cons ev evs)
  show ?case
  proof (cases "throws (length log) ev")
    case True
    then have "stops throws log (log @ ev # evs) (length log)" by (auto simp: stops_def)
    with True Cons.prems show ?thesis by auto
  next
    case False
    then have c: "undisturbed throws log (log @ [ev])"
      by (auto simp: undisturbed_def nth_append less_Suc_eq_le dest: le_antisym)
    have "if threw then \<exists>n. stops throws (log @ [ev]) ((log @ [ev]) @ evs) n \<and> log' = take n ((log @ [ev]) @ evs)
        else log' = (log @ [ev]) @ evs \<and> undisturbed throws (log @ [ev]) ((log @ [ev]) @ evs)"
      by (rule Cons.IH) (use Cons.prems False in simp)
    then show ?thesis using stops_later [OF c, of evs] undisturbed_append [OF c, of evs] by (auto split: if_splits)
  qed
qed (auto simp: undisturbed_def)

lemma matchLoop_log:
  "matchLoop release incoming i opp mem pool log = (opp', mem', pool', L, ret) \<Longrightarrow> \<exists>evs. L = log @ evs"
proof (induction release incoming i opp mem pool log rule: matchLoop.induct)
  case (1 release incoming i opp mem pool log)
  show ?case
    using "1.prems" "1.IH" by (subst (asm) matchLoop.simps) (fastforce simp: Let_def split: if_splits)
qed

text \<open>
  The loop makes the calls of the undisturbed loop up to the first that throws, and is that loop
  when none does.
\<close>

lemma matchLoop_ex_log:
  assumes "matchLoop_ex throws release incoming i opp mem pool log = (opp', mem', pool', log', exit)"
    and "matchLoop release incoming i opp mem pool log = (opp1, mem1, pool1, L, ret)"
  shows "if exit = Loop_Thrown then \<exists>n. stops throws log L n \<and> log' = take n L
    else opp' = opp1 \<and> mem' = mem1 \<and> pool' = pool1 \<and> log' = L \<and> (exit = Loop_Returned \<longleftrightarrow> ret) \<and> undisturbed throws log L"
  using assms
proof (induction throws release incoming i opp mem pool log rule: matchLoop_ex.induct)
  case (1 throws release incoming i opp mem pool log)
  let ?r = "opp ! i"
  show ?case
  proof (cases "i < length opp \<and> crosses (mem incoming) (mem ?r)")
    case False
    have "matchLoop_ex throws release incoming i opp mem pool log = (opp, mem, pool, log, Loop_Ended)"
      using False by (subst matchLoop_ex.simps) (auto simp: Let_def)
    moreover have "matchLoop release incoming i opp mem pool log = (opp, mem, pool, log, False)"
      using False by (subst matchLoop.simps) (auto simp: Let_def)
    ultimately show ?thesis using "1.prems" by (auto simp: undisturbed_def)
  next
    case True
    define f where "f = min (eo_quantity (mem incoming)) (eo_quantity (mem ?r))"
    define mem2 where "mem2 = (mem(incoming := reduce_by f (mem incoming)))(?r := reduce_by f ((mem(incoming := reduce_by f (mem incoming))) ?r))"
    define evs where "evs = [ExecReport (mem2 incoming) f, ExecReport (mem2 ?r) f, MatchReport (mem2 incoming) (mem2 ?r) f]"
    define used where "used = (eo_quantity (mem2 ?r) = 0)"
    define pool2 where "pool2 = (if used then release ?r pool else pool)"
    define opp2 where "opp2 = (if used then take i opp @ drop (Suc i) opp else opp)"
    define i2 where "i2 = (if used then i else Suc i)"
    obtain log2 threw where c: "call_all throws log evs = (log2, threw)" by fastforce
    note defs = f_def mem2_def evs_def used_def pool2_def opp2_def i2_def
    have ex: "matchLoop_ex throws release incoming i opp mem pool log
        = (if threw then (opp, mem2, pool, log2, Loop_Thrown)
           else if eo_quantity (mem2 incoming) = 0 then (opp2, mem2, release incoming pool2, log2, Loop_Returned)
           else matchLoop_ex throws release incoming i2 opp2 mem2 pool2 log2)"
      using True c by (subst matchLoop_ex.simps) (simp only: Let_def defs if_True fst_conv snd_conv simp_thms)
    have plain: "matchLoop release incoming i opp mem pool log
        = (if eo_quantity (mem2 incoming) = 0 then (opp2, mem2, release incoming pool2, log @ evs, True)
           else matchLoop release incoming i2 opp2 mem2 pool2 (log @ evs))"
      using True by (subst matchLoop.simps) (simp add: Let_def defs)
    obtain later where L: "L = (log @ evs) @ later"
      using "1.prems"(2) matchLoop_log [of release incoming i2 opp2 mem2 pool2 "log @ evs" opp1 mem1 pool1 L ret]
      by (auto simp: plain split: if_splits)
    note called = call_all_result [OF c]
    show ?thesis
    proof (cases threw)
      case True
      then obtain n where n: "stops throws log (log @ evs) n" "log2 = take n (log @ evs)" using called by auto
      have "exit = Loop_Thrown" "log' = log2" using "1.prems"(1) True by (simp_all add: ex)
      with stops_front [OF n(1), of later] n(2) show ?thesis unfolding L by metis
    next
      case False
      then have log2: "log2 = log @ evs" and undisturbed: "undisturbed throws log (log @ evs)" using called by auto
      show ?thesis
      proof (cases "eo_quantity (mem2 incoming) = 0")
        case True
        then show ?thesis using "1.prems" False log2 undisturbed by (auto simp: ex plain)
      next
        case go: False
        note IH = "1.IH" [OF conjunct1 [OF True] refl conjunct2 [OF True] f_def refl mem2_def _ used_def
              pool2_def opp2_def i2_def _ go, of "(log2, False)", unfolded fst_conv snd_conv]
        have "if exit = Loop_Thrown then \<exists>n. stops throws log2 L n \<and> log' = take n L
            else opp' = opp1 \<and> mem' = mem1 \<and> pool' = pool1 \<and> log' = L \<and> (exit = Loop_Returned \<longleftrightarrow> ret)
              \<and> undisturbed throws log2 L"
        proof (rule IH)
          show "(log2, False) = call_all throws log [ExecReport (mem2 incoming) f, ExecReport (mem2 ?r) f,
              MatchReport (mem2 incoming) (mem2 ?r) f]"
            using c False by (simp only: evs_def)
          show "matchLoop_ex throws release incoming i2 opp2 mem2 pool2 log2 = (opp', mem', pool', log', exit)"
            using "1.prems"(1) False go by (simp add: ex)
          show "matchLoop release incoming i2 opp2 mem2 pool2 log2 = (opp1, mem1, pool1, L, ret)"
            using "1.prems"(2) go by (simp add: plain log2)
        qed simp
        then show ?thesis using stops_later [OF undisturbed, of later] undisturbed_append [OF undisturbed, of later]
          by (auto simp: L log2 split: if_splits)
      qed
    qed
  qed
qed

section \<open>What an exception leaves behind\<close>

text \<open>
  The loop has left: addresses that it took out are given back, the others are still there, and at
  most one of them is that of an order that is used up.
\<close>

definition loop_left ::
  "('pool \<Rightarrow> 'ptr set) \<Rightarrow> 'ptr \<Rightarrow> 'ptr list \<Rightarrow> ('ptr \<Rightarrow> eng_order) \<Rightarrow> 'pool \<Rightarrow> 'ptr list \<Rightarrow> ('ptr \<Rightarrow> eng_order) \<Rightarrow> 'pool \<Rightarrow> bool" where
  "loop_left live incoming opp mem pool opp' mem' pool' \<longleftrightarrow>
     set opp' \<subseteq> set opp \<and> distinct opp' \<and> live pool' = live pool - (set opp - set opp')
   \<and> (\<forall>p. p \<noteq> incoming \<longrightarrow> p \<notin> set opp \<longrightarrow> mem' p = mem p) \<and> (\<forall>p. eo_isBuy (mem' p) = eo_isBuy (mem p))
   \<and> (\<forall>p \<in> set opp'. \<forall>q \<in> set opp'. eo_quantity (mem' p) = 0 \<and> eo_quantity (mem' q) = 0 \<longrightarrow> p = q)"

lemma loop_left_one_fill:
  assumes "distinct opp" "r \<in> set opp" "incoming \<notin> set opp" "\<And>p. p \<in> set opp \<Longrightarrow> 0 < eo_quantity (mem p)"
  shows "loop_left live incoming opp mem pool opp
    ((mem(incoming := reduce_by f (mem incoming)))(r := reduce_by f (mem r))) pool"
  using assms by (fastforce simp: loop_left_def)

lemma loop_left_used:
  assumes "loop_left live incoming opp2 mem2 pool2 opp' mem' pool'"
    and "set opp2 = set opp - {r}" "r \<in> set opp" "live pool2 = live pool - {r}"
    and "\<And>p. p \<noteq> incoming \<Longrightarrow> p \<noteq> r \<Longrightarrow> mem2 p = mem p" "\<And>p. eo_isBuy (mem2 p) = eo_isBuy (mem p)"
  shows "loop_left live incoming opp mem pool opp' mem' pool'"
  using assms unfolding loop_left_def by auto

lemma take_drop_without:
  assumes "distinct xs" "i < length xs"
  shows "set (take i xs @ drop (Suc i) xs) = set xs - {xs ! i}" "distinct (take i xs @ drop (Suc i) xs)"
proof -
  have xs: "xs = take i xs @ xs ! i # drop (Suc i) xs" using assms(2) by (simp add: id_take_nth_drop)
  then have d: "distinct (take i xs @ xs ! i # drop (Suc i) xs)" using assms(1) by simp
  then show "distinct (take i xs @ drop (Suc i) xs)" by simp
  have "set xs = set (take i xs @ drop (Suc i) xs) \<union> {xs ! i}" by (subst xs) auto
  with d show "set (take i xs @ drop (Suc i) xs) = set xs - {xs ! i}" by auto
qed

lemma matchLoop_ex_thrown:
  assumes "pool_spec acquire release live"
    and "matchLoop_ex throws release incoming i opp mem pool log = (opp', mem', pool', log', Loop_Thrown)"
    and "incoming \<notin> set opp" "distinct opp" "set opp \<subseteq> live pool" "\<And>p. p \<in> set opp \<Longrightarrow> 0 < eo_quantity (mem p)"
  shows "loop_left live incoming opp mem pool opp' mem' pool'"
  using assms
proof (induction throws release incoming i opp mem pool log rule: matchLoop_ex.induct)
  case (1 throws release incoming i opp mem pool log)
  let ?r = "opp ! i"
  show ?case
  proof (cases "i < length opp \<and> crosses (mem incoming) (mem ?r)")
    case False
    have "matchLoop_ex throws release incoming i opp mem pool log = (opp, mem, pool, log, Loop_Ended)"
      using False by (subst matchLoop_ex.simps) (auto simp: Let_def)
    with "1.prems"(2) show ?thesis by simp
  next
    case True
    define f where "f = min (eo_quantity (mem incoming)) (eo_quantity (mem ?r))"
    define mem2 where "mem2 = (mem(incoming := reduce_by f (mem incoming)))(?r := reduce_by f ((mem(incoming := reduce_by f (mem incoming))) ?r))"
    define used where "used = (eo_quantity (mem2 ?r) = 0)"
    define pool2 where "pool2 = (if used then release ?r pool else pool)"
    define opp2 where "opp2 = (if used then take i opp @ drop (Suc i) opp else opp)"
    define i2 where "i2 = (if used then i else Suc i)"
    define called where "called = call_all throws log [ExecReport (mem2 incoming) f, ExecReport (mem2 ?r) f,
      MatchReport (mem2 incoming) (mem2 ?r) f]"
    note defs = f_def mem2_def called_def used_def pool2_def opp2_def i2_def
    have ex: "matchLoop_ex throws release incoming i opp mem pool log
        = (if snd called then (opp, mem2, pool, fst called, Loop_Thrown)
           else if eo_quantity (mem2 incoming) = 0 then (opp2, mem2, release incoming pool2, fst called, Loop_Returned)
           else matchLoop_ex throws release incoming i2 opp2 mem2 pool2 (fst called))"
      using True by (subst matchLoop_ex.simps) (simp only: Let_def defs if_True simp_thms)
    have r: "?r \<in> set opp" "?r \<noteq> incoming" using True "1.prems"(3) nth_mem by blast+
    then have mem2: "mem2 = (mem(incoming := reduce_by f (mem incoming)))(?r := reduce_by f (mem ?r))"
      by (simp add: mem2_def)
    show ?thesis
    proof (cases "snd called")
      case True
      have "loop_left live incoming opp mem pool opp mem2 pool"
        unfolding mem2 by (rule loop_left_one_fill [OF "1.prems"(4) r(1) "1.prems"(3)]) (rule "1.prems"(6))
      with "1.prems"(2) True show ?thesis by (simp add: ex)
    next
      case False
      then have go: "eo_quantity (mem2 incoming) \<noteq> 0" using "1.prems"(2) by (auto simp: ex)
      then have used using r(2) fill_uses_one [where a = "eo_quantity (mem incoming)" and b = "eo_quantity (mem ?r)"]
        by (auto simp: used_def mem2 f_def)
      then have opp2: "set opp2 = set opp - {?r}" "distinct opp2" and pool2: "pool2 = release ?r pool"
        using take_drop_without [OF "1.prems"(4)] True by (simp_all add: opp2_def pool2_def)
      have "?r \<in> live pool" using "1.prems"(5) r(1) by auto
      then have live: "live pool2 = live pool - {?r}" using pool_spec_release [OF "1.prems"(1)] pool2 by simp
      have "loop_left live incoming opp2 mem2 pool2 opp' mem' pool'"
      proof (rule "1.IH" [OF conjunct1 [OF True] refl conjunct2 [OF True] f_def refl mem2_def called_def used_def
            pool2_def opp2_def i2_def False go])
        show "matchLoop_ex throws release incoming i2 opp2 mem2 pool2 (fst called) = (opp', mem', pool', log', Loop_Thrown)"
          using "1.prems"(2) False go by (simp add: ex)
        show "0 < eo_quantity (mem2 p)" if "p \<in> set opp2" for p
          using that opp2(1) "1.prems"(3,6) by (auto simp: mem2)
      qed (use opp2 live "1.prems"(1,3,5) in auto)
      then show ?thesis
        by (rule loop_left_used [where live = live and pool = pool, OF _ opp2(1) r(1) live]) (auto simp: mem2)
    qed
  qed
qed

section \<open>Submitting an order\<close>

text \<open>
  An engine an exception has left: every address is in one place, but the address \<open>a\<close> of the incoming
  order, which the pool has given out, is in none, and one resting order may have no quantity.
\<close>

definition interrupted :: "('pool \<Rightarrow> 'ptr set) \<Rightarrow> 'ptr \<Rightarrow> ('ptr, 'pool) engine \<Rightarrow> bool" where
  "interrupted live a e \<longleftrightarrow>
     (\<forall>k. distinct (book_ptrs (en_books e k)))
   \<and> (\<forall>j k. j \<noteq> k \<longrightarrow> set (book_ptrs (en_books e j)) \<inter> set (book_ptrs (en_books e k)) = {})
   \<and> (\<forall>k. set (book_ptrs (en_books e k)) \<subseteq> live (en_pool e))
   \<and> (\<forall>k d p. p \<in> set (same_side d (en_books e k)) \<longrightarrow> eo_isBuy (en_mem e p) = d)
   \<and> a \<in> live (en_pool e) \<and> (\<forall>k. a \<notin> set (book_ptrs (en_books e k)))
   \<and> (\<forall>j k p q. p \<in> set (book_ptrs (en_books e j)) \<and> q \<in> set (book_ptrs (en_books e k))
        \<and> eo_quantity (en_mem e p) = 0 \<and> eo_quantity (en_mem e q) = 0 \<longrightarrow> p = q)"

text \<open>The two loops run on the same side of the same book.\<close>

lemma matchOrder_ex_loop:
  assumes "matchLoop_ex throws release incoming 0 (opposite_side (eo_isBuy (en_mem e incoming)) (en_books e k))
      (en_mem e) (en_pool e) (en_log e) = (opp', mem', pool', log', exit)"
  shows "exit = Loop_Thrown \<Longrightarrow> matchOrder_ex throws release k incoming e
      = (e\<lparr>en_books := (en_books e)(k := make_book (eo_isBuy (en_mem e incoming))
            (same_side (eo_isBuy (en_mem e incoming)) (en_books e k)) opp'),
          en_mem := mem', en_pool := pool', en_log := log'\<rparr>, True)"
    and "snd (matchOrder_ex throws release k incoming e) \<longleftrightarrow> exit = Loop_Thrown"
  using assms
  by (auto simp: matchOrder_ex_def opposite_side_def same_side_def make_book_def Let_def)

lemma matchOrder_ex_log:
  "if snd (matchOrder_ex throws release k incoming e)
   then \<exists>n. stops throws (en_log e) (en_log (matchOrder release k incoming e)) n
     \<and> en_log (fst (matchOrder_ex throws release k incoming e)) = take n (en_log (matchOrder release k incoming e))
   else fst (matchOrder_ex throws release k incoming e) = matchOrder release k incoming e
     \<and> undisturbed throws (en_log e) (en_log (matchOrder release k incoming e))"
proof -
  define opp where "opp = (if eo_isBuy (en_mem e incoming) then sellOrders (en_books e k) else buyOrders (en_books e k))"
  obtain opp' mem' pool' log' exit where
    x: "matchLoop_ex throws release incoming 0 opp (en_mem e) (en_pool e) (en_log e) = (opp', mem', pool', log', exit)"
    by (metis prod_cases5)
  obtain opp1 mem1 pool1 L ret where
    y: "matchLoop release incoming 0 opp (en_mem e) (en_pool e) (en_log e) = (opp1, mem1, pool1, L, ret)"
    by (metis prod_cases5)
  have ended: "exit = Loop_Ended \<longleftrightarrow> exit \<noteq> Loop_Thrown \<and> exit \<noteq> Loop_Returned" by (cases exit) simp_all
  show ?thesis
    using matchLoop_ex_log [OF x y] x y
    by (auto simp: matchOrder_ex_def matchOrder_def opp_def [symmetric] Let_def ended split: if_splits)
qed

lemma matchOrder_ex_interrupted:
  assumes h: "holds_fresh live incoming e" and ps: "pool_spec acquire release live"
    and thrown: "snd (matchOrder_ex throws release k incoming e)"
  shows "interrupted live incoming (fst (matchOrder_ex throws release k incoming e))"
proof -
  define d where "d = eo_isBuy (en_mem e incoming)"
  let ?b = "en_books e k" and ?opp = "opposite_side d (en_books e k)"
  obtain opp' mem' pool' log' exit where
    x: "matchLoop_ex throws release incoming 0 ?opp (en_mem e) (en_pool e) (en_log e) = (opp', mem', pool', log', exit)"
    by (metis prod_cases5)
  note loop = matchOrder_ex_loop [OF x [unfolded d_def]]
  have exit: "exit = Loop_Thrown" using loop(2) thrown by simp
  define bs where "bs = (en_books e)(k := make_book d (same_side d ?b) opp')"
  have e': "fst (matchOrder_ex throws release k incoming e)
      = e\<lparr>en_books := bs, en_mem := mem', en_pool := pool', en_log := log'\<rparr>"
    using loop(1) [OF exit] by (simp add: d_def bs_def)
  have inv: "engine_inv live e" and inc: "incoming \<in> live (en_pool e)"
    and out: "\<And>j. incoming \<notin> set (book_ptrs (en_books e j))"
    using h by (auto simp: holds_fresh_def)
  note bk = engine_inv_book [OF inv]
  have opp: "incoming \<notin> set ?opp" "distinct ?opp" "set ?opp \<subseteq> live (en_pool e)"
    "set ?opp \<subseteq> set (book_ptrs ?b)" "set (same_side d ?b) \<subseteq> set (book_ptrs ?b)" "set (same_side d ?b) \<inter> set ?opp = {}"
    using out [of k] bk(1,2) [of k] by (auto simp: set_book_ptrs [of ?b d] distinct_book_ptrs [of ?b d])
  have pos: "0 < eo_quantity (en_mem e p)" if "p \<in> set ?opp" for p
    using bk(3) [of p "\<not> d" k] that by (simp add: opposite_same)
  have left: "loop_left live incoming ?opp (en_mem e) (en_pool e) opp' mem' pool'"
    by (rule matchLoop_ex_thrown [OF ps x [unfolded exit] opp(1-3) pos])
  have ptrs: "set (book_ptrs (bs j))
      = (if j = k then set (same_side d ?b) \<union> set opp' else set (book_ptrs (en_books e j)))" for j
    by (simp add: bs_def set_book_ptrs [of _ d])
  have sub: "set opp' \<subseteq> set ?opp" "distinct opp'" using left by (simp_all add: loop_left_def)
  then have ptrs_sub: "set (book_ptrs (bs j))
      \<subseteq> set (book_ptrs (en_books e j))" for j using opp(4,5) by (auto simp: ptrs)
  have same: "mem' p = en_mem e p" if "p \<in> set (book_ptrs (en_books e j))" "p \<notin> set ?opp" for p j
    using left that out [of j] unfolding loop_left_def by metis
  have elsewhere: "p \<notin> set ?opp" if "p \<in> set (book_ptrs (en_books e j))" "j \<noteq> k" for p j
    using bk(4) [OF that(2)] that(1) opp(4) by auto
  have zero: "p \<in> set opp'" if "p \<in> set (book_ptrs (bs j))"
    "eo_quantity (mem' p) = 0" for p j
  proof (rule ccontr)
    assume "p \<notin> set opp'"
    then have p: "p \<in> set (book_ptrs (en_books e j))" "p \<notin> set ?opp"
      using that(1) ptrs_sub [of j] elsewhere [of p j] opp(5,6) by (auto simp: ptrs split: if_splits)
    then obtain d' where "p \<in> set (same_side d' (en_books e j))"
      using set_book_ptrs [of "en_books e j" True] by (auto simp: opposite_same)
    with bk(3) [of p d' j] same [OF p] that(2) show False by simp
  qed
  have live: "set (book_ptrs (bs j)) \<subseteq> live pool'" for j
  proof
    fix p assume p: "p \<in> set (book_ptrs (bs j))"
    then have "p \<in> set opp' \<or> p \<notin> set ?opp"
      using elsewhere [of p j] opp(6) by (auto simp: ptrs split: if_splits)
    moreover have "p \<in> live (en_pool e)" using p ptrs_sub [of j] bk(2) [of j] by blast
    ultimately show "p \<in> live pool'" using left by (auto simp: loop_left_def)
  qed
  have sides: "eo_isBuy (mem' p) = d'"
    if "p \<in> set (same_side d' (bs j))" for p d' j
  proof -
    have "p \<in> set (same_side d' (en_books e j))"
      using that sub(1) by (cases "d' = d"; cases "j = k") (auto simp: bs_def opposite_same)
    with bk(3) [of p d' j] left show ?thesis by (simp add: loop_left_def)
  qed
  have "p = q" if "p \<in> set opp'" "q \<in> set opp'" "eo_quantity (mem' p) = 0" "eo_quantity (mem' q) = 0" for p q
    using left that unfolding loop_left_def by blast
  then show ?thesis unfolding e' interrupted_def
  proof (intro conjI, goal_cases)
    case 1
    show ?case using bk(1) sub opp(6) by (auto simp: bs_def distinct_book_ptrs [of _ d])
  next
    case 2
    show ?case using ptrs_sub bk(4) by simp blast
  next
    case 5
    show ?case using left inc opp(1) by (auto simp: loop_left_def)
  next
    case 6
    show ?case using ptrs_sub out by simp blast
  next
    case 7
    then show ?case using zero by simp blast
  qed (use live sides in simp_all)
qed

lemma submitOrder_ex_result:
  assumes inv: "engine_inv live e" and ps: "pool_spec acquire release live" and sym: "symbol_wf (eo_symbol ord)"
  shows "\<exists>e1 e' thrown. submitOrder acquire release ord e = Some e1
    \<and> submitOrder_ex throws acquire release ord e = Some (e', thrown)
    \<and> (if thrown
       then (\<exists>n. stops throws (en_log e) (en_log e1) n \<and> en_log e' = take n (en_log e1))
         \<and> (\<exists>a p. acquire (en_pool e) = (Some a, p) \<and> interrupted live a e')
       else e' = e1 \<and> undisturbed throws (en_log e) (en_log e1))"
proof (cases "acquire (en_pool e)")
  case (Pair r p)
  obtain k where k: "hashSymbol (eo_symbol ord) = Some k" using sym by (rule symbol_wf_hash)
  show ?thesis
  proof (cases r)
    case None
    with Pair show ?thesis
      by (intro exI [of _ "e\<lparr>en_pool := p\<rparr>"] exI [of _ False])
        (auto simp: submitOrder_def submitOrder_ex_def undisturbed_def)
  next
    case (Some a)
    let ?e = "e\<lparr>en_pool := p, en_mem := (en_mem e)(a := ord)\<rparr>"
    have acq: "acquire (en_pool e) = (Some a, p)" using Pair Some by simp
    note h = holds_fresh_acquired(1) [OF inv ps acq, of ord]
    obtain e' thrown where e': "matchOrder_ex throws release k a ?e = (e', thrown)" by fastforce
    have "submitOrder acquire release ord e = Some (matchOrder release k a ?e)"
      "submitOrder_ex throws acquire release ord e = Some (e', thrown)"
      using acq k e' by (simp_all add: submitOrder_def submitOrder_ex_def)
    with matchOrder_ex_log [of throws release k a ?e] matchOrder_ex_interrupted [OF h ps, of throws k] e' acq
    show ?thesis by (simp split: if_splits)
  qed
qed

text \<open>The first call is always that of the execution callback.\<close>

lemma fill_first_event:
  "fill inc rs = (ev # evs, left, rest) \<Longrightarrow> \<exists>ord q. ev = ExecReport ord q"
  by (cases rs) (auto simp: fill_events_def Let_def split: if_splits prod.splits)

lemma submit_books_first:
  assumes "fst (submit_books ord v) = ev # evs"
  shows "\<exists>ord' q. ev = ExecReport ord' q"
proof (cases "hashSymbol (eo_symbol ord)")
  case (Some k)
  obtain evs' left rest where f: "fill ord (v k (\<not> eo_isBuy ord)) = (evs', left, rest)" by (metis prod_cases3)
  with Some assms have "evs' = ev # evs" by (simp add: submit_books_def submit_view_def Let_def)
  with f fill_first_event show ?thesis by blast
qed (use assms in \<open>simp add: submit_books_def\<close>)

section \<open>The next order\<close>

text \<open>
  A sell that a buy uses up while the callback throws stays in the book without quantity. The next
  buy is matched with it, for a quantity of zero.
\<close>

definition sell_4 :: eng_order where "sell_4 = mk_order 1 100 4 False sym_WMT"
definition buy_10 :: eng_order where "buy_10 = mk_order 2 101 10 True sym_WMT"
definition buy_5 :: eng_order where "buy_5 = mk_order 3 101 5 True sym_WMT"

lemma zero_trade_run:
  "\<exists>e1 e2 e3. submitOrder (slot_acquire 4) slot_release sell_4 engine0 = Some e1
    \<and> submitOrder_ex (\<lambda>_ _. True) (slot_acquire 4) slot_release buy_10 e1 = Some (e2, True)
    \<and> en_log e2 = [] \<and> book_view e2 495 False = [mk_order 1 100 0 False sym_WMT] \<and> book_view e2 495 True = []
    \<and> submitOrder (slot_acquire 4) slot_release buy_5 e2 = Some e3
    \<and> MatchReport (mk_order 3 101 5 True sym_WMT) (mk_order 1 100 0 False sym_WMT) 0 \<in> set (en_log e3)"
  by (simp add: sell_4_def buy_10_def buy_5_def submitOrder_def submitOrder_ex_def matchOrder_def matchOrder_ex_def
      engine0_def engine_new_def slot_acquire_def slot_release_def upt_rec hash_WMT matchLoop.simps matchLoop_ex.simps
      crosses_def reduce_by_def mk_order_def book_view_def same_side_def Let_def)

lemma first_trade:
  "\<exists>e1 e2. submitOrder (slot_acquire 4) slot_release sell_4 engine0 = Some e1 \<and> engine_inv set e1 \<and> en_log e1 = []
    \<and> submitOrder (slot_acquire 4) slot_release buy_10 e1 = Some e2 \<and> en_log e2 \<noteq> []"
proof -
  have "symbol_wf (eo_symbol sell_4)" using symbols_wf by (simp add: sell_4_def)
  from submitOrder_step [OF engine0_ok(1) slot_pool_spec this, of 4]
  obtain e1 where "submitOrder (slot_acquire 4) slot_release sell_4 engine0 = Some e1" "engine_inv set e1" by blast
  moreover have "\<exists>e1 e2. submitOrder (slot_acquire 4) slot_release sell_4 engine0 = Some e1 \<and> en_log e1 = []
      \<and> submitOrder (slot_acquire 4) slot_release buy_10 e1 = Some e2 \<and> en_log e2 \<noteq> []"
    by (simp add: sell_4_def buy_10_def submitOrder_def matchOrder_def engine0_def engine_new_def slot_acquire_def
        slot_release_def upt_rec hash_WMT matchLoop.simps crosses_def reduce_by_def mk_order_def Let_def)
  ultimately show ?thesis by auto
qed

end
