(* ===== verification/EngineThreads.thy ===== *)
theory EngineThreads
  imports RelAcqRuns EngineCases
begin

text \<open>
  The engine behind the ring buffer. One thread publishes orders, another runs \<open>consumeLoop\<close> of
  \<^verbatim>\<open>SpScRingBufferConsumer.h\<close> with \<open>submitOrder\<close> of \<^verbatim>\<open>MatchingEngine.h\<close> as its callback; the ring buffer
  has the memory orders of the code, as in \<open>SpScRelAcq\<close>. The engine is part of the state, and only
  the consuming thread uses it.
\<close>

section \<open>State and steps\<close>

text \<open>
  Where the consuming thread is: at the condition of its loop, inside \<open>tryPop\<close>, at the call of the
  callback, or out of the loop.
\<close>

datatype loop_pc = Loop_Check | Loop_Pop | Loop_Call eng_order | Loop_Done

record ('ptr, 'pool) engine_threads =
  et_queue :: "eng_order weak_ring"
  et_pc :: loop_pc
  et_stop :: bool
  et_engine :: "('ptr, 'pool) engine"

definition engine_threads_new :: "eng_order list \<Rightarrow> ('ptr, 'pool) engine \<Rightarrow> ('ptr, 'pool) engine_threads" where
  "engine_threads_new b e = \<lparr>et_queue = weak_new b, et_pc = Loop_Check, et_stop = False, et_engine = e\<rparr>"

text \<open>
  A load of the buffer takes the store \<open>ts\<close>. \<open>seen\<close> is what \<open>stopRequested\<close> gives: the load may miss a
  request that was made. When the consumer of the ring buffer is idle again, \<open>tryPop\<close> has returned.
\<close>

definition loop_next ::
  "('pool \<Rightarrow> 'ptr option \<times> 'pool) \<Rightarrow> ('ptr \<Rightarrow> 'pool \<Rightarrow> 'pool) \<Rightarrow> nat \<Rightarrow> bool
    \<Rightarrow> ('ptr, 'pool) engine_threads \<Rightarrow> ('ptr, 'pool) engine_threads option" where
  "loop_next acquire release ts seen s =
     (case et_pc s of
        Loop_Check \<Rightarrow>
          if seen then (if et_stop s then Some (s\<lparr>et_pc := Loop_Done\<rparr>) else None) else Some (s\<lparr>et_pc := Loop_Pop\<rparr>)
      | Loop_Pop \<Rightarrow>
          map_option (\<lambda>q. s\<lparr>et_queue := q,
              et_pc := (if wr_cpc q \<noteq> C_Idle then Loop_Pop
                        else if wr_popped q = wr_popped (et_queue s) then Loop_Check
                        else Loop_Call (last (wr_popped q)))\<rparr>)
            (weak_consumer code_orders ts (et_queue s))
      | Loop_Call ord \<Rightarrow>
          map_option (\<lambda>e. s\<lparr>et_engine := e, et_pc := Loop_Check\<rparr>) (submitOrder acquire release ord (et_engine s))
      | Loop_Done \<Rightarrow> None)"

datatype engine_move = By_Feeder eng_order nat on_full bool | By_Loop nat bool | Ask_Stop

fun engine_next ::
  "('pool \<Rightarrow> 'ptr option \<times> 'pool) \<Rightarrow> ('ptr \<Rightarrow> 'pool \<Rightarrow> 'pool) \<Rightarrow> engine_move
    \<Rightarrow> ('ptr, 'pool) engine_threads \<Rightarrow> ('ptr, 'pool) engine_threads option" where
  "engine_next acquire release (By_Feeder ord ts full fails) s =
     map_option (\<lambda>q. s\<lparr>et_queue := q\<rparr>) (weak_producer code_orders ord ts full fails (et_queue s))"
| "engine_next acquire release (By_Loop ts seen) s = loop_next acquire release ts seen s"
| "engine_next acquire release Ask_Stop s = Some (s\<lparr>et_stop := True\<rparr>)"

text \<open>The symbols of the orders are terminated and their quantities positive.\<close>

definition proper_order :: "eng_order \<Rightarrow> bool" where
  "proper_order ord \<longleftrightarrow> symbol_wf (eo_symbol ord) \<and> 0 < eo_quantity ord"

fun proper_feed :: "engine_move \<Rightarrow> bool" where
  "proper_feed (By_Feeder ord ts full fails) \<longleftrightarrow> proper_order ord"
| "proper_feed _ \<longleftrightarrow> True"

inductive engine_moves ::
  "('pool \<Rightarrow> 'ptr option \<times> 'pool) \<Rightarrow> ('ptr \<Rightarrow> 'pool \<Rightarrow> 'pool)
    \<Rightarrow> ('ptr, 'pool) engine_threads \<Rightarrow> ('ptr, 'pool) engine_threads \<Rightarrow> bool"
  for acquire release where
  engine_moves: "proper_feed m \<Longrightarrow> engine_next acquire release m s = Some s' \<Longrightarrow> engine_moves acquire release s s'"

fun engine_run ::
  "('pool \<Rightarrow> 'ptr option \<times> 'pool) \<Rightarrow> ('ptr \<Rightarrow> 'pool \<Rightarrow> 'pool) \<Rightarrow> engine_move list
    \<Rightarrow> ('ptr, 'pool) engine_threads \<Rightarrow> ('ptr, 'pool) engine_threads option" where
  "engine_run acquire release [] s = Some s"
| "engine_run acquire release (m # ms) s = Option.bind (engine_next acquire release m s) (engine_run acquire release ms)"

lemma engine_run_steps:
  "engine_run acquire release ms s = Some s' \<Longrightarrow> (\<And>m. m \<in> set ms \<Longrightarrow> proper_feed m)
    \<Longrightarrow> (engine_moves acquire release)\<^sup>*\<^sup>* s s'"
proof (induction ms arbitrary: s)
  case (Cons m ms)
  then obtain s1 where s1: "engine_next acquire release m s = Some s1" "engine_run acquire release ms s1 = Some s'"
    by (auto simp: bind_eq_Some_conv)
  have "engine_moves acquire release s s1" using engine_moves.engine_moves [OF _ s1(1)] Cons.prems(2) by simp
  with Cons.IH [OF s1(2)] Cons.prems(2) show ?case by (simp add: converse_rtranclp_into_rtranclp)
qed simp

section \<open>The invariant\<close>

text \<open>The order that was popped and is not yet submitted.\<close>

fun to_submit :: "loop_pc \<Rightarrow> eng_order list" where
  "to_submit (Loop_Call ord) = [ord]"
| "to_submit _ = []"

text \<open>
  The engine is in the state to which the orders that were popped, but for the one in hand, have brought it,
  and every order on its way is proper.
\<close>

definition engine_threads_inv ::
  "('pool \<Rightarrow> 'ptr option \<times> 'pool) \<Rightarrow> ('ptr \<Rightarrow> 'pool \<Rightarrow> 'pool) \<Rightarrow> nat \<Rightarrow> ('ptr, 'pool) engine
    \<Rightarrow> ('ptr, 'pool) engine_threads \<Rightarrow> bool" where
  "engine_threads_inv acquire release c e0 s \<longleftrightarrow>
     weak_inv c (et_queue s)
   \<and> (\<forall>ord \<in> set_producer_pc (wr_ppc (et_queue s)) \<union> set (wr_pushed (et_queue s)). proper_order ord)
   \<and> (et_pc s \<noteq> Loop_Pop \<longrightarrow> wr_cpc (et_queue s) = C_Idle)
   \<and> (\<exists>submitted. wr_popped (et_queue s) = submitted @ to_submit (et_pc s)
        \<and> submit_all acquire release submitted e0 = Some (et_engine s))"

lemma engine_threads_inv_new:
  "b \<noteq> [] \<Longrightarrow> length b = c \<Longrightarrow> engine_threads_inv acquire release c e (engine_threads_new b e)"
  using weak_inv_new [of b] by (auto simp: engine_threads_inv_def engine_threads_new_def weak_new_def)

lemma engine_threads_inv_feed:
  assumes "engine_threads_inv acquire release c e0 s" "0 < c" "proper_order ord"
    and "weak_producer code_orders ord ts full fails (et_queue s) = Some q"
  shows "engine_threads_inv acquire release c e0 (s\<lparr>et_queue := q\<rparr>)"
proof -
  have "weak_inv c q" by (rule weak_inv_producer [OF _ assms(2,4)]) (use assms(1) in \<open>simp add: engine_threads_inv_def\<close>)
  moreover have "proper_order x" if "x \<in> set_producer_pc (wr_ppc q) \<union> set (wr_pushed q)" for x
    using weak_producer_items [OF assms(4)] that assms(1,3) by (auto simp: engine_threads_inv_def)
  ultimately show ?thesis
    using assms(1) weak_other_pc(1) [OF assms(4)] weak_producer_history [OF assms(4)]
    by (simp add: engine_threads_inv_def)
qed

lemma engine_threads_inv_loop:
  assumes "engine_threads_inv acquire release c e0 s" "0 < c" "loop_next acquire release ts seen s = Some s'"
  shows "engine_threads_inv acquire release c e0 s'"
proof (cases "et_pc s")
  case Loop_Check
  then show ?thesis using assms(1,3) by (auto simp: loop_next_def engine_threads_inv_def split: if_splits)
next
  case Loop_Pop
  then obtain q where q: "weak_consumer code_orders ts (et_queue s) = Some q"
    and s': "s' = s\<lparr>et_queue := q,
      et_pc := (if wr_cpc q \<noteq> C_Idle then Loop_Pop else if wr_popped q = wr_popped (et_queue s) then Loop_Check
        else Loop_Call (last (wr_popped q)))\<rparr>"
    using assms(3) by (auto simp: loop_next_def)
  have "weak_inv c q" by (rule weak_inv_consumer [OF _ assms(2) q]) (use assms(1) in \<open>simp add: engine_threads_inv_def\<close>)
  then show ?thesis
    using assms(1) weak_consumer_pops [OF q] weak_other_pc(2) [OF q] weak_consumer_history [OF q] Loop_Pop
    by (auto simp: engine_threads_inv_def s')
next
  case (Loop_Call ord)
  then obtain e submitted where "submitOrder acquire release ord (et_engine s) = Some e"
    "s' = s\<lparr>et_engine := e, et_pc := Loop_Check\<rparr>" "wr_popped (et_queue s) = submitted @ [ord]"
    "submit_all acquire release submitted e0 = Some (et_engine s)"
    using assms(1,3) by (auto simp: loop_next_def engine_threads_inv_def)
  with assms(1) Loop_Call show ?thesis
    by (auto simp: engine_threads_inv_def submit_all_append intro!: exI [of _ "submitted @ [ord]"])
next
  case Loop_Done
  then show ?thesis using assms(3) by (simp add: loop_next_def)
qed

interpretation engine_behind_ring: machine "engine_moves acquire release"
  "\<lambda>s. \<exists>b. b \<noteq> [] \<and> length b = c \<and> s = engine_threads_new b e0"
  "\<lambda>s. 0 < c \<and> engine_threads_inv acquire release c e0 s"
  for acquire release c e0
proof unfold_locales
  show "0 < c \<and> engine_threads_inv acquire release c e0 s"
    if "\<exists>b. b \<noteq> [] \<and> length b = c \<and> s = engine_threads_new b e0" for s
    using that by (auto intro: engine_threads_inv_new)
  show "0 < c \<and> engine_threads_inv acquire release c e0 s'"
    if inv: "0 < c \<and> engine_threads_inv acquire release c e0 s" and step: "engine_moves acquire release s s'" for s s'
    using step
  proof (cases rule: engine_moves.cases)
    case (engine_moves m)
    then show ?thesis using inv
    proof (cases m)
      case (By_Feeder ord ts full fails)
      with engine_moves inv engine_threads_inv_feed show ?thesis by auto
    next
      case (By_Loop ts seen)
      with engine_moves inv engine_threads_inv_loop show ?thesis by auto
    next
      case Ask_Stop
      with engine_moves inv show ?thesis by (auto simp: engine_threads_inv_def)
    qed
  qed
qed

section \<open>What the engine was given\<close>

lemma engine_threads_orders:
  assumes "engine_threads_inv acquire release c e0 s"
  obtains submitted where
    "wr_pushed (et_queue s) = submitted @ to_submit (et_pc s) @ wr_queue (et_queue s)"
    "submit_all acquire release submitted e0 = Some (et_engine s)"
    "\<And>ord. ord \<in> set (submitted @ to_submit (et_pc s)) \<Longrightarrow> proper_order ord" "\<not> data_race (et_queue s)"
proof -
  note inv = assms [unfolded engine_threads_inv_def]
  obtain submitted where sub: "wr_popped (et_queue s) = submitted @ to_submit (et_pc s)"
    "submit_all acquire release submitted e0 = Some (et_engine s)" using inv by blast
  have q: "wr_pushed (et_queue s) = wr_popped (et_queue s) @ wr_queue (et_queue s)"
    using weak_inv_queue(1) inv by blast
  then have "proper_order ord" if "ord \<in> set (submitted @ to_submit (et_pc s))" for ord
    using inv that sub(1) by auto
  moreover have "\<not> data_race (et_queue s)" using weak_inv_no_race inv by blast
  ultimately show ?thesis using that [of submitted] sub q by simp
qed

text \<open>
  The consuming thread never waits and its callback is never undefined: until it has left its loop it can take
  a step, and it leaves when the load of the flag shows a request.
\<close>

lemma loop_enabled:
  assumes "engine_threads_inv acquire release c e0 s" "engine_inv live e0" "pool_spec acquire release live"
  shows "(\<exists>ts. loop_next acquire release ts False s \<noteq> None) \<longleftrightarrow> et_pc s \<noteq> Loop_Done"
proof (cases "et_pc s")
  case Loop_Pop
  have "weak_inv c (et_queue s)" using assms(1) by (simp add: engine_threads_inv_def)
  with weak_always_enabled(2) Loop_Pop show ?thesis by (fastforce simp: loop_next_def)
next
  case (Loop_Call ord)
  obtain submitted where sub: "submit_all acquire release submitted e0 = Some (et_engine s)"
    "\<And>x. x \<in> set (submitted @ to_submit (et_pc s)) \<Longrightarrow> proper_order x"
    using engine_threads_orders [OF assms(1)] by blast
  have "engine_inv live (et_engine s)"
    using submit_all_accepted [OF assms(2,3), of submitted] sub by (auto simp: proper_order_def)
  moreover have "symbol_wf (eo_symbol ord)" using sub(2) [of ord] Loop_Call by (simp add: proper_order_def)
  ultimately show ?thesis using submitOrder_step [OF _ assms(3)] Loop_Call by (fastforce simp: loop_next_def)
qed (simp_all add: loop_next_def)

section \<open>A run\<close>

text \<open>
  An order is published, popped and submitted, and another is published and popped: it is still in hand.
\<close>

definition order_through :: "eng_order \<Rightarrow> nat \<Rightarrow> engine_move list" where
  "order_through x n =
     (let P = By_Feeder x n Give_Up False
      in [P, P, P, P, P, P, P, By_Loop n False, By_Loop n False, By_Loop (Suc n) False, By_Loop n False, By_Loop n False])"

lemma order_through_run:
  assumes "submitOrder acquire release x e = Some e'"
  shows "\<exists>s. engine_run acquire release (order_through x 0 @ [By_Loop 0 False] @ order_through y 1)
      (engine_threads_new [x, x] e) = Some s
    \<and> et_pc s = Loop_Call y \<and> et_engine s = e' \<and> wr_pushed (et_queue s) = [x, y] \<and> wr_queue (et_queue s) = []"
  using assms
  by (simp add: order_through_def engine_threads_new_def weak_new_def weak_eval code_orders_def loop_next_def wr_queue_def
      Let_def mod_Suc)

lemma order_through_proper: "m \<in> set (order_through x n) \<Longrightarrow> proper_order x \<Longrightarrow> proper_feed m"
  by (auto simp: order_through_def Let_def)

end
