(* ===== verification/Spec2Isabelle.thy ===== *)
theory Spec2Isabelle
  imports SpScPush SpScConc PoolFree OrderBook OrderFlow Framing MarketThreads FeedInsert Datagrams
    ServerFrames ManagerThreads PartitionThreads LoopThreads Layout SymbolHash EngineThrows
    EngineThreads SendFrames
begin

text \<open>
  Scrimmage is a set of header-only C++ components for a trading system: a matching engine and
  the data structures of an order book (\<^verbatim>\<open>libs/match\<close>), a ring buffer between threads
  (\<^verbatim>\<open>libs/common\<close>, \<^verbatim>\<open>libs/concurrency\<close>), a depth book with its writers
  (\<^verbatim>\<open>libs/market-data\<close>) and sockets, framing and read loops (\<^verbatim>\<open>libs/networking\<close>). The programs
  under \<^verbatim>\<open>apps\<close> only print a line. This development models the components with their state and
  every operation that has a body, and proves what makes each of them correct, or shows where it
  is not.

  How the parts interact. Orders arrive over a socket, whose bytes a read loop hands to a decoder
  and a framer cuts into messages; a ring buffer carries them from the receiving thread to the
  thread of a partition; the engine matches an order against the book its symbol hashes to and
  calls back with the reports. The pool, the map and the price levels are the data structures
  meant for an order book whose matching has no body yet (\<^verbatim>\<open>OrderBook.h\<close>). The depth book is fed
  by the market data pipeline or by a generator of synthetic orders.

  The theories and what they model:

  \<^item> \<open>Prelude\<close>: words, arrays with undefined out-of-range access, circular arrays. \<open>Machines\<close>: the
    interface of the multi-threaded components (the locales \<open>machine\<close>, a step relation with an
    invariant, and \<open>ending_machine\<close>, with a measure and progress); \<open>fl\<close>, \<open>weak_ring\<close>, \<open>users\<close>,
    \<open>partition_flow\<close>, \<open>engine_behind_ring\<close>, \<open>quiet_manager\<close>, \<open>ordered_manager\<close>, \<open>manager_ends\<close>, \<open>calm_feed\<close>,
    \<open>reentrant_feed\<close>, \<open>server\<close>, \<open>server_ends\<close>, \<open>consumers\<close>, \<open>single_consumer\<close> and
    \<open>consumer_input\<close> interpret them.
  \<^item> \<open>SpScRing\<close>, \<open>SpScPush\<close>, \<open>SpScConc\<close>: \<^verbatim>\<open>SpScRingBuffer.h\<close>. The state is the record \<open>ring\<close>
    with the members of the class. \<open>SpScRing\<close> has the operations run alone and states the
    interface of a bounded queue (the locale \<open>bounded_fifo\<close>), which the buffer interprets as
    \<open>ringq\<close>; \<open>SpScPush\<close> the blocking \<open>push\<close>, a loop that need not end; \<open>SpScConc\<close> both threads,
    every atomic access a step, with the invariant that ties program counters to memory.
  \<^item> \<open>ReleaseAcquire\<close>, \<open>SpScRelAcq\<close>, \<open>RelAcqRuns\<close>: atomic variables with the memory orders of C++, where
    a load can be stale, and the two threads of \<open>SpScConc\<close> over them. The orders are a parameter, any of
    \<open>std::memory_order\<close>, and \<open>code_orders\<close> those of the code; the same queue is refined with these or
    stronger orders, and with any weaker one there is a data race on a cell. The last has the
    high-water mark and the number of steps of a call. The model takes \<open>seq_cst\<close> for \<open>acquire\<close> or
    \<open>release\<close>: it has the runs the standard excludes by the single order of such accesses as well, so what
    holds in it holds; and the races that are shown are in runs where each load reads the last store.
  \<^item> \<open>PinnedThread\<close>: \<^verbatim>\<open>PinnedThread.h\<close>, the bootstrap on each platform, the stop flag, and a
    thread from its constructor to its join, for any worker; the locale \<open>stopping_worker\<close> is what
    a worker owes so that \<open>join\<close> returns, interpreted as \<open>consume\<close>.
  \<^item> \<open>RingConsumer\<close>, \<open>ConsumerThreads\<close>, \<open>ConsumerRuns\<close>: \<^verbatim>\<open>SpScRingBufferConsumer.h\<close>. The first has the
    loop against a schedule, the second the object with all threads \<open>start\<close> ever made, where
    producer, owner and each consumer thread move in any order, the third what holds of its runs.
  \<^item> \<open>OrderData\<close>, \<open>OrderPool\<close>, \<open>PoolRace\<close>, \<open>PoolFree\<close>, \<open>OrderMap\<close>: \<^verbatim>\<open>Order.h\<close>, \<^verbatim>\<open>Constants.h\<close>,
    \<^verbatim>\<open>OrderBookEntry.h\<close>, \<^verbatim>\<open>OrderPool.h\<close> (alone; then \<open>allocate\<close> by several threads; then \<open>free\<close> and
    the users of the entries as well), \<^verbatim>\<open>OrderMap.h\<close>.
    \<open>omap_rep\<close> says which map a table stands for.
  \<^item> \<open>PriceLevels\<close>, \<open>PriceUnlink\<close>: \<^verbatim>\<open>PriceLevels.h\<close>. \<open>levels_rep\<close> says which queues the linked
    entries stand for; each operation is shown to be the operation on queues.
  \<^item> \<open>OrderBook\<close>: the operations of \<^verbatim>\<open>OrderBook.h\<close> that have a body.
  \<^item> \<open>MatchingEngine\<close>, \<open>MatchSpec\<close>, \<open>EngineRefine\<close>, \<open>EngineSubmit\<close>, \<open>BookRuns\<close>, \<open>EngineCases\<close>,
    \<open>SymbolHash\<close>, \<open>EngineThrows\<close>: \<^verbatim>\<open>MatchingEngine.h\<close>. The first has the code with its pointers, as a store and
    lists of addresses; \<open>MatchSpec\<close> what matching computes without pointers (\<open>fill\<close>);
    \<open>EngineRefine\<close> and \<open>EngineSubmit\<close> that the code does this as long as no address is in two
    places, which it keeps; \<open>BookRuns\<close> what holds of every run; \<open>EngineCases\<close> a pool and orders to
    run it on; \<open>SymbolHash\<close> what the hash of a symbol computes; \<open>EngineThrows\<close> has the engine with
    its configuration and callbacks that throw in the middle of the matching loop.
  \<^item> \<open>Layout\<close>: \<^verbatim>\<open>MatchResult.h\<close>, and where the members of it, of the pool's entries and of the ring
    buffer lie in memory.
  \<^item> \<open>OrderFlow\<close>: what a consumer hands to its callback is a part of the input. \<open>EngineThreads\<close>: the engine
    behind the ring buffer as one step relation: a feeding thread, the loop of the consumer with
    \<open>submitOrder\<close> as its callback, and the request to stop, under release and acquire. Which orders of a run the
    pool had room for is \<open>accepted\<close> (\<open>EngineSubmit\<close>).
  \<^item> \<open>Partition\<close>, \<open>PartitionThreads\<close>: \<^verbatim>\<open>MatchingEnginePartition.h\<close> and \<^verbatim>\<open>ExecutionReport.h\<close>, over
    the ring buffer, first one call after the other, then with \<open>submitOrder\<close> and \<open>processOrders\<close> on
    two threads and the queue between them under release and acquire. Reports are sent with \<open>sendAll\<close> of
    \<open>Sockets\<close> and the \<open>send\<close> of the UDP sender; with the threads, each of their system calls is a step.
  \<^item> \<open>Framing\<close>: \<^verbatim>\<open>TcpEncoder.h\<close> and \<^verbatim>\<open>TcpFramer.h\<close>, with the interface of a message format (the
    locale \<open>framing\<close>), interpreted as \<open>tcp_frames\<close>.
  \<^item> \<open>Sockets\<close>, \<open>SendFrames\<close>, \<open>Datagrams\<close>, \<open>TcpServer\<close>, \<open>ServerThreads\<close>, \<open>ServerFrames\<close>, \<open>Pipelines\<close>,
    \<open>UdpPipeline\<close>, \<open>ConnectionManager\<close>, \<open>ManagerThreads\<close>: the socket classes, framed messages sent
    with \<open>sendAll\<close>, the server (each loop alone, then all threads as a step relation, then framed
    messages through it), the read loops of \<^verbatim>\<open>networking/pipeline\<close> and \<^verbatim>\<open>TcpConnectionManager.h\<close>,
    whose vector is modelled with the allocation its elements are in, then with all its threads as
    a step relation.
  \<^item> \<open>OrderBookFeed\<close>, \<open>FeedInsert\<close>, \<open>FeedLock\<close>, \<open>FeedRuns\<close>, \<open>MarketData\<close>, \<open>MarketThreads\<close>:
    \<^verbatim>\<open>market-data\<close>. The depth book run alone, its equivalence with insertion, the book with threads
    and its mutex as a step relation with the sequential feed as specification, its two writers (with
    the best prices the generator makes), and
    the generator as a thread with readers.
  \<^item> \<open>Workers\<close>, \<open>LifeCycle\<close>: \<^verbatim>\<open>TcpHeartbeat.h\<close>, its loop over time, with the locale \<open>safe_worker\<close>,
    interpreted as \<open>hb\<close>, and \<open>start\<close>, \<open>stop\<close> and the destructor of the classes that own one thread.
    \<open>start\<close> and \<open>stop\<close> are the locale \<open>restartable\<close>, interpreted as \<open>server_cycle\<close>, \<open>tcp_cycle\<close>,
    \<open>udp_cycle\<close> and \<open>injector_cycle\<close>; \<open>scoped\<close> extends it by the destructor, interpreted as
    \<open>server_scope\<close>, \<open>tcp_scope\<close>, \<open>udp_scope\<close> and \<open>injector_scope\<close>.
  \<^item> \<open>OwnedThread\<close>, \<open>LoopThreads\<close>: an object with a flag and one thread, owner and loop in any
    interleaving, for any loop. What a loop owes is the locale \<open>looping\<close>, which is a \<open>machine\<close> and, without its
    idle steps, an \<open>ending_machine\<close>; the loops of the two pipelines, the generator and the heartbeat interpret it as
    \<open>tcp_loop\<close>, \<open>udp_loop\<close>, \<open>inject_loop\<close> and \<open>heartbeat_thread\<close>.

  Conventions. Integers that can wrap are words of their width; indices that stay in range are
  \<open>nat\<close>. Exceptions are values of a sum type. The callbacks of the engine return, except in
  \<open>EngineThrows\<close>. \<open>None\<close> as the result of an operation is undefined
  behaviour or \<open>std::terminate\<close>, so a theorem that gives \<open>Some\<close> is also one of memory safety; the
  comment at each operation says which. The results of system calls, the clock, the flag another
  thread writes, floating-point expressions and random draws are arguments. So are the classes
  that the headers name but the repository does not have: the pool of the engine (with the
  contract \<open>pool_spec\<close>, which a concrete pool in \<open>EngineCases\<close> meets) and the pool and index of the
  market data pipeline. \<open>std::sort\<close> is an argument with its law \<open>std_sort\<close>.

  Termination and bounds. Loops are total functions except the blocking \<open>push\<close>,
  \<open>unlinkFromLevel\<close> and \<open>processOrders\<close>, which are partial; that they return is part of the
  theorems about them. The clock of \<open>push\<close> is read when the 64-bit spin counter is a multiple of
  1000, in particular whenever it is back at 0, which is enough for termination. The spin loops
  of the heartbeat wait for at most 50000 nanoseconds. A reading of the clock may give the time of the one
  before; a spin loop ends when its readings have advanced by 50000 nanoseconds in total, which
  \<open>heartbeat_loop\<close> is given as a hypothesis, and the steps at which the clock stands still are counted
  apart (the idle steps of \<open>looping\<close>). \<open>processOrders\<close> returns with a kernel whose \<open>::send\<close> takes at most
  one byte at a time; with others \<open>sendAll\<close> is undefined.

  Threads that are told to stop take at most a fixed number of further steps (\<open>consume_rank\<close>),
  the threads of a server that is being stopped \<open>stop_rank\<close>, those of a connection manager
  \<open>manager_rank\<close>, those of an object with one thread \<open>owned_rank\<close>,
  a call on a partition with two threads \<open>call_rank\<close> (for each size of a report), and the calls on the depth book at most \<open>work_left\<close>: seven steps for each call still to make.

  Not modelled: the interleaved executions are sequentially consistent, with accesses in program
  order, except those of the ring buffer in \<open>SpScRelAcq\<close>, where loads can be stale but still come in
  program order and only give values already stored; elsewhere two unsynchronised accesses of which
  one is a write are two steps that can come in either order. The bodies that \<^verbatim>\<open>OrderBook.h\<close> only declares do not
  exist. The network and the kernel are parameters: what a system call returns, which packets
  arrive, and which of them the kernel hands to a socket (\<open>multicast_kernel\<close> is what is documented of it). The pause instruction of \<^verbatim>\<open>CpuPause.h\<close>, configuration structs that no code reads, and the
  vendored test framework are left out. Several headers do not compile as they are (members
  and classes that do not exist); the model takes the evident meaning, and the comment at the
  place says so.

  The theorems below are the properties of the components, each with an instance where it has
  hypotheses; those without a claim number state further facts. They are grouped as the components
  are.
\<close>

section \<open>Ring buffer\<close>

text \<open>
  In every state the two threads of an SPSC ring buffer can reach, however their loads and
  stores interleave, the items published so far are the items popped followed by the contents of
  the buffer (nothing is lost, duplicated or reordered), the contents leave one cell free, and
  the threads are never about to access the same cell.
\<close>

theorem spsc_exactly_once:
  assumes "spsc_reachable b s" "b \<noteq> []"
  shows "pushed s = popped s @ ring_items (shared s) \<and> length (ring_items (shared s)) < length b
    \<and> \<not> cell_race s"
proof -
  have inv: "spsc_inv (length b) s" by (rule spsc_reachable_inv [OF assms])
  show ?thesis using spsc_inv_items [OF inv] spsc_inv_bound [OF inv] spsc_inv_no_race [OF inv] by simp
qed

theorem spsc_exactly_once_witness:
  "\<exists>s. spsc_reachable [0 :: nat, 0] s \<and> pushed s = [7] \<and> popped s @ ring_items (shared s) = [7]
    \<and> length (ring_items (shared s)) < 2"
proof -
  let ?b = "[0 :: nat, 0]"
  let ?s0 = "spsc_init ?b"
  let ?s1 = "?s0\<lparr>ppc := P_LoadTail 7 0\<rparr>"
  let ?s2 = "?s1\<lparr>ppc := P_Write 7 0 1\<rparr>"
  let ?s3 = "?s2\<lparr>shared := (shared ?s2)\<lparr>rb_buffer := (rb_buffer (shared ?s2))[0 := 7]\<rparr>, ppc := P_StoreHead 7 1\<rparr>"
  let ?s4 = "?s3\<lparr>shared := (shared ?s3)\<lparr>rb_head := 1\<rparr>, ppc := P_LoadHwm 1, pushed := pushed ?s3 @ [7]\<rparr>"
  have "producer_step ?s0 ?s1"
    using producer_step.p_load_head [of ?s0 7] by (simp add: spsc_init_def ring_new_def)
  moreover have "producer_step ?s1 ?s2"
    using producer_step.p_room [of ?s1 7 0] by (simp add: spsc_init_def ring_new_def capacity_def increment_def)
  moreover have "producer_step ?s2 ?s3" by (rule producer_step.p_write) simp
  moreover have "producer_step ?s3 ?s4" by (rule producer_step.p_store_head) simp
  ultimately have "spsc_reachable ?b ?s4"
    by (meson spsc_reachable.start spsc_reachable.step spsc_step_def)
  moreover have "pushed ?s4 = [7]" by (simp add: spsc_init_def)
  ultimately show ?thesis using spsc_exactly_once [of ?b ?s4] by (intro exI [of _ ?s4]) simp
qed

text \<open>
  Every atomic step of the two threads is a step of a bounded first-in first-out queue: it
  leaves the contents alone, appends one item to contents shorter than the limit, or removes the
  first item.
\<close>

theorem spsc_refines_queue:
  assumes "spsc_reachable b s" "b \<noteq> []" "spsc_step s s'"
  shows "queue_step (length b - 1) (ring_items (shared s)) (ring_items (shared s'))"
  using spsc_step_queue [OF assms(3) spsc_reachable_inv [OF assms(1,2)]] .

theorem spsc_refines_queue_witness:
  "queue_step 1 (ring_items (shared (spsc_init [0 :: nat, 0])))
    (ring_items (shared ((spsc_init [0 :: nat, 0])\<lparr>ppc := P_LoadTail 7 0\<rparr>)))"
proof -
  have "producer_step (spsc_init [0 :: nat, 0]) ((spsc_init [0 :: nat, 0])\<lparr>ppc := P_LoadTail 7 0\<rparr>)"
    using producer_step.p_load_head [of "spsc_init [0 :: nat, 0]" 7] by (simp add: spsc_init_def ring_new_def)
  then have step: "spsc_step (spsc_init [0 :: nat, 0]) ((spsc_init [0 :: nat, 0])\<lparr>ppc := P_LoadTail 7 0\<rparr>)"
    by (simp add: spsc_step_def)
  have "queue_step (length [0 :: nat, 0] - 1) (ring_items (shared (spsc_init [0 :: nat, 0])))
      (ring_items (shared ((spsc_init [0 :: nat, 0])\<lparr>ppc := P_LoadTail 7 0\<rparr>)))"
    by (rule spsc_refines_queue [OF spsc_reachable.start _ step]) simp
  then show ?thesis by simp
qed

text \<open>
  On a well-formed buffer \<open>tryPush\<close> stores the item at the end exactly when a cell beside the
  reserved one is free, and otherwise changes nothing but the drop counter, which wraps at 64
  bits; the high-water mark becomes the largest number of items ever held. \<open>tryPop\<close> takes the
  first item, and fails exactly on an empty buffer.
\<close>

theorem ring_operations:
  assumes "ring_wf r"
  shows "(fst (tryPush x r) \<longleftrightarrow> length (ring_items r) < ring_limit r)
    \<and> (fst (tryPush x r) \<longrightarrow> ring_wf (snd (tryPush x r)) \<and> ring_items (snd (tryPush x r)) = ring_items r @ [x]
        \<and> highWaterMark (snd (tryPush x r)) = max (highWaterMark r) (length (ring_items r) + 1)
        \<and> dropped (snd (tryPush x r)) = dropped r)
    \<and> (\<not> fst (tryPush x r) \<longrightarrow> snd (tryPush x r) = r\<lparr>rb_dropped := dropped r + 1\<rparr>)
    \<and> (case tryPop r of None \<Rightarrow> ring_items r = []
       | Some (y, r') \<Rightarrow> ring_wf r' \<and> ring_items r = y # ring_items r' \<and> dropped r' = dropped r)"
proof -
  have "case tryPop r of None \<Rightarrow> ring_items r = []
       | Some (y, r') \<Rightarrow> ring_wf r' \<and> ring_items r = y # ring_items r' \<and> dropped r' = dropped r"
    using tryPop_None_iff [OF assms] tryPop_ok [OF assms]
    by (auto simp: dropped_def split: option.split)
  then show ?thesis
    using tryPush_full_iff [OF assms] tryPush_ok [OF assms, of x] tryPush_fail [of x r]
    by (auto simp: highWaterMark_def dropped_def length_ring_items)
qed

theorem ring_operations_witness:
  "fst (tryPush (7 :: nat) (ring_new [0, 0])) \<and> \<not> fst (tryPush 8 (snd (tryPush (7 :: nat) (ring_new [0, 0]))))"
proof -
  let ?r = "ring_new [0 :: nat, 0]"
  have wf: "ring_wf ?r" by (simp add: ring_wf_new)
  have lim: "ring_limit ?r = 1" by (simp add: ring_limit_def ring_new_def capacity_def)
  have one: "fst (tryPush 7 ?r)" "ring_items (snd (tryPush 7 ?r)) = [7]" "ring_wf (snd (tryPush 7 ?r))"
    using ring_operations [OF wf, of 7] lim by (simp_all add: ring_items_new)
  have "ring_limit (snd (tryPush 7 ?r)) = 1" using tryPush_limit [OF wf, of 7] lim by simp
  with one ring_operations [OF one(3), of 8] show ?thesis by simp
qed

text \<open>
  Any sequence of \<open>tryPush\<close> and \<open>tryPop\<close> calls: what the buffer held and the items it
  accepted are, in order, the items returned and what it holds at the end.
\<close>

theorem ring_run_in_order:
  assumes "ring_wf r" "run_ops tryPush tryPop ops r = (acc, out, r')"
  shows "ring_items r @ acc = out @ ring_items r' \<and> ring_wf r' \<and> length (ring_items r') \<le> ring_limit r"
  using ringq.run_in_order [OF assms] ringq.limit_items [of r'] by simp

theorem ring_run_in_order_witness:
  "\<exists>acc out r'. run_ops tryPush tryPop [Push 1, Push 2, Pop, Push 3, Pop, Pop] (ring_new [0 :: nat, 0, 0]) = (acc, out, r')
    \<and> acc = out @ ring_items r'"
proof -
  obtain acc out r' where r: "run_ops tryPush tryPop [Push 1, Push 2, Pop, Push 3, Pop, Pop]
      (ring_new [0 :: nat, 0, 0]) = (acc, out, r')" by (metis prod_cases3)
  have "ring_wf (ring_new [0 :: nat, 0, 0])" by (simp add: ring_wf_new)
  from ring_run_in_order [OF this r] r show ?thesis by (simp add: ring_items_new)
qed

text \<open>
  C18. The blocking \<open>push\<close> returns if the clock ever passes the timeout for good, whatever the
  consumer does. It then has appended the item to what the consumer left, or has given up on a
  full buffer after the timeout; it never counts a drop.
\<close>

theorem push_returns_correct:
  assumes "ring_wf r" "\<And>i. N \<le> i \<Longrightarrow> unat timeoutMs * 1000000 \<le> elapsed i"
  shows "\<exists>ok r'. push elapsed consumed item timeoutMs r = Some (ok, r') \<and> ring_wf r'
    \<and> (\<exists>k. ring_items r' = drop k (ring_items r) @ (if ok then [item] else []))
    \<and> (\<not> ok \<longrightarrow> length (ring_items r') = ring_limit r \<and> (\<exists>j. unat timeoutMs * 1000000 \<le> elapsed j))
    \<and> dropped r' = dropped r"
proof -
  obtain ok r' where ret: "push elapsed consumed item timeoutMs r = Some (ok, r')"
    using push_returns [where elapsed = elapsed and N = N, OF assms] by blast
  have "push_post elapsed item (unat timeoutMs * 1000000) 0 r (ok, r')"
    by (rule push_loop_post [OF _ assms(1)]) (use ret in \<open>simp add: push_def\<close>)
  with ret show ?thesis by (auto simp: push_post_def dropped_def)
qed

theorem push_returns_correct_witness:
  "\<exists>ok r'. push (\<lambda>i. i * 1000) (\<lambda>_. 0) (7 :: nat) 1 (ring_new [0, 0]) = Some (ok, r') \<and> ring_wf r'"
  using push_returns_correct [of "ring_new [0 :: nat, 0]" 1000 1 "\<lambda>i. i * 1000" "\<lambda>_. 0" 7]
  by (auto simp: ring_wf_new)

section \<open>Matching engine\<close>

text \<open>
  C1. \<open>submitOrder\<close> does what its specification says. For an order with a terminated symbol, a
  well-formed engine and a pool that keeps its contract it returns and the engine stays
  well-formed. When the pool is exhausted nothing changes. Otherwise the books, seen as lists of
  orders, and the reports are those of \<open>submit_books\<close>: the order is filled against the opposite
  list of the book its symbol hashes to, and what is left of it is appended to its own list.
\<close>

theorem submitOrder_correct:
  assumes "engine_inv live e" "pool_spec acquire release live" "symbol_wf (eo_symbol ord)"
  shows "\<exists>e'. submitOrder acquire release ord e = Some e' \<and> engine_inv live e'
    \<and> (if fst (acquire (en_pool e)) = None
       then book_view e' = book_view e \<and> en_log e' = en_log e
       else book_view e' = snd (submit_books ord (book_view e))
         \<and> en_log e' = en_log e @ fst (submit_books ord (book_view e)))"
proof -
  obtain e' where e': "submitOrder acquire release ord e = Some e'" "engine_inv live e'"
    "if fst (acquire (en_pool e)) = None
     then book_view e' = book_view e \<and> en_log e' = en_log e \<and> live (en_pool e') = live (en_pool e)
     else book_view e' = snd (submit_books ord (book_view e))
       \<and> en_log e' = en_log e @ fst (submit_books ord (book_view e))
       \<and> (\<exists>a. live (en_pool e') \<subseteq> insert a (live (en_pool e)))"
    using submitOrder_step [OF assms] by blast
  then show ?thesis by (intro exI [of _ e']) (simp split: if_splits)
qed

theorem submitOrder_correct_witness:
  "\<exists>e'. submitOrder (slot_acquire 4) slot_release (mk_order 1 100 10 True sym_WMT) engine0 = Some e'
    \<and> book_view e' 495 True = [mk_order 1 100 10 True sym_WMT]"
proof -
  have some: "fst (slot_acquire 4 (en_pool engine0)) \<noteq> None"
    by (simp add: engine0_ok slot_acquire_def upt_rec)
  have "snd (submit_books (mk_order 1 100 10 True sym_WMT) no_books) 495 True
      = [mk_order 1 100 10 True sym_WMT]"
    by (simp add: submit_books_def submit_view_def hash_WMT no_books_def)
  with some submitOrder_correct [OF engine0_ok(1) slot_pool_spec, of "mk_order 1 100 10 True sym_WMT" 4]
  show ?thesis by (auto simp: engine0_ok symbols_wf)
qed

text \<open>
  C2. A run of orders that fits into the pool: starting from an engine whose pool has given out
  \<open>m\<close> addresses, \<open>n\<close> orders with \<open>m + n\<close> at most the pool's size are all accepted, and books and
  reports are those of the specification run on exactly these orders.
\<close>

theorem submit_run_correct:
  assumes "engine_inv live e" "pool_spec acquire release live"
    and "\<And>ord. ord \<in> set ords \<Longrightarrow> symbol_wf (eo_symbol ord)"
    and "\<And>p. fst (acquire p) = None \<Longrightarrow> N \<le> card (live p)"
    and "finite (live (en_pool e))" "card (live (en_pool e)) + length ords \<le> N"
  shows "\<exists>e'. submit_all acquire release ords e = Some e' \<and> engine_inv live e'
    \<and> book_view e' = snd (run_books ords (book_view e))
    \<and> en_log e' = en_log e @ fst (run_books ords (book_view e))"
  by (rule submit_all_room [OF assms])

theorem submit_run_correct_witness:
  "\<exists>e'. submit_all (slot_acquire 4) slot_release sell_buy engine0 = Some e'
    \<and> book_view e' 495 False = [mk_order 1 100 6 False sym_WMT] \<and> book_view e' 495 True = []
    \<and> en_log e' = [ExecReport (mk_order 2 101 0 True sym_WMT) 4, ExecReport (mk_order 1 100 6 False sym_WMT) 4,
        MatchReport (mk_order 2 101 0 True sym_WMT) (mk_order 1 100 6 False sym_WMT) 4]"
proof -
  have "\<exists>e'. submit_all (slot_acquire 4) slot_release sell_buy engine0 = Some e' \<and> engine_inv set e'
    \<and> book_view e' = snd (run_books sell_buy (book_view engine0))
    \<and> en_log e' = en_log engine0 @ fst (run_books sell_buy (book_view engine0))"
    by (rule submit_run_correct [OF engine0_ok(1) slot_pool_spec conjunct1 [OF runs_ok(1)] slot_pool_room])
      (auto simp: engine0_ok runs_length)
  then show ?thesis by (auto simp: engine0_ok run_sell_buy)
qed

text \<open>
  C6. Whatever valid orders are submitted to a new engine, with a pool that may run out: every
  reported trade is between a buy and a sell of the same book, the buyer's limit at least the
  seller's, and trades a positive quantity; and every resting order is in the book of its symbol,
  on its own side, with a positive quantity.
\<close>

theorem submit_run_trades:
  assumes "pool_spec acquire release live" "en_log e = []" "engine_inv live e" "book_view e = no_books"
    and "\<And>ord. ord \<in> set ords \<Longrightarrow> symbol_wf (eo_symbol ord) \<and> 0 < eo_quantity ord"
  shows "\<exists>e'. submit_all acquire release ords e = Some e' \<and> books_ok (book_view e')
    \<and> (\<forall>t \<in> set (en_log e'). good_trade t)"
proof -
  let ?acc = "accepted acquire release ords e"
  obtain e' where e': "submit_all acquire release ords e = Some e'"
    "book_view e' = snd (run_books ?acc no_books)" "en_log e' = fst (run_books ?acc no_books)"
    using submit_all_accepted [OF assms(3,1), of ords] assms(2,4,5) by auto
  have "0 < eo_quantity ord" if "ord \<in> set ?acc" for ord
    using that set_accepted [of acquire release ords e] assms(5) by blast
  then show ?thesis
    using e' run_books_trades [OF books_ok_empty] run_books_ok [OF books_ok_empty] by auto
qed

theorem submit_run_trades_witness:
  "\<exists>e'. submit_all (slot_acquire 4) slot_release sell_buy engine0 = Some e'
    \<and> books_ok (book_view e')"
  using submit_run_trades [OF slot_pool_spec [of 4] engine0_ok(5,1,3) runs_ok(1)] by blast

text \<open>
  C7. No quantity appears or disappears. Over a run from empty books, the quantity of the orders for which
  the pool had room when they were submitted is what rests in the books at the end and twice what was
  traded; with a pool that is large enough these are all orders.
\<close>

theorem submit_run_conserves:
  assumes "pool_spec acquire release live" "en_log e = []" "engine_inv live e" "book_view e = no_books"
    and "\<And>ord. ord \<in> set ords \<Longrightarrow> symbol_wf (eo_symbol ord)"
  shows "\<exists>e'. submit_all acquire release ords e = Some e'
    \<and> submitted_qty (accepted acquire release ords e) = total_resting (book_view e') + 2 * executed (en_log e')
    \<and> ((\<forall>p. fst (acquire p) = None \<longrightarrow> N \<le> card (live p)) \<and> finite (live (en_pool e))
        \<and> card (live (en_pool e)) + length ords \<le> N
      \<longrightarrow> submitted_qty ords = total_resting (book_view e') + 2 * executed (en_log e'))"
proof -
  obtain e' where e': "submit_all acquire release ords e = Some e'"
    "submitted_qty (accepted acquire release ords e) = total_resting (book_view e') + 2 * executed (en_log e')"
    using accepted_balance [OF assms(1-4), of ords] assms(5) by blast
  have "accepted acquire release ords e = ords"
    if "\<forall>p. fst (acquire p) = None \<longrightarrow> N \<le> card (live p)" "finite (live (en_pool e))"
      "card (live (en_pool e)) + length ords \<le> N"
    by (rule accepted_all [OF assms(3,1), of ords N]) (use that assms(5) in auto)
  with e' show ?thesis by (intro exI [of _ e']) auto
qed

text \<open>A pool with a single slot, which the sell takes: the buy is dropped, and ten shares rest.\<close>

theorem submit_run_conserves_witness:
  "\<exists>e'. submit_all (slot_acquire 1) slot_release sell_buy engine0 = Some e'
    \<and> 10 = total_resting (book_view e') + 2 * executed (en_log e')"
proof -
  obtain e' where "submit_all (slot_acquire 1) slot_release sell_buy engine0 = Some e'"
    "submitted_qty (accepted (slot_acquire 1) slot_release sell_buy engine0)
      = total_resting (book_view e') + 2 * executed (en_log e')"
    using submit_run_conserves [OF slot_pool_spec [of 1] engine0_ok(5,1,3), of sell_buy 0] runs_ok(1) by blast
  then show ?thesis unfolding accepted_sell_buy by (intro exI [of _ e']) (simp add: submitted_qty_def)
qed

text \<open>
  C10. Time priority and stopping. The loop of \<open>matchOrder\<close> removes a prefix of the opposite
  side, oldest first, and gives back exactly these addresses; after the first order that stays
  none has been touched; and it stops only when the incoming order is used up, no order is left,
  or the first one left does not cross.
\<close>

theorem matchLoop_priority:
  assumes "incoming \<notin> set opp" "distinct opp"
    and "matchLoop release incoming 0 opp mem pool log = (opp', mem', pool', log', returned)"
  shows "\<exists>gone. opp = gone @ opp'
    \<and> pool' = (if returned then release incoming (fold release gone pool) else fold release gone pool)
    \<and> map mem' (tl opp') = map mem (tl opp')
    \<and> (eo_quantity (mem' incoming) = 0 \<or> opp' = [] \<or> \<not> crosses (mem' incoming) (mem' (hd opp')))"
proof -
  obtain ev left rest where fill: "fill (mem incoming) (map mem opp) = (ev, left, rest)"
    by (metis prod_cases3)
  obtain gone where g: "opp = gone @ opp'" "map mem' opp' = rest" "mem' incoming = left"
    "pool' = (if returned then release incoming (fold release gone pool) else fold release gone pool)"
    using matchLoop_fill [OF assms(1,2) fill, of release pool log] assms(3) by auto
  obtain pre post where "map mem opp = pre @ post"
    "rest = post \<or> (\<exists>r rs f. post = r # rs \<and> rest = reduce_by f r # rs)"
    using fill_front [OF fill] by blast
  moreover from this g(1,2) have "length post = length opp'" by (auto dest: arg_cong [of _ _ length])
  ultimately have "post = map mem opp'" "tl rest = tl post" using g(1) by auto
  then have "map mem' (tl opp') = map mem (tl opp')" using g(2) by (metis map_tl)
  moreover have "eo_quantity left = 0 \<or> opp' = [] \<or> \<not> crosses left (mem' (hd opp'))"
    using fill_stops [OF fill] g(2) by (cases opp') auto
  ultimately show ?thesis using g by blast
qed

theorem matchLoop_priority_witness:
  "\<exists>opp' mem' pool' log' returned.
    matchLoop slot_release 3 0 [1, 2] ((\<lambda>_. mk_order 1 100 5 False sym_WMT)(3 := mk_order 2 100 7 True sym_WMT))
        [3, 2, 1] [] = (opp', mem', pool', log', returned)
    \<and> (eo_quantity (mem' 3) = 0 \<or> opp' = [] \<or> \<not> crosses (mem' 3) (mem' (hd opp')))"
proof -
  let ?mem = "(\<lambda>_. mk_order 1 100 5 False sym_WMT)(3 := mk_order 2 100 7 True sym_WMT)"
  obtain opp' mem' pool' log' returned where
    m: "matchLoop slot_release 3 0 [1, 2] ?mem [3, 2, 1] [] = (opp', mem', pool', log', returned)"
    by (metis prod_cases5)
  from matchLoop_priority [OF _ _ m] show ?thesis using m by auto
qed

text \<open>
  C14. Orders with a positive quantity leak nothing: at every moment the addresses the pool has
  given out are exactly those in the books.
\<close>

theorem submit_run_no_leak:
  assumes "engine_inv live e" "pool_spec acquire release live" "no_leak live e"
    and "\<And>ord. ord \<in> set ords \<Longrightarrow> symbol_wf (eo_symbol ord) \<and> 0 < eo_quantity ord"
    and "submit_all acquire release ords e = Some e'"
  shows "no_leak live e'"
  by (rule submit_all_no_leak [OF assms])

theorem submit_run_no_leak_witness:
  "\<exists>e'. submit_all (slot_acquire 4) slot_release sell_buy engine0 = Some e' \<and> no_leak set e'"
proof -
  obtain e' where e': "submit_all (slot_acquire 4) slot_release sell_buy engine0 = Some e'"
    using engine0_run [of sell_buy] runs_ok(1) runs_length by auto
  from submit_run_no_leak [OF engine0_ok(1) slot_pool_spec engine0_ok(2) runs_ok(1) e'] e' show ?thesis by blast
qed

text \<open>
  An order without quantity that does not trade leaks: it is neither put into a book nor
  given back, so its address stays allocated and nothing refers to it any more.
\<close>

theorem zero_quantity_leaks:
  assumes "engine_inv live e" "pool_spec acquire release live" "no_leak live e"
    and "acquire (en_pool e) = (Some a, p)" "hashSymbol (eo_symbol ord) = Some k"
    and "eo_quantity ord = 0" "fst (fill ord (book_view e k (\<not> eo_isBuy ord))) = []"
  shows "\<exists>e'. submitOrder acquire release ord e = Some e' \<and> a \<in> live (en_pool e')
    \<and> (\<forall>j. a \<notin> set (buyOrders (en_books e' j)) \<and> a \<notin> set (sellOrders (en_books e' j)))"
proof -
  have "lost_order ord (book_view e k)" using assms(6,7) by (simp add: lost_order_def)
  with submitOrder_live [OF assms(1-5)] show ?thesis by (auto simp: book_ptrs_def)
qed

theorem zero_quantity_leaks_witness:
  "\<exists>e'. submitOrder (slot_acquire 4) slot_release (mk_order 1 100 0 True sym_WMT) engine0 = Some e'
    \<and> 0 \<in> set (en_pool e') \<and> 0 \<notin> set (buyOrders (en_books e' 495))"
proof -
  have "slot_acquire 4 (en_pool engine0) = (Some 0, [0])"
    by (simp add: engine0_ok slot_acquire_def upt_rec)
  then show ?thesis
    using zero_quantity_leaks [OF engine0_ok(1) slot_pool_spec engine0_ok(2), of 4 0 "[0]"
        "mk_order 1 100 0 True sym_WMT" 495]
    by (auto simp: hash_WMT engine0_ok no_books_def)
qed

text \<open>
  \<open>submitOrder\<close> reads outside the symbol array exactly when an order was accepted whose
  16 symbol bytes have no terminator: the loop of \<open>hashSymbol\<close> reads \<open>symbol[i]\<close> before it compares
  \<open>i\<close> with 16.
\<close>

theorem submitOrder_out_of_bounds:
  assumes "length (eo_symbol ord) = 16"
  shows "submitOrder acquire release ord e = None
    \<longleftrightarrow> fst (acquire (en_pool e)) \<noteq> None \<and> 0 \<notin> set (eo_symbol ord)"
proof (cases "acquire (en_pool e)")
  case (Pair r p)
  with hashSymbol_defined [OF assms] show ?thesis
    by (cases r) (auto simp: submitOrder_def Let_def split: option.splits)
qed

theorem submitOrder_out_of_bounds_witness:
  "submitOrder (slot_acquire 4) slot_release (mk_order 1 100 10 True (replicate 16 65)) engine0 = None"
  using submitOrder_out_of_bounds [of "mk_order 1 100 10 True (replicate 16 65)" "slot_acquire 4" slot_release engine0]
  by (simp add: slot_acquire_def engine0_ok upt_rec)

text \<open>
  There is no price priority, and a book can be left crossed: after sells at 105 and 100 a
  buy at 102 does not meet the sell at 100, because the loop stops at the first resting order
  that does not cross.
\<close>

theorem crossed_book_reachable:
  "\<exists>e'. submit_all (slot_acquire 4) slot_release sells_buy engine0 = Some e'
    \<and> crossed (book_view e' 495) \<and> en_log e' = []"
proof -
  have "length sells_buy \<le> 4" by (simp add: runs_length)
  from engine0_run [OF runs_ok(2) this] run_sells_buy show ?thesis by auto
qed

text \<open>
  The book is chosen by a hash of the symbol that is never compared with the symbol: a sell
  of WMT is matched with a buy of MRK, which has the same hash.
\<close>

theorem different_symbols_trade:
  "\<exists>e'. submit_all (slot_acquire 4) slot_release colliding engine0 = Some e'
    \<and> MatchReport (mk_order 2 100 0 True sym_MRK) (mk_order 1 100 0 False sym_WMT) 10 \<in> set (en_log e')"
proof -
  have "length colliding \<le> 4" by (simp add: runs_length)
  from engine0_run [OF runs_ok(3) this] run_colliding show ?thesis by auto
qed

text \<open>
  C32. Exceptions. The callbacks run in the middle of the matching loop and may throw, an empty one
  does. \<open>submitOrder\<close> then throws exactly when one of the calls it would make throws; the log is
  that of the undisturbed run up to this call. Otherwise it is the undisturbed run. What an
  exception leaves is not consistent: no address is in two places, but that of the incoming
  order is in none and never given back, and one resting order may stay without quantity.
\<close>

theorem callbacks_may_throw:
  assumes "engine_inv live e" "pool_spec acquire release live" "symbol_wf (eo_symbol ord)"
  shows "\<exists>e1 e' thrown. submitOrder acquire release ord e = Some e1
    \<and> submitOrder_ex throws acquire release ord e = Some (e', thrown)
    \<and> (thrown \<longleftrightarrow> (\<exists>n. length (en_log e) \<le> n \<and> n < length (en_log e1) \<and> throws n (en_log e1 ! n)))
    \<and> (\<not> thrown \<longrightarrow> e' = e1)
    \<and> (thrown \<longrightarrow> (\<exists>n < length (en_log e1). length (en_log e) \<le> n \<and> throws n (en_log e1 ! n) \<and> en_log e' = take n (en_log e1))
        \<and> (\<exists>a p. acquire (en_pool e) = (Some a, p) \<and> interrupted live a e'))"
proof -
  obtain e1 e' thrown where r: "submitOrder acquire release ord e = Some e1"
    "submitOrder_ex throws acquire release ord e = Some (e', thrown)"
    "if thrown
     then (\<exists>n. stops throws (en_log e) (en_log e1) n \<and> en_log e' = take n (en_log e1))
       \<and> (\<exists>a p. acquire (en_pool e) = (Some a, p) \<and> interrupted live a e')
     else e' = e1 \<and> undisturbed throws (en_log e) (en_log e1)"
    using submitOrder_ex_result [OF assms, of throws] by blast
  then show ?thesis
    by (intro exI [of _ e1] exI [of _ e'] exI [of _ thrown])
      (auto simp: stops_def undisturbed_def split: if_splits)
qed

text \<open>
  A sell is used up by a buy whose first callback throws: it stays in the book without quantity, and
  the next buy is matched with it, for a reported quantity of zero.
\<close>

theorem callbacks_may_throw_witness:
  "(\<exists>e1 e'. submitOrder (slot_acquire 4) slot_release sell_4 engine0 = Some e1
      \<and> submitOrder_ex (\<lambda>_ _. False) (slot_acquire 4) slot_release sell_4 engine0 = Some (e', False) \<and> e' = e1)
    \<and> (\<exists>e1 e2 e3. submitOrder (slot_acquire 4) slot_release sell_4 engine0 = Some e1
      \<and> submitOrder_ex (\<lambda>_ _. True) (slot_acquire 4) slot_release buy_10 e1 = Some (e2, True)
      \<and> submitOrder (slot_acquire 4) slot_release buy_5 e2 = Some e3
      \<and> MatchReport (mk_order 3 101 5 True sym_WMT) (mk_order 1 100 0 False sym_WMT) 0 \<in> set (en_log e3))"
  using callbacks_may_throw [OF engine0_ok(1) slot_pool_spec [of 4], of sell_4 "\<lambda>_ _. False"] zero_trade_run symbols_wf
  by (auto simp: sell_4_def)

text \<open>
  An engine configured without an execution callback throws at the first trade of an order, before
  anything is reported.
\<close>

theorem empty_callback_throws:
  assumes "engine_inv live e" "pool_spec acquire release live" "symbol_wf (eo_symbol ord)"
    and "\<not> cf_executionReportCb config" "submitOrder acquire release ord e = Some e1" "en_log e1 \<noteq> en_log e"
  shows "\<exists>e'. submitOrder_ex (config_throws config) acquire release ord e = Some (e', True) \<and> en_log e' = en_log e"
proof -
  obtain e0 e' thrown where r: "submitOrder acquire release ord e = Some e0"
    "submitOrder_ex (config_throws config) acquire release ord e = Some (e', thrown)"
    "if thrown
     then (\<exists>n. stops (config_throws config) (en_log e) (en_log e0) n \<and> en_log e' = take n (en_log e0))
       \<and> (\<exists>a p. acquire (en_pool e) = (Some a, p) \<and> interrupted live a e')
     else e' = e0 \<and> undisturbed (config_throws config) (en_log e) (en_log e0)"
    using submitOrder_ex_result [OF assms(1-3), of "config_throws config"] by blast
  have e0: "e0 = e1" using r(1) assms(5) by simp
  have log: "en_log e1 = en_log e @ fst (submit_books ord (book_view e))"
    using submitOrder_step [OF assms(1-3)] assms(5,6) by (auto split: if_splits)
  then obtain ev evs where ev: "fst (submit_books ord (book_view e)) = ev # evs"
    using assms(6) by (cases "fst (submit_books ord (book_view e))") auto
  then have L: "en_log e1 = en_log e @ ev # evs" using log by simp
  have throws: "config_throws config (length (en_log e)) (en_log e1 ! length (en_log e))"
    using submit_books_first [OF ev] assms(4) by (auto simp: L config_throws_def)
  then have "\<not> undisturbed (config_throws config) (en_log e) (en_log e1)" by (auto simp: L undisturbed_def)
  with r(3) e0 obtain n where n: thrown "stops (config_throws config) (en_log e) (en_log e1) n" "en_log e' = take n (en_log e1)"
    by (auto split: if_splits)
  have "n = length (en_log e)"
    using n(2) throws unfolding stops_def by (metis le_eq_less_or_eq order_refl)
  with r(2) n L show ?thesis by auto
qed

theorem empty_callback_throws_witness:
  "\<exists>e1 e' config. submitOrder (slot_acquire 4) slot_release sell_4 engine0 = Some e1 \<and> \<not> cf_executionReportCb config
    \<and> submitOrder_ex (config_throws config) (slot_acquire 4) slot_release buy_10 e1 = Some (e', True) \<and> en_log e' = []"
proof -
  let ?c = "\<lparr>cf_maxOrders = 4, cf_executionReportCb = False, cf_matchReportCb = True\<rparr>"
  have wf: "symbol_wf (eo_symbol sell_4)" "symbol_wf (eo_symbol buy_10)" using symbols_wf by (simp_all add: sell_4_def buy_10_def)
  obtain e1 e2 where e1: "submitOrder (slot_acquire 4) slot_release sell_4 engine0 = Some e1" "engine_inv set e1" "en_log e1 = []"
    and e2: "submitOrder (slot_acquire 4) slot_release buy_10 e1 = Some e2" "en_log e2 \<noteq> en_log e1"
    using first_trade by auto
  obtain e' where "submitOrder_ex (config_throws ?c) (slot_acquire 4) slot_release buy_10 e1 = Some (e', True)"
    "en_log e' = []"
    using empty_callback_throws [OF e1(2) slot_pool_spec wf(2) _ e2, of ?c] e1(3) by auto
  with e1(1) show ?thesis by (intro exI [of _ e1] exI [of _ e'] exI [of _ ?c]) simp
qed
section \<open>Pool, map and price levels\<close>

text \<open>
  A new pool hands out the entries \<open>0, 1, ..., n - 1\<close>, each once, and then says that it is
  empty, however often it is asked.
\<close>

theorem pool_fresh_allocations:
  assumes "0 < n" "n < NO_FREE_INDEX"
  shows "\<exists>p. allocate_many m (pool_new raw n)
    = Some ([0..<min m n] @ replicate (m - n) NO_FREE_INDEX, p)"
  using allocate_many_after [OF assms(2), of 0 m raw] pool_new_after [OF assms(1), of raw] by simp

theorem pool_fresh_allocations_witness:
  "\<exists>p. allocate_many 4 (pool_new (replicate 16 0) 3) = Some ([0, 1, 2, NO_FREE_INDEX], p)"
  using pool_fresh_allocations [of 3 4 "replicate 16 0"] by (simp add: NO_FREE_INDEX_def upt_rec numeral_2_eq_2)

text \<open>
  C27. \<open>free\<close> corrupts the free list: it resets the entry after linking it, which stores 0 in
  the link. The entry comes out of the next allocation, and the allocation after it returns
  entry 0, whoever owns that; when entry 0 itself is freed, every later allocation returns it.
\<close>

theorem pool_free_corrupts:
  assumes "idx < length (p_entries p)" "length (p_entries p) < NO_FREE_INDEX"
  shows "\<exists>p0 p2. free_entry raw idx p = Some p0 \<and> allocate_many 2 p0 = Some ([idx, 0], p2)
    \<and> (idx = 0 \<longrightarrow> (\<forall>n. allocate_many n p0 = Some (replicate n 0, p0)))"
proof -
  obtain p0 p1 where a: "free_entry raw idx p = Some p0" "allocate p0 = Some (idx, p1)"
    "p_freeIndex p1 = 0" "length (p_entries p1) = length (p_entries p)"
    by (rule free_then_allocate [OF assms]) (rule that)
  have "p_entries p1 \<noteq> []" using a(4) assms(1) by auto
  then obtain p2 where "allocate p1 = Some (0, p2)" using allocate_at_0 [OF a(3)] by blast
  then have two: "allocate_many 2 p0 = Some ([idx, 0], p2)" using a(2) by (simp add: numeral_2_eq_2)
  have "p_entries p \<noteq> []" using assms(1) by auto
  then obtain q where "free_entry raw 0 p = Some q" "\<And>n. allocate_many n q = Some (replicate n 0, q)"
    using free_0_loops [OF _ assms(2)] by blast
  with a(1) two show ?thesis by (intro exI [of _ p0] exI [of _ p2]) auto
qed

theorem pool_free_corrupts_witness:
  "\<exists>p0 p2. free_entry (replicate 16 0) 1 (pool_new (replicate 16 0) 3) = Some p0
    \<and> allocate_many 2 p0 = Some ([1, 0], p2)"
  using pool_free_corrupts [of 1 "pool_new (replicate 16 0) 3" "replicate 16 0"]
  by (auto simp: pool_new_def NO_FREE_INDEX_def)

text \<open>
  C16. A table of at most 65536 cells implements a partial map from order ids in which no two
  ids share a cell: \<open>insert\<close> adds the entry exactly when the cell of the id is free and otherwise
  says so, \<open>find\<close> returns what was inserted, \<open>erase\<close> removes it; no access is out of range.
\<close>

theorem order_map_refines:
  assumes "omap_rep m M" "p \<noteq> MAP_NONE"
  shows "(\<exists>ok m'. omap_insert i p s m = Some (ok, m') \<and> (ok \<longleftrightarrow> cell m i \<notin> cell m ` dom M)
      \<and> omap_rep m' (if ok then M(i \<mapsto> (p, s)) else M)
      \<and> (ok \<longrightarrow> omap_find i m' = Some \<lparr>mv_poolIndex = p, mv_side = s\<rparr>))
    \<and> (\<forall>j \<in> dom M. \<exists>m'. omap_erase j m = Some m' \<and> omap_rep m' (M(j := None)))"
proof -
  obtain ok m' where ins: "omap_insert i p s m = Some (ok, m')" "ok \<longleftrightarrow> cell m i \<notin> cell m ` dom M"
    "omap_rep m' (if ok then M(i \<mapsto> (p, s)) else M)"
    using omap_insert_rep [OF assms, of i s] by blast
  have "omap_find i m' = Some \<lparr>mv_poolIndex = p, mv_side = s\<rparr>" if ok
    using omap_rep_find [of m' "M(i \<mapsto> (p, s))" i p s] ins(3) that by simp
  with ins omap_erase_rep [OF assms(1)] show ?thesis by blast
qed

theorem order_map_refines_witness:
  "\<exists>ok m'. omap_insert 5 3 66 (omap_new 8) = Some (ok, m')
    \<and> (ok \<longrightarrow> omap_find 5 m' = Some \<lparr>mv_poolIndex = 3, mv_side = 66\<rparr>)"
  using order_map_refines [OF omap_rep_new, of 8 3 5 66] by (auto simp: MAP_NONE_def)

text \<open>
  The id is not stored, so an id that was never inserted but shares the cell of one that
  was is found with the other order's entry, and erasing it removes the other order.
\<close>

theorem order_map_aliases:
  assumes "omap_rep m M" "M i = Some (p, s)" "cell m j = cell m i"
  shows "omap_find j m = Some \<lparr>mv_poolIndex = p, mv_side = s\<rparr>
    \<and> (\<exists>m'. omap_erase j m = Some m' \<and> omap_rep m' (M(i := None)))"
proof -
  have "map_size_ok m" using assms(1) by (simp add: omap_rep_def)
  then have "omap_find j m = omap_find i m" "omap_erase j m = omap_erase i m"
    using assms(3) by (simp_all add: omap_ops)
  then show ?thesis using omap_rep_find [OF assms(1,2)] omap_erase_rep [OF assms(1)] assms(2) by auto
qed

theorem order_map_aliases_witness:
  "\<exists>m. omap_insert 5 3 66 (omap_new 8) = Some (True, m)
    \<and> omap_find 13 m = Some \<lparr>mv_poolIndex = 3, mv_side = 66\<rparr>"
proof -
  let ?m = "(omap_new 8)[5 := \<lparr>mv_poolIndex = 3, mv_side = 66\<rparr>]"
  have rep0: "omap_rep (omap_new 8) Map.empty" by (rule omap_rep_new) simp_all
  have c: "cell (omap_new 8) 5 = 5" "cell (omap_new 8) 13 = 5" by (simp_all add: cell_def MASK_def omap_new_def)
  have ins: "omap_insert 5 3 66 (omap_new 8) = Some (True, ?m)"
    using omap_ops(1) [of "omap_new 8" 5 3 66] c by (simp add: map_size_ok_def omap_new_def empty_value_def)
  have "omap_rep ?m [5 \<mapsto> (3, 66)]"
    using omap_rep_insert [OF rep0, of 5 3 66] c by (simp add: MAP_NONE_def)
  from order_map_aliases [OF this, of 5 3 66 13] ins c show ?thesis by simp
qed

text \<open>
  \<open>appendToLevel\<close> puts an entry that is in no queue at the end of the queue of its level. It
  stays in range and keeps every other queue and the totals.
\<close>

theorem append_to_level_correct:
  assumes "levels_rep pl pool Q" "unat l < length Q" "x \<notin> set (concat Q)" "x \<noteq> NIL" "unat x < length pool"
  shows "\<exists>pl' pool'. appendToLevel l x pl pool = Some (pl', pool')
    \<and> levels_rep pl' pool' (Q[unat l := Q ! unat l @ [x]])"
  by (rule appendToLevel_rep [OF assms])

theorem append_to_level_correct_witness:
  "\<exists>pl' pool'. appendToLevel 2 1 (pl_new 4) free_slots = Some (pl', pool')
    \<and> levels_rep pl' pool' [[], [], [1], []]"
proof -
  have "unat (2 :: u16) < length (replicate 4 ([] :: u16 list))" "(1 :: u16) \<notin> set (concat (replicate 4 []))"
    "unat (1 :: u16) < length free_slots" by (simp_all add: free_slots_def)
  with append_to_level_correct [OF levels_rep_free, of 2 1] show ?thesis unfolding one_in_level by auto
qed

text \<open>
  \<open>unlinkFromLevel\<close> terminates and takes the entry out of its queue wherever it is in it,
  with its quantity out of the total, and returns whether the queue is now empty.
\<close>

theorem unlink_from_level_correct:
  assumes "levels_rep pl pool Q" "k < length Q" "x \<in> set (Q ! k)"
  shows "\<exists>pl' pool'. unlinkFromLevel x pl pool = Some (remove1 x (Q ! k) = [], pl', pool')
    \<and> levels_rep pl' pool' (Q[k := remove1 x (Q ! k)])"
  using unlinkFromLevel_rep [OF assms] by blast

theorem unlink_from_level_correct_witness:
  "\<exists>pl pool pl' pool'. appendToLevel 2 1 (pl_new 4) free_slots = Some (pl, pool)
    \<and> unlinkFromLevel 1 pl pool = Some (True, pl', pool') \<and> levels_rep pl' pool' [[], [], [], []]"
proof -
  obtain pl pool where a: "appendToLevel 2 1 (pl_new 4) free_slots = Some (pl, pool)"
    "levels_rep pl pool [[], [], [1], []]" by (rule append_one)
  have Q: "Suc (Suc 0) < length [[], [], [1 :: u16], []]" "(1 :: u16) \<in> set ([[], [], [1 :: u16], []] ! Suc (Suc 0))"
    by simp_all
  from unlink_from_level_correct [OF a(2) Q] a(1) show ?thesis by auto
qed

text \<open>
  \<open>reduceQuantity\<close> takes the amount from the entry and from the total of its level, and the
  aggregates \<open>hasOrders\<close> and \<open>activeLevelCount\<close> report the queues.
\<close>

theorem reduce_quantity_correct:
  assumes "levels_rep pl pool Q" "k < length Q" "x \<in> set (Q ! k)"
  shows "(\<exists>pl' pool'. reduceQuantity x qty pl pool = Some (pl', pool') \<and> levels_rep pl' pool' Q
      \<and> ps_quantity (pool' ! unat x) = ps_quantity (pool ! unat x) - qty)
    \<and> pl_hasOrders pl \<and> pl_activeLevelCount pl = length (filter (\<lambda>q. q \<noteq> []) Q)"
proof -
  have "\<exists>q \<in> set Q. q \<noteq> []" using assms(2,3) by (metis empty_iff list.set(1) nth_mem)
  then show ?thesis
    using reduceQuantity_rep [OF assms, of qty] pl_hasOrders_rep [OF assms(1)] pl_activeLevelCount_rep [OF assms(1)]
    by blast
qed

theorem reduce_quantity_correct_witness:
  "\<exists>pl pool pl' pool'. appendToLevel 2 1 (pl_new 4) free_slots = Some (pl, pool)
    \<and> reduceQuantity 1 4 pl pool = Some (pl', pool') \<and> levels_rep pl' pool' [[], [], [1], []]
    \<and> pl_activeLevelCount pl = 1"
proof -
  obtain pl pool where a: "appendToLevel 2 1 (pl_new 4) free_slots = Some (pl, pool)"
    "levels_rep pl pool [[], [], [1], []]" by (rule append_one)
  have Q: "Suc (Suc 0) < length [[], [], [1 :: u16], []]" "(1 :: u16) \<in> set ([[], [], [1 :: u16], []] ! Suc (Suc 0))"
    by simp_all
  from reduce_quantity_correct [OF a(2) Q, of 4] a(1) show ?thesis by auto
qed

text \<open>
  C11. The price levels are a queue per level. \<open>appendToLevel\<close> puts an entry that is in no queue at
  the end of the queue of its level; \<open>unlinkFromLevel\<close> ends, takes the entry out of its queue
  wherever it is in it and says whether the queue is now empty; \<open>reduceQuantity\<close> takes the amount
  from the entry and from the total of its level. None goes out of range, and each keeps the other
  queues and all totals; \<open>hasOrders\<close> and \<open>activeLevelCount\<close> report the queues.
\<close>

theorem level_queues_correct:
  assumes "levels_rep pl pool Q"
  shows "(unat l < length Q \<and> y \<notin> set (concat Q) \<and> y \<noteq> NIL \<and> unat y < length pool \<longrightarrow>
        (\<exists>pl' pool'. appendToLevel l y pl pool = Some (pl', pool')
          \<and> levels_rep pl' pool' (Q[unat l := Q ! unat l @ [y]])))
    \<and> (k < length Q \<and> x \<in> set (Q ! k) \<longrightarrow>
        (\<exists>pl' pool'. unlinkFromLevel x pl pool = Some (remove1 x (Q ! k) = [], pl', pool')
          \<and> levels_rep pl' pool' (Q[k := remove1 x (Q ! k)]))
        \<and> (\<exists>pl' pool'. reduceQuantity x qty pl pool = Some (pl', pool') \<and> levels_rep pl' pool' Q
          \<and> ps_quantity (pool' ! unat x) = ps_quantity (pool ! unat x) - qty))
    \<and> (pl_hasOrders pl \<longleftrightarrow> (\<exists>q \<in> set Q. q \<noteq> []))
    \<and> pl_activeLevelCount pl = length (filter (\<lambda>q. q \<noteq> []) Q)"
  using appendToLevel_rep [OF assms, of l y] unlinkFromLevel_rep [OF assms, of k x]
    reduceQuantity_rep [OF assms, of k x qty] pl_hasOrders_rep [OF assms] pl_activeLevelCount_rep [OF assms]
  by blast

theorem level_queues_correct_witness:
  "\<exists>pl pool pl' pool'. appendToLevel 2 1 (pl_new 4) free_slots = Some (pl, pool)
    \<and> unlinkFromLevel 1 pl pool = Some (True, pl', pool') \<and> levels_rep pl' pool' [[], [], [], []]"
proof -
  obtain pl pool where a: "appendToLevel 2 1 (pl_new 4) free_slots = Some (pl, pool)"
    "levels_rep pl pool [[], [], [1], []]" by (rule append_one)
  from level_queues_correct [OF a(2), of 0 0 "Suc (Suc 0)" 1 0] a(1) show ?thesis by auto
qed

text \<open>
  With a power-of-two number of levels, a price \<open>k\<close> ticks above the reference price, \<open>k\<close> a
  level number, goes to level \<open>k\<close> and back to the same price. Levels are taken modulo the size of
  the array, so a price any multiple of \<open>MaxLevels\<close> ticks higher goes to the same level and
  comes back as the lower price.
\<close>

theorem price_levels_roundtrip:
  assumes "levels_pow2 n pl" "pl_tickSize pl \<noteq> 0" "k < length (pl_levels pl)"
    and "unat price = unat (pl_refPrice pl) + k * unat (pl_tickSize pl)"
    and "unat price' = unat price + j * length (pl_levels pl) * unat (pl_tickSize pl)"
  shows "\<exists>l. priceToLevel price pl = Some l \<and> unat l = k \<and> levelToPrice l pl = price
    \<and> priceToLevel price' pl = Some l"
proof -
  have "pl_refPrice pl \<le> price" using assms(4) by (simp add: word_le_nat_alt)
  then have "priceToLevel price' pl = priceToLevel price pl"
    by (rule price_level_alias [OF assms(1,2) _ assms(5)])
  then show ?thesis using price_level_roundtrip [OF assms(1-4)] by auto
qed

theorem price_levels_roundtrip_witness:
  "\<exists>l. priceToLevel 10015 (pl_setTickSize 5 (pl_setReferencePrice 10000 (pl_new 4))) = Some l \<and> unat l = 3
    \<and> priceToLevel 10035 (pl_setTickSize 5 (pl_setReferencePrice 10000 (pl_new 4))) = Some l"
proof -
  let ?pl = "pl_setTickSize 5 (pl_setReferencePrice 10000 (pl_new 4))"
  have f: "pl_tickSize ?pl = 5" "pl_refPrice ?pl = 10000" "length (pl_levels ?pl) = 4"
    by (simp_all add: pl_setTickSize_def pl_setReferencePrice_def pl_new_def)
  then have "levels_pow2 2 ?pl" by (simp add: levels_pow2_def)
  from price_levels_roundtrip [OF this, of 3 10015 10035 1] f show ?thesis by auto
qed

text \<open>
  \<open>OrderBook::reset\<close> empties the map and both sides (no id is found, no level is active)
  and forgets that a reference price was set, but keeps the tick size; \<open>setTickSize\<close> keeps the
  three copies of the tick size equal.
\<close>

theorem order_book_reset:
  assumes "omap_rep (ob_map b) M" "levels_rep (ob_bids b) slots Qb" "levels_rep (ob_asks b) slots Qa"
    and "tick_sizes_agree b"
  shows "omap_rep (ob_map (ob_reset pool_reset b)) Map.empty
    \<and> (\<forall>i. omap_find i (ob_map (ob_reset pool_reset b)) = Some empty_value)
    \<and> ob_bidLevelCount (ob_reset pool_reset b) = 0 \<and> ob_askLevelCount (ob_reset pool_reset b) = 0
    \<and> \<not> ob_refPriceSet (ob_reset pool_reset b) \<and> tick_sizes_agree (ob_reset pool_reset b)
    \<and> ob_tickSize (ob_reset pool_reset b) = ob_tickSize b
    \<and> tick_sizes_agree (ob_setTickSize t b)"
  by (rule ob_reset_result [OF assms])

theorem order_book_reset_witness:
  "\<exists>pl pool. appendToLevel 2 1 (pl_new 4) free_slots = Some (pl, pool)
    \<and> ob_bidLevelCount (ob_reset id \<lparr>ob_pool = pool, ob_map = omap_new 8, ob_bids = pl, ob_asks = pl_new 4,
          ob_tickSize = pl_tickSize pl, ob_refPriceSet = True\<rparr>) = 0"
proof -
  obtain pl pool where a: "appendToLevel 2 1 (pl_new 4) free_slots = Some (pl, pool)"
    "levels_rep pl pool [[], [], [1], []]" by (rule append_one)
  have "pl_tickSize pl = 1"
    using a(1) by (auto simp: appendToLevel_def array_get_def pl_new_def Let_def split: if_splits)
  let ?b = "\<lparr>ob_pool = pool, ob_map = omap_new 8, ob_bids = pl, ob_asks = pl_new 4,
    ob_tickSize = pl_tickSize pl, ob_refPriceSet = True\<rparr>"
  have "omap_rep (ob_map ?b) Map.empty" using omap_rep_new [of 8] by simp
  moreover have "levels_rep (ob_bids ?b) pool [[], [], [1], []]" using a(2) by simp
  moreover have "levels_rep (ob_asks ?b) pool (replicate 4 [])" using levels_rep_new [of 4 pool] by simp
  moreover have "tick_sizes_agree ?b" using \<open>pl_tickSize pl = 1\<close> by (simp add: tick_sizes_agree_def pl_new_def)
  ultimately have "ob_bidLevelCount (ob_reset id ?b) = 0" using order_book_reset by blast
  with a(1) show ?thesis by blast
qed

text \<open>
  \<open>setSymbol\<close> stores the first 15 bytes of the string, up to a NUL, and always leaves a
  terminated array of 16 bytes: what \<open>hashSymbol\<close> needs to stay inside it.
\<close>

theorem set_symbol_terminates:
  assumes "length (o_symbol ord) = MAX_SYMBOL_LENGTH"
  shows "c_string (o_symbol (setSymbol s ord)) = c_string (take 15 s)
    \<and> symbol_wf (o_symbol (setSymbol s ord)) \<and> hashSymbol (o_symbol (setSymbol s ord)) \<noteq> None"
proof -
  have wf: "c_string (o_symbol (setSymbol s ord)) = c_string (take 15 s)" "symbol_wf (o_symbol (setSymbol s ord))"
    using setSymbol_bytes [OF assms, of s] by (simp_all add: MAX_SYMBOL_LENGTH_def)
  obtain k where "hashSymbol (o_symbol (setSymbol s ord)) = Some k" using wf(2) by (rule symbol_wf_hash)
  with wf show ?thesis by simp
qed

theorem set_symbol_terminates_witness:
  "c_string (o_symbol (setSymbol [65, 66] (order_new (replicate 16 0)))) = [65, 66]"
  using set_symbol_terminates [of "order_new (replicate 16 0)" "[65, 66]"]
  by (simp add: order_new_def MAX_SYMBOL_LENGTH_def c_string_def)

section \<open>Framing\<close>

text \<open>
  C12. Encoding and framing round-trip over any cutting of the byte stream: if every payload is
  shorter than 65536 bytes and the framer has room for a largest frame and a chunk, receiving the
  chunks never overflows and gives back exactly the payloads, in order, with the incomplete rest
  still in the buffer.
\<close>

theorem frames_roundtrip:
  assumes "concat chunks = fold (encode le) ps [] @ rest" "split_frame_bytes le rest = None"
    and "\<And>p. p \<in> set ps \<Longrightarrow> length p < 65536"
    and "\<And>chunk. chunk \<in> set chunks \<Longrightarrow> length chunk \<le> c" "65536 + c \<le> n"
  shows "\<exists>f. receive le chunks (framer_new n) = Inr (ps, f) \<and> fr_buffer f = rest"
proof -
  have "split_frame_bytes le (fr_buffer (framer_new n)) = None" "c + 65536 \<le> fr_maxFrameSize (framer_new n)"
    using assms(5) by (simp_all add: framer_new_def split_frame_bytes_def nextFrame_def)
  then obtain frames f where r: "receive le chunks (framer_new n) = Inr (frames, f)"
    using receive_no_overflow [of chunks c "framer_new n" le] assms(4) by (auto simp: add.commute)
  have "frames = ps \<and> fr_buffer f = rest"
    by (rule receive_encoded [OF r assms(1,2)]) (simp add: frame_fits_def assms(3))
  with r show ?thesis by simp
qed

theorem frames_roundtrip_witness:
  "\<exists>f. receive True [[2, 0, 65], [66, 1, 0], [67, 9]] (framer_new 70000) = Inr ([[65, 66], [67]], f)
    \<and> fr_buffer f = [9]"
  by (rule frames_roundtrip [where c = 3])
    (auto simp: encode_append u16_bytes_def split_frame_bytes_def nextFrame_def)

text \<open>
  A payload of 65536 bytes or more is not transmitted: the length prefix is the length
  modulo 65536, so the framer returns only the beginning of the payload and takes the bytes
  after it for the next frame.
\<close>

theorem long_payload_truncated:
  assumes "fr_buffer f = encode le p [] @ later" "65536 \<le> length p"
  shows "nextFrame le f = Some (take (length p mod 65536) p,
      f\<lparr>fr_buffer := drop (length p mod 65536) p @ later\<rparr>)
    \<and> take (length p mod 65536) p \<noteq> p"
proof -
  have "length p mod 65536 < 65536" by simp
  then have "length (take (length p mod 65536) p) \<noteq> length p" using assms(2) by simp
  then have "take (length p mod 65536) p \<noteq> p" by metis
  then show ?thesis using assms(1) by (simp add: nextFrame_split split_encoded_any)
qed

theorem long_payload_truncated_witness:
  "\<exists>f. nextFrame True f = Some ([], f\<lparr>fr_buffer := replicate 65536 7\<rparr>)"
proof -
  let ?p = "replicate 65536 (7 :: u8)" and ?f = "\<lparr>fr_buffer = encode True (replicate 65536 7) [], fr_maxFrameSize = 99999\<rparr>"
  have "nextFrame True ?f = Some (take (length ?p mod 65536) ?p, ?f\<lparr>fr_buffer := drop (length ?p mod 65536) ?p @ []\<rparr>)"
    by (rule conjunct1 [OF long_payload_truncated]) simp_all
  then have "nextFrame True ?f = Some ([], ?f\<lparr>fr_buffer := ?p\<rparr>)" by simp
  then show ?thesis by blast
qed

text \<open>
  The limit of the framer bounds everything it holds, not a frame: no frame whose two length
  bytes and payload exceed it ever comes out. A stream that begins with such a frame cannot be
  received at all: some \<open>push\<close> fails, however the stream is cut.
\<close>

theorem framer_limit:
  assumes "concat chunks = encode le p [] @ rest" "length p < 65536" "n < 2 + length p"
  shows "receive le chunks (framer_new n) = Inl Framer_Overflow
    \<and> (\<forall>chunks' frames f. receive le chunks' (framer_new n) = Inr (frames, f) \<longrightarrow> p \<notin> set frames)"
proof -
  have "p \<notin> set frames" if "receive le chunks' (framer_new n) = Inr (frames, f)" for chunks' frames f
    using receive_frame_size [OF that, of p] assms(3) by (auto simp: framer_new_def)
  then show ?thesis using receive_oversized [OF assms(1) _ assms(3)] assms(2) by (auto simp: frame_fits_def)
qed

theorem framer_limit_witness:
  "receive True [[3, 0], [65, 66], [67]] (framer_new 4) = Inl Framer_Overflow"
  by (rule conjunct1 [OF framer_limit [where p = "[65, 66, 67]" and rest = "[]"]])
    (simp_all add: encode_append u16_bytes_def)

section \<open>Sockets, servers and pipelines\<close>

text \<open>
  The constructor of \<open>TcpClient\<close> leaks no descriptor: when it throws, nothing it opened is
  open; when it returns, exactly its socket is, and the destructor closes it.
\<close>

theorem tcp_client_no_leak:
  "case tcp_client_new env host port nd sb rb of
     (Inl err, calls) \<Rightarrow> open_fds calls = {}
   | (Inr c, calls) \<Rightarrow> isConnected c \<and> open_fds calls = {tc_socket c}
       \<and> open_fds (calls @ tcp_client_delete c) = {}"
proof (cases "tcp_client_new env host port nd sb rb")
  case (Pair res calls)
  with tcp_client_new_fds [OF Pair] show ?thesis by (auto split: sum.splits)
qed

text \<open>
  The three UDP constructors leak their descriptor whenever they throw after \<open>socket\<close>
  succeeded: the destructor of an object that was not constructed does not run, and the
  constructors do not close.
\<close>

theorem udp_constructors_leak:
  assumes "udp_socket_new env address port = (Inl err, calls)
    \<or> udp_sender_new env address port ttl = (Inl err, calls)
    \<or> udp_receiver_new reuseport env address port bufSize = (Inl err, calls)"
  shows "open_fds calls = (if err = Socket_Failed then {} else {ue_socket env})"
  using assms udp_socket_new_fds [of env address port] udp_sender_new_fds [of env address port ttl]
    udp_receiver_new_fds [of reuseport env address port bufSize] by fastforce

theorem udp_constructors_leak_witness:
  "\<exists>env err calls. udp_receiver_new True env ''bad'' 5000 0 = (Inl err, calls) \<and> open_fds calls = {3}"
proof -
  let ?env = "\<lparr>ue_le = True, ue_socket = 3, ue_reuseaddr = 0, ue_ttl = 0, ue_loopback = 0, ue_bind = 0, ue_pton = 0, ue_addr = [], ue_membership = 0\<rparr>"
  obtain calls where c: "udp_receiver_new True ?env ''bad'' 5000 0 = (Inl (Invalid_Host ''bad''), calls)"
    by (simp add: udp_receiver_new_def Let_def)
  with udp_constructors_leak [of ?env "''bad''" 5000 _ calls _ True 0] show ?thesis by fastforce
qed

text \<open>
  Descriptors. The constructor of \<open>TcpClient\<close> leaks none: when it throws, nothing it opened is
  open; when it returns, exactly its socket is, and the destructor closes it. The three UDP
  constructors leave their descriptor open whenever they throw after \<open>socket\<close> succeeded: the
  destructor of an object that was not constructed does not run, and they do not close.
\<close>

theorem socket_descriptors:
  "(case tcp_client_new env host port nd sb rb of
      (Inl err, calls) \<Rightarrow> open_fds calls = {}
    | (Inr c, calls) \<Rightarrow> isConnected c \<and> open_fds calls = {tc_socket c}
        \<and> open_fds (calls @ tcp_client_delete c) = {})
   \<and> udp_leaves_open udp_socket_delete uenv (udp_socket_new uenv address uport)
   \<and> udp_leaves_open udp_sender_delete uenv (udp_sender_new uenv address uport ttl)
   \<and> udp_leaves_open udp_receiver_delete uenv (udp_receiver_new reuseport uenv address uport bufSize)"
  using tcp_client_new_fds [of env host port nd sb rb] udp_constructors_open
  by (auto split: prod.splits sum.splits)

theorem socket_descriptors_witness:
  "\<exists>calls. udp_receiver_new True \<lparr>ue_le = True, ue_socket = 3, ue_reuseaddr = 0, ue_ttl = 0, ue_loopback = 0, ue_bind = 0,
      ue_pton = 0, ue_addr = [], ue_membership = 0\<rparr> ''bad'' 5000 0 = (Inl (Invalid_Host ''bad''), calls) \<and> open_fds calls = {3}"
proof -
  let ?env = "\<lparr>ue_le = True, ue_socket = 3, ue_reuseaddr = 0, ue_ttl = 0, ue_loopback = 0, ue_bind = 0, ue_pton = 0, ue_addr = [], ue_membership = 0\<rparr>"
  obtain calls where c: "udp_receiver_new True ?env ''bad'' 5000 0 = (Inl (Invalid_Host ''bad''), calls)"
    by (simp add: udp_receiver_new_def Let_def)
  with socket_descriptors [of undefined "''h''" 80 True 0 0 ?env "''bad''" 5000 0 True 0] show ?thesis
    by (simp add: udp_leaves_open_def)
qed

text \<open>
  C31. \<open>sendAll\<close> decrements \<open>remaining\<close> by one, not by what was sent. Up to the first call of \<open>send\<close> that
  does not take exactly one byte it sends byte after byte; if that call takes nothing it returns
  false, and if it takes more the next call reads past the data; without such a call it returns
  true. Of encoded messages that are sent with it until one fails, a framer at the other end gets
  exactly those reported as sent, however the stream is cut; but with a kernel that takes all it
  is offered already the first message is undefined.
\<close>

theorem sendAll_frames:
  assumes "\<And>i k n. snd_result i k n \<le> int n"
  shows "sendAll (snd_result 0) data
      = (case find (\<lambda>j. snd_result 0 j (length data - j) \<noteq> 1) [0..<length data] of
           None \<Rightarrow> Some (True, data)
         | Some j \<Rightarrow> if snd_result 0 j (length data - j) \<le> 0 then Some (False, take j data) else None)
    \<and> (send_messages le snd_result ps = Some (sent, out) \<and> (\<forall>p \<in> set ps. frame_fits p)
        \<and> concat chunks = out \<and> (\<forall>chunk \<in> set chunks. length chunk \<le> c) \<and> 65536 + c \<le> m
      \<longrightarrow> (\<exists>f. receive le chunks (framer_new m) = Inr (take sent ps, f)))
    \<and> (ps \<noteq> [] \<longrightarrow> send_messages le (\<lambda>i k n. int n) ps = None)"
proof -
  have "sendAll (snd_result 0) data
      = (case find (\<lambda>j. snd_result 0 j (length data - j) \<noteq> 1) [0..<length data] of
           None \<Rightarrow> Some (True, data)
         | Some j \<Rightarrow> if snd_result 0 j (length data - j) \<le> 0 then Some (False, take j data) else None)"
    using sendAll_outcome [of "snd_result 0" data, OF assms] by (simp only: first_odd_def add_0)
  moreover have "\<exists>f. receive le chunks (framer_new m) = Inr (take sent ps, f)"
    if "send_messages le snd_result ps = Some (sent, out)" "\<forall>p \<in> set ps. frame_fits p"
      "concat chunks = out" "\<forall>chunk \<in> set chunks. length chunk \<le> c" "65536 + c \<le> m"
    by (rule send_messages_received [OF assms that(1) _ that(3) _ that(5)]) (use that(2,4) in auto)
  moreover have "ps \<noteq> [] \<longrightarrow> send_messages le (\<lambda>i k n. int n) ps = None"
    by (cases ps) (simp_all only: send_messages_whole simp_thms)
  ultimately show ?thesis by blast
qed

text \<open>One message goes through byte by byte; of the second the socket takes three bytes.\<close>

theorem sendAll_frames_witness:
  "\<exists>out f. send_messages True (\<lambda>i k n. if i = 1 \<and> k = 3 then 0 else min 1 (int n)) [[65], [66, 67]] = Some (1, out)
    \<and> receive True [out] (framer_new 70000) = Inr ([[65]], f)"
proof -
  let ?r = "\<lambda>i k n. if i = 1 \<and> k = 3 then 0 else min 1 (int n) :: int"
  have s: "send_messages True ?r [[65], [66, 67]] = Some (1, [1, 0, 65, 2, 0, 66])"
    by code_simp
  have "(\<forall>p \<in> set [[65 :: u8], [66, 67]]. frame_fits p)" by (simp add: frame_fits_def)
  with sendAll_frames [of ?r "[]" True "[[65], [66, 67]]" 1 "[1, 0, 65, 2, 0, 66]" "[[1, 0, 65, 2, 0, 66]]" 6 70000] s
  show ?thesis by auto
qed

text \<open>
  The accept loop of \<open>TcpServer\<close> closes the listening socket on every path, starts one
  client thread for each successful \<open>accept\<close>, in order, and once it listens it ends exactly when
  some check of the running flag reads false; a check follows only after an \<open>accept\<close> has
  returned, so \<open>stop\<close> does not end a loop that waits for a connection that never comes.
\<close>

theorem listen_loop_correct:
  "(\<forall>calls clients. listenLoop env running accepts s = (Exited, calls, clients) \<longrightarrow> open_fds calls = {})
   \<and> (\<exists>n. snd (snd (listenLoop env running accepts s)) = filter (\<lambda>fd. fd \<ge> 0) (take n accepts))
   \<and> (se_socket env \<ge> 0 \<and> se_bind env \<ge> 0 \<and> se_listen env \<ge> 0 \<longrightarrow>
        (fst (listenLoop env running accepts s) = Blocked \<longleftrightarrow> (\<forall>k \<le> length accepts. running k)))"
proof -
  obtain n where n: "snd (accept_loop running 0 accepts []) = filter (\<lambda>fd. fd \<ge> 0) (take n accepts)"
    using accept_loop_clients [of accepts running 0 "[]"] by auto
  have "snd (snd (listenLoop env running accepts s)) \<in> {[], filter (\<lambda>fd. fd \<ge> 0) (take n accepts)}"
    using n by (auto simp: listenLoop_def Let_def split: prod.splits loop_end.splits)
  then have "\<exists>n. snd (snd (listenLoop env running accepts s)) = filter (\<lambda>fd. fd \<ge> 0) (take n accepts)"
    by (metis (no_types, lifting) filter.simps(1) insertE singletonD take0)
  then show ?thesis using listenLoop_closes listenLoop_blocked by blast
qed

theorem listen_loop_correct_witness:
  "fst (listenLoop \<lparr>se_le = True, se_socket = 3, se_bind = 0, se_listen = 0\<rparr> (\<lambda>k. k = 0) [] (tcp_server_new 80 5)) = Blocked"
  using listen_loop_correct [of "\<lparr>se_le = True, se_socket = 3, se_bind = 0, se_listen = 0\<rparr>" "\<lambda>k. k = 0" "[]" "tcp_server_new 80 5"]
  by simp

text \<open>
  \<open>TcpPipeline\<close> with a subscribed decoder: the chunks that \<open>recv\<close> delivers before the peer
  closes reach the callback unchanged, so a framer behind it with room for a frame and a buffer
  of 4096 bytes gives exactly the messages the other side encoded.
\<close>

theorem tcp_pipeline_delivers_frames:
  assumes "\<And>j. running j" "st_callback d" "st_calls d = []"
    and "concat (received rs) = fold (encode le) ps [] @ rest" "split_frame_bytes le rest = None"
    and "\<And>p. p \<in> set ps \<Longrightarrow> frame_fits p" "\<And>c. c \<in> set (received rs) \<Longrightarrow> length c \<le> 4096"
    and "65536 + 4096 \<le> n"
  shows "\<exists>f. receive le (st_calls (snd (tcp_readLoop running 0 rs d))) (framer_new n) = Inr (ps, f)
    \<and> fr_buffer f = rest"
  by (rule tcp_pipeline_frames [where running = running, OF assms])

theorem tcp_pipeline_delivers_frames_witness:
  "\<exists>f. receive True (st_calls (snd (tcp_readLoop (\<lambda>_. True) 0 [Received [2, 0, 65], Received [66], No_Data]
      (subscribe stage_new)))) (framer_new 69632) = Inr ([[65, 66]], f)"
proof -
  have "\<exists>f. receive True (st_calls (snd (tcp_readLoop (\<lambda>_. True) 0 [Received [2, 0, 65], Received [66], No_Data]
      (subscribe stage_new)))) (framer_new 69632) = Inr ([[65, 66]], f) \<and> fr_buffer f = []"
    by (rule tcp_pipeline_delivers_frames)
      (auto simp: encode_append u16_bytes_def split_frame_bytes_def nextFrame_def subscribe_def stage_new_def frame_fits_def)
  then show ?thesis by blast
qed

text \<open>
  A connection of \<open>TcpConnectionManager\<close> is not re-established: no result of \<open>recv\<close>, end of
  stream included, ends its loop or changes its socket; the loop ends only when a check of the
  running flag reads false. A connection that cannot be made leaves the manager as it was, with
  nothing open.
\<close>

theorem connection_manager_loop:
  assumes "isConnected client"
  shows "(fst (conn_loop client running 0 rs msgs) = Exited \<longleftrightarrow> (\<exists>j \<le> length rs. \<not> running j))
    \<and> (\<forall>err calls. addConnection grow env host port m = (Inl err, calls) \<longrightarrow> open_fds calls = {})"
  using conn_loop_exits [OF assms, of running 0 rs msgs] addConnection_result [of grow env host port m] by auto

theorem connection_manager_loop_witness:
  "fst (conn_loop \<lparr>tc_socket = 3, tc_host = ''h'', tc_port = 80\<rparr> (\<lambda>_. True) 0 [No_Data, No_Data] []) = Blocked"
  using connection_manager_loop [of "\<lparr>tc_socket = 3, tc_host = ''h'', tc_port = 80\<rparr>" "\<lambda>_. True" "[No_Data, No_Data]" "[]"]
    loop_end.exhaust by (auto simp: isConnected_def)

section \<open>Market data\<close>

text \<open>
  C20. \<open>upsert\<close> with a sort that orders a permutation keeps the depth book well-formed (sorted
  from the best price, ids distinct, at most \<open>maxLevels\<close>) and leaves the other side alone. Of the order
  and the old orders with other ids it keeps as many as fit, and the best of them: exactly
  \<open>maxLevels\<close> of them or all, and what it cuts off is never better than what it keeps. \<open>remove\<close> keeps
  the book well-formed and drops exactly the orders with the id.
\<close>

theorem feed_updates_correct:
  assumes "std_sort srt" "feed_ok fd"
  shows "feed_ok (upsert srt side ord fd)
    \<and> fd_book (\<not> side) (upsert srt side ord fd) = fd_book (\<not> side) fd
    \<and> (let all = insert ord {x \<in> set (fd_book side fd). fo_id x \<noteq> fo_id ord};
           kept = set (fd_book side (upsert srt side ord fd))
       in kept \<subseteq> all \<and> length (fd_book side (upsert srt side ord fd)) = min (fd_maxLevels fd) (card all)
          \<and> card kept = min (fd_maxLevels fd) (card all)
          \<and> (card all \<le> fd_maxLevels fd \<longrightarrow> kept = all)
          \<and> (\<forall>x \<in> all - kept. \<forall>y \<in> kept. \<not> better side x y))
    \<and> feed_ok (feed_remove side i fd)
    \<and> fd_book side (feed_remove side i fd) = filter (\<lambda>x. fo_id x \<noteq> i) (fd_book side fd)"
proof -
  let ?all = "insert ord {x \<in> set (fd_book side fd). fo_id x \<noteq> fo_id ord}"
  let ?new = "fd_book side (upsert srt side ord fd)"
  have d: "distinct (map fo_id (fd_book side fd))" using assms(2) by (simp add: feed_ok_book side_ok_def)
  have all: "length (put_order ord (fd_book side fd)) = card ?all"
    using put_order_set [OF d, of ord] distinct_card [of "put_order ord (fd_book side fd)"]
      put_order_distinct [OF d, of ord] by (simp add: distinct_map)
  then have "card ?all \<le> fd_maxLevels fd \<Longrightarrow> set ?new = ?all"
    using upsert_all_kept [OF assms, of ord side] by simp
  moreover have len: "length ?new = min (fd_maxLevels fd) (card ?all)"
    using upsert_kept(2) [OF assms, of side ord] all by simp
  moreover have "distinct ?new" using upsert_ok [OF assms, of side ord]
    by (simp add: feed_ok_book side_ok_def distinct_map)
  then have "card (set ?new) = min (fd_maxLevels fd) (card ?all)" using len by (simp add: distinct_card)
  moreover have "\<forall>x \<in> ?all - set ?new. \<forall>y \<in> set ?new. \<not> better side x y"
    using upsert_cut [OF assms] by blast
  ultimately show ?thesis
    using upsert_ok [OF assms] upsert_book(2) [OF assms(1)] upsert_kept(1) [OF assms] remove_ok [OF assms(2)]
      remove_book(1) [of side i fd]
    unfolding Let_def by blast
qed

theorem feed_updates_correct_witness:
  "feed_ok (upsert cmp_sort True \<lparr>fo_id = 7, fo_price = 100 :: int, fo_quantity = 5\<rparr> (feed_new 2))
    \<and> fd_book False (upsert cmp_sort True \<lparr>fo_id = 7, fo_price = 100 :: int, fo_quantity = 5\<rparr> (feed_new 2)) = []
    \<and> length (fd_book True (upsert cmp_sort True \<lparr>fo_id = 7, fo_price = 100 :: int, fo_quantity = 5\<rparr> (feed_new 2))) = 1"
  using feed_updates_correct [OF std_sort_cmp_sort feed_ok_new, of True "\<lparr>fo_id = 7, fo_price = 100 :: int, fo_quantity = 5\<rparr>" 2 0]
  by (simp add: fd_book_def feed_new_def Let_def)

text \<open>
  The synthetic generator never grows the book: with at most \<open>maxLevels\<close> levels, after any
  positive number of rounds from an empty book each side holds exactly \<open>levels\<close> orders, sorted,
  with the generator's ids. The id ranges of bids and asks, meant to be separate, are so only
  below 1000 levels.
\<close>

theorem injector_steady:
  assumes "std_sort srt" "levels \<le> maxLevels" "levels \<le> 2 ^ 63"
    and "injectLoop srt bidAt askAt levels draws shift rounds 0 mid
        (feed_new maxLevels :: ('p::linorder) feed) = (mid', fd)"
  shows "feed_ok fd \<and> injected_ids levels fd
    \<and> (0 < rounds \<longrightarrow> length (fd_bids fd) = levels \<and> length (fd_asks fd) = levels)
    \<and> (bid_ids levels \<inter> ask_ids levels = {} \<longleftrightarrow> levels < 1000)"
proof -
  have "injected_ids levels (feed_new maxLevels :: 'p feed)" "fd_maxLevels (feed_new maxLevels :: 'p feed) = maxLevels"
    by (simp_all add: injected_ids_def feed_new_def)
  then show ?thesis
    using injectLoop_ok [OF assms(1) feed_ok_new _ _ _ assms(4)] assms(2,3) id_ranges [OF assms(3)] by simp
qed

theorem injector_steady_witness:
  "\<exists>mid fd. injectLoop cmp_sort (\<lambda>m i. m - int i) (\<lambda>m i. m + int i) 3 (\<lambda>_ _. 7) (\<lambda>m _. m + 1) 5 0 10000 (feed_new 4)
      = (mid, fd) \<and> length (fd_bids fd) = 3 \<and> length (fd_asks fd) = 3"
proof -
  obtain mid fd where r: "injectLoop cmp_sort (\<lambda>m i. m - int i) (\<lambda>m i. m + int i) 3 (\<lambda>_ _. 7) (\<lambda>m _. m + 1) 5 0 10000
      (feed_new 4) = (mid, fd)" by fastforce
  from injector_steady [OF std_sort_cmp_sort _ _ r] have "length (fd_bids fd) = 3 \<and> length (fd_asks fd) = 3" by simp
  with r show ?thesis by blast
qed

section \<open>Partitions and workers\<close>

text \<open>
  With a kernel whose \<open>::send\<close> takes at most one byte at a time, \<open>processOrders\<close> returns, with the queue
  of orders empty, and has sent one report for each queued order, in the order they were submitted, first
  over TCP and then over UDP, each a full fill of its order. The queue of fills keeps the first reports
  that fit; nothing takes them out. With a kernel that takes all it is offered the first report already
  is undefined, because \<open>sendAll\<close> counts the calls and not the bytes.
\<close>

theorem partition_processes_all:
  assumes "ring_wf (pt_ordersQueue p)" "ring_wf (pt_fillsQueue p)"
    and "\<And>ord. ord \<in> set (ring_items (pt_ordersQueue p)) \<Longrightarrow> symbol_wf (o_symbol ord)"
  shows "(one_byte_sends tcp \<longrightarrow> (\<exists>p' reports. processOrders toDouble clock rep tcp udp p = Some p'
      \<and> ring_items (pt_ordersQueue p') = []
      \<and> pt_sent p' = pt_sent p @ sends_of rep tcp udp (pt_udpSender p) (pt_reports p) reports
      \<and> map er_orderId reports = map o_orderId (ring_items (pt_ordersQueue p))
      \<and> map er_filledQuantity reports = map o_quantity (ring_items (pt_ordersQueue p))
      \<and> ring_items (pt_fillsQueue p') = ring_items (pt_fillsQueue p)
          @ take (ring_limit (pt_fillsQueue p) - length (ring_items (pt_fillsQueue p))) reports))
    \<and> (ring_items (pt_ordersQueue p) \<noteq> [] \<and> (\<forall>r. 2 \<le> length (rep r))
      \<longrightarrow> processOrders toDouble clock rep (\<lambda>i k n. int n) udp p = None)"
proof -
  let ?ords = "ring_items (pt_ordersQueue p)"
  let ?reports = "reports_of toDouble clock (pt_reports p) ?ords"
  have "\<exists>p' reports. processOrders toDouble clock rep tcp udp p = Some p'
      \<and> ring_items (pt_ordersQueue p') = []
      \<and> pt_sent p' = pt_sent p @ sends_of rep tcp udp (pt_udpSender p) (pt_reports p) reports
      \<and> map er_orderId reports = map o_orderId ?ords \<and> map er_filledQuantity reports = map o_quantity ?ords
      \<and> ring_items (pt_fillsQueue p') = ring_items (pt_fillsQueue p)
          @ take (ring_limit (pt_fillsQueue p) - length (ring_items (pt_fillsQueue p))) reports"
    if "one_byte_sends tcp"
    using processOrders_result [OF that assms(1) refl assms(3), of toDouble clock rep udp]
      push_all_fills [OF assms(2), of ?reports]
      reports_of_maps [where toDouble = toDouble and clock = clock and n = "pt_reports p", OF assms(3)]
    by (auto intro!: exI [of _ ?reports])
  moreover have "processOrders toDouble clock rep (\<lambda>i k n. int n) udp p = None"
    if "?ords \<noteq> []" "\<forall>r. 2 \<le> length (rep r)"
    by (rule processOrders_whole [OF assms(1) that(1)]) (use that(2) in blast)
  ultimately show ?thesis by blast
qed

text \<open>An order in the queue, and a kernel that takes one byte at a time.\<close>

theorem partition_processes_all_witness:
  "\<exists>p'. processOrders sint (\<lambda>_. 0) two_bytes (\<lambda>i k n. min 1 (int n)) (\<lambda>_. 2) (snd (part_submitOrder (order_new sym_A)
      (part_A\<lparr>pt_ordersQueue := ring_new (replicate 4 (order_new sym_A))\<rparr>))) = Some p' \<and> length (pt_sent p') = 2"
proof -
  let ?r = "ring_new (replicate 4 (order_new sym_A))" and ?x = "order_new sym_A"
  let ?p = "snd (part_submitOrder ?x (part_A\<lparr>pt_ordersQueue := ?r\<rparr>))"
  have r: "ring_wf ?r" "ring_items ?r = []" "ring_limit ?r = 3" by (simp_all add: ring_wf_new ring_items_new) (simp add: ring_limit_def ring_new_def capacity_def)
  have q: "pt_ordersQueue ?p = snd (tryPush ?x ?r)" "pt_fillsQueue ?p = ring_new [undefined, undefined]" "pt_sent ?p = []"
    by (simp_all add: part_submitOrder_def part_A_def partition_new_def case_prod_beta)
  have "fst (tryPush ?x ?r)" using ringq.push_stores [OF r(1), of ?x] by (simp only: r(2,3)) simp
  then have "ring_wf (pt_ordersQueue ?p)" "ring_items (pt_ordersQueue ?p) = [?x]"
    unfolding q(1) using ringq.push_wf [OF r(1), of ?x] ringq.push_items [OF r(1), of ?x] by (simp_all only: r(2)) simp_all
  moreover have "ring_wf (pt_fillsQueue ?p)" by (simp add: q(2) ring_wf_new)
  moreover have "one_byte_sends (\<lambda>i k n. min 1 (int n))" by (simp add: one_byte_sends_def)
  ultimately obtain p' reports where p': "processOrders sint (\<lambda>_. 0) two_bytes (\<lambda>i k n. min 1 (int n)) (\<lambda>_. 2) ?p = Some p'"
    "pt_sent p' = pt_sent ?p @ sends_of two_bytes (\<lambda>i k n. min 1 (int n)) (\<lambda>_. 2) (pt_udpSender ?p) (pt_reports ?p) reports"
    "map er_orderId reports = map o_orderId [?x]"
    using partition_processes_all [of ?p "\<lambda>i k n. min 1 (int n)" sint "\<lambda>_. 0" two_bytes "\<lambda>_. 2"] sym_A_wf
    by (metis empty_set list.simps(15) singletonD)
  from p'(3) obtain x where "reports = [x]" by auto
  then have "length (pt_sent p') = 2" by (simp add: p'(2) q(3))
  with p'(1) show ?thesis by blast
qed

text \<open>
  C22. A partition between the thread that submits and the thread that processes, in any interleaving
  and under release and acquire; each \<open>::send\<close> and \<open>::sendto\<close> of the processing thread is a step, whatever
  it returns. The orders published are those reported, then at most one in hand, then the queue. For
  each reported order, in order, the socket was given the first bytes of its report and the datagram
  with all of it; no cell is raced for. Neither thread waits for the other: the submitting thread can always
  go on, and so can the other one when the call it is in returns, unless the next \<open>::send\<close> would read past
  the report. It comes to that exactly when a \<open>::send\<close> takes more than one byte and is not the last. The
  steps from an order in hand to the end of \<open>matchOrder\<close> give what \<open>part_matchOrder\<close> gives. A call of
  \<open>processOrders\<close> with reports of \<open>sz\<close> bytes takes at most \<open>sz + 7\<close> steps for every order that was queued or
  is submitted meanwhile, and \<open>sz + 5\<close> more.
\<close>

theorem partition_threads_correct:
  assumes "b \<noteq> []" "(partition_moves toDouble clock rep)\<^sup>*\<^sup>* (partition_threads_new b p) s"
  shows "(\<exists>matched hist j. wr_pushed (px_queue s) = matched @ unmatched (px_pc s) @ wr_queue (px_queue s)
      \<and> map (er_orderId \<circ> fst) hist = map o_orderId matched
      \<and> map (er_filledQuantity \<circ> fst) hist = map o_quantity matched
      \<and> pt_sent (px_partition s) = pt_sent p @ sent_of rep (pt_udpSender p) hist
          @ (case px_pc s of Match_Cast ord r \<Rightarrow> [Sent_Tcp r (take j (rep r))] | _ \<Rightarrow> []))
    \<and> \<not> data_race (px_queue s) \<and> (\<exists>ts. submit_next ord ts fails s \<noteq> None)
    \<and> ((\<exists>ts. match_next toDouble clock rep ts n s \<noteq> None) \<longleftrightarrow> \<not> reads_past rep (px_pc s))
    \<and> (match_next toDouble clock rep ts n s = Some s1 \<longrightarrow> (reads_past rep (px_pc s1) \<longleftrightarrow>
        (\<exists>ord r ptr remaining sent. px_pc s = Match_Send ord r ptr remaining sent \<and> 2 \<le> remaining \<and> 2 \<le> n)))
    \<and> (px_pc s = Match_Order ord' \<and> part_matchOrder toDouble clock rep tcp udp ord' (px_partition s) = Some p'
      \<longrightarrow> (\<exists>ns. matcher_run toDouble clock rep ns s = Some (s\<lparr>px_partition := p', px_pc := Match_Pop\<rparr>)))
    \<and> (report_size rep sz \<and> partition_run toDouble clock rep ms s = Some s' \<and> (\<forall>m \<in> set ms. proper_move m)
        \<and> (\<forall>k s1. partition_run toDouble clock rep (take k ms) s = Some s1 \<longrightarrow> px_pc s1 \<noteq> Match_Out)
      \<longrightarrow> length (filter by_matcher ms) \<le> (sz + 7) * (length (wr_queue (px_queue s))
          + (length (wr_pushed (px_queue s')) - length (wr_pushed (px_queue s)))) + sz + 5)"
proof -
  have c: "0 < length b" and inv: "partition_inv toDouble clock rep (length b) p s"
    using partition_flow.reachable_inv [OF _ assms(2), of "length b" p] assms(1) by auto
  note weak = partition_invD(1) [OF inv]
  have "length (filter by_matcher ms) \<le> (sz + 7) * (length (wr_queue (px_queue s))
      + (length (wr_pushed (px_queue s')) - length (wr_pushed (px_queue s)))) + sz + 5"
    if "report_size rep sz" "partition_run toDouble clock rep ms s = Some s'" "\<forall>m \<in> set ms. proper_move m"
      "\<forall>k s1. partition_run toDouble clock rep (take k ms) s = Some s1 \<longrightarrow> px_pc s1 \<noteq> Match_Out"
    by (rule call_steps_within [OF inv c that(2,1)]) (use that(3,4) in blast)+
  then show ?thesis
    using partition_flow_orders [OF inv] weak_inv_no_race [OF weak] submit_enabled [OF inv] match_enabled [OF inv]
      reads_past_step [OF inv] matcher_run_matchOrder [of s ord' toDouble clock rep tcp udp p']
    by (intro conjI impI) (blast | metis)+
qed

text \<open>
  An order that is submitted, popped and reported, with a socket that takes one byte at a time; and one that
  takes the two bytes of the report at once: the next \<open>::send\<close> would read past it, and no step is left.
\<close>

theorem partition_threads_correct_witness:
  "(\<exists>s matched. (partition_moves sint (\<lambda>_. 0) two_bytes)\<^sup>*\<^sup>* (partition_threads_new [order_new sym_A, order_new sym_A] part_A) s
      \<and> wr_pushed (px_queue s) = matched @ wr_queue (px_queue s) \<and> length (pt_sent (px_partition s)) = 2)
    \<and> (\<exists>s. (partition_moves sint (\<lambda>_. 0) two_bytes)\<^sup>*\<^sup>* (partition_threads_new [order_new sym_A, order_new sym_A] part_A) s
      \<and> (\<forall>ts n. match_next sint (\<lambda>_. 0) two_bytes ts n s = None))"
proof -
  let ?new = "partition_threads_new [order_new sym_A, order_new sym_A] part_A"
  let ?one = "one_order @ [By_Matcher 0 1, By_Matcher 0 1, By_Matcher 0 2]" and ?two = "one_order @ [By_Matcher 0 2]"
  obtain s t where s: "partition_run sint (\<lambda>_. 0) two_bytes ?one ?new = Some s"
      "length (pt_sent (px_partition s)) = 2" "px_pc s = Match_Pop"
    and t: "partition_run sint (\<lambda>_. 0) two_bytes ?two ?new = Some t" "reads_past two_bytes (px_pc t)"
    using one_order_runs by blast
  have steps: "(partition_moves sint (\<lambda>_. 0) two_bytes)\<^sup>*\<^sup>* ?new s" "(partition_moves sint (\<lambda>_. 0) two_bytes)\<^sup>*\<^sup>* ?new t"
    by (rule partition_run_steps [OF s(1)], force simp: one_order_def sym_A_wf)
      (rule partition_run_steps [OF t(1)], force simp: one_order_def sym_A_wf)
  have "\<exists>matched. wr_pushed (px_queue s) = matched @ unmatched (px_pc s) @ wr_queue (px_queue s)"
    using partition_threads_correct [OF _ steps(1)] by blast
  moreover have "match_next sint (\<lambda>_. 0) two_bytes ts n t = None" for ts n
    using partition_threads_correct [OF _ steps(2), where n = n] t(2) by blast
  ultimately show ?thesis using steps s(2,3) by auto
qed

text \<open>
  Ranges that do not overlap own no symbol together, but adjacent ranges leave gaps: a
  partition owns no symbol that continues its end, so the range from A to E does not own EBAY,
  and neither does a range from F on.
\<close>

theorem symbol_ranges:
  assumes "pt_symbolEnd p < pt_symbolStart q"
  shows "\<not> (ownsSymbol s p \<and> ownsSymbol s q)
    \<and> (t \<noteq> [] \<longrightarrow> \<not> ownsSymbol (pt_symbolEnd p @ t) p)
    \<and> (t \<noteq> [] \<and> pt_symbolEnd p @ t < pt_symbolStart q \<longrightarrow> \<not> ownsSymbol (pt_symbolEnd p @ t) q)"
proof -
  have "\<not> ownsSymbol (pt_symbolEnd p @ t) q" if "t \<noteq> []" "pt_symbolEnd p @ t < pt_symbolStart q"
    using owns_gap [OF longer_than_end [OF that(1)] that(2)] by blast
  then show ?thesis using owns_disjoint [OF assms, of s] owns_not_longer [of t p] by blast
qed

theorem symbol_ranges_witness:
  "\<not> ownsSymbol [69, 66, 65, 89] part_A
    \<and> \<not> ownsSymbol [69, 66, 65, 89] (part_A\<lparr>pt_symbolStart := [70], pt_symbolEnd := [74]\<rparr>)"
  using symbol_ranges [of part_A "part_A\<lparr>pt_symbolStart := [70], pt_symbolEnd := [74]\<rparr>" "[]" "[66, 65, 89]"]
  by (simp add: part_A_def partition_new_def)

text \<open>
  The threaded consumer calls its callback with the items the buffer accepts, each once and
  in order, whatever the producer's schedule and whenever the stop flag is seen; the items still
  in the buffer at that moment are not delivered.
\<close>

theorem consumer_delivers_in_order:
  assumes "ring_wf r" "consumeLoop sched r [] = (called, r')"
    and "run_ops tryPush tryPop (sched_ops sched) r = (acc, out, r2)"
  shows "ring_items r @ acc = called @ ring_items r' \<and> ring_wf r'"
  by (rule consumeLoop_delivers [OF assms])

theorem consumer_delivers_in_order_witness:
  "\<exists>called r' acc out r2. consumeLoop [([1, 2], False), ([3], False), ([], True)] (ring_new [0 :: nat, 0, 0, 0]) [] = (called, r')
    \<and> run_ops tryPush tryPop (sched_ops [([1, 2], False), ([3], False), ([], True)]) (ring_new [0 :: nat, 0, 0, 0]) = (acc, out, r2)
    \<and> acc = called @ ring_items r'"
proof -
  let ?s = "[([1 :: nat, 2], False), ([3], False), ([], True)]" and ?r = "ring_new [0 :: nat, 0, 0, 0]"
  obtain called r' where c: "consumeLoop ?s ?r [] = (called, r')" by fastforce
  obtain acc out r2 where o: "run_ops tryPush tryPop (sched_ops ?s) ?r = (acc, out, r2)" by (metis prod_cases3)
  have "ring_wf ?r" by (simp add: ring_wf_new)
  from consumer_delivers_in_order [OF this c o] have "acc = called @ ring_items r'" by (simp add: ring_items_new)
  with c o show ?thesis by blast
qed

text \<open>
  C38. A heartbeat thread whose flag is cleared at the time \<open>stopAt\<close>, on a clock that never goes back and
  advances by 50 microseconds in the readings of each spin loop. It ends, not before that time and no later
  than \<open>longest_pass\<close> after it. The readings \<open>loopStart\<close> of two beats in a row are at least the interval
  apart and at most \<open>longest_pass\<close>: the interval, or the callable if it takes longer, and what the sleep
  overruns, one reading of the spin loop, and the times to the next load of the flag and from there to the
  next reading. No beat starts later than the last of these after \<open>stopAt\<close>. Any sequence of \<open>start\<close> and
  \<open>stop\<close> calls is safe: no thread object is assigned while it is joinable.
\<close>

theorem heartbeat_correct:
  assumes "\<And>p. p \<in> set passes \<Longrightarrow> pass_ok B p" "passes \<noteq> []" "stopAt \<le> t + (length passes - 1) * interval"
  shows "(\<exists>beats e. heartbeat_loop interval stopAt passes t = (beats, Some e)
      \<and> (t + bb_wake B < stopAt \<longrightarrow> beats \<noteq> []) \<and> (beats \<noteq> [] \<longrightarrow> hd beats \<le> t + bb_wake B + bb_lag B)
      \<and> (\<forall>b \<in> set beats. t \<le> b \<and> b < stopAt + bb_lag B)
      \<and> successively (\<lambda>a b. a + interval \<le> b \<and> b \<le> a + longest_pass interval B) beats
      \<and> t \<le> e \<and> stopAt \<le> e \<and> e \<le> max (t + bb_wake B) (stopAt + longest_pass interval B))
    \<and> (\<exists>h. run_worker heartbeat_start heartbeat_stop ops heartbeat_new = Some h)"
proof -
  obtain beats e where l: "heartbeat_loop interval stopAt passes t = (beats, Some e)"
    using heartbeat_loop_ends [OF assms] by (cases "heartbeat_loop interval stopAt passes t") auto
  obtain wake lag beat over gaps ps where p: "passes = (wake, lag, beat, over, gaps) # ps"
    using assms(2) by (metis list.exhaust prod_cases5)
  have "wake \<le> bb_wake B" using assms(1) [of "(wake, lag, beat, over, gaps)"] p by (simp add: pass_ok_def)
  then have "t + bb_wake B < stopAt \<Longrightarrow> beats \<noteq> []"
    using l p by (auto simp: Let_def split: option.splits prod.splits if_splits)
  moreover note heartbeat_loop_beats [OF assms(1) l]
  moreover have "\<exists>h. run_worker heartbeat_start heartbeat_stop ops heartbeat_new = Some h"
    using hb.run_ok [of heartbeat_new ops] by (auto simp: heartbeat_new_def)
  ultimately show ?thesis using l by auto
qed

text \<open>Two passes of a millisecond; two of three readings of the spin loop give the same time.\<close>

theorem heartbeat_correct_witness:
  "\<exists>beats e. heartbeat_loop 1000000 2000000 (replicate 3 (40, 50, 2000, 70, [30, 0, 49970, 30])) 5 = (beats, Some e)
    \<and> successively (\<lambda>a b. a + 1000000 \<le> b \<and> b \<le> a + 1050130) beats \<and> e \<le> 3050130"
  using heartbeat_correct [of "replicate 3 (40, 50, 2000, 70, [30, 0, 49970, 30])"
      "\<lparr>bb_wake = 40, bb_lag = 50, bb_beat = 2000, bb_over = 70, bb_gap = 49970\<rparr>" 2000000 5 1000000 "[]"]
  by (auto simp: pass_ok_def longest_pass_def simp del: heartbeat_loop.simps)

section \<open>The depth book with several threads\<close>

text \<open>
  C5. Linearizability of \<open>OrderBookFeed\<close>. However the threads' statements interleave, at most one
  thread is inside an operation, and while none is, the books are those the calls give when they
  are run one after the other in the order they took the mutex; every snapshot that was returned
  is the one this sequential run returns, never a state in the middle of an update. That order
  keeps the order of each thread's own calls.
\<close>

theorem feed_linearizable:
  assumes "(feed_step srt)\<^sup>*\<^sup>* (locked_start fd reenters progs) s"
  shows "(\<not> outside (lf_pc s t) \<and> \<not> outside (lf_pc s u) \<longrightarrow> t = u)
    \<and> (lf_mutex s = None \<longrightarrow> snapshot (lf_feed s) = snapshot (seq_feed srt (lf_locked s) fd)
        \<and> lf_returned s = seq_returned srt (lf_locked s) fd)
    \<and> (\<exists>h. prefix h (lf_locked s) \<and> lf_returned s = seq_returned srt h fd)
    \<and> map snd (filter (\<lambda>e. fst e = t) (lf_locked s)) @ filter takes_lock (lf_todo s t)
      = filter takes_lock (progs t)"
proof -
  have inv: "lock_inv srt fd s" "order_inv progs s"
    using fl.reachable_inv [of "locked_start fd reenters progs" fd progs srt s] assms by auto
  have "\<exists>h. prefix h (lf_locked s) \<and> lf_returned s = seq_returned srt h fd"
    by (rule lock_inv_returned [OF inv(1)])
  moreover have "t = u" if "\<not> outside (lf_pc s t)" "\<not> outside (lf_pc s u)"
    using lock_inv_owner [OF inv(1) that(1)] lock_inv_owner [OF inv(1) that(2)] by simp
  ultimately show ?thesis
    using inv by (auto simp: lock_inv_def order_inv_def same_books_def split: option.splits)
qed

theorem feed_linearizable_witness:
  "\<exists>s. (feed_step cmp_sort)\<^sup>*\<^sup>* (locked_start (feed_new 2 :: int feed) False
      (\<lambda>t. if t = 0 then [Upsert True \<lparr>fo_id = 7, fo_price = 100, fo_quantity = 5\<rparr>] else if t = 1 then [Snapshot] else [])) s
    \<and> all_returned s \<and> map snd (filter (\<lambda>e. fst e = 1) (lf_locked s)) @ filter takes_lock (lf_todo s 1) = [Snapshot]"
proof -
  let ?progs = "\<lambda>t. if t = (0 :: nat) then [Upsert True \<lparr>fo_id = 7, fo_price = 100 :: int, fo_quantity = 5\<rparr>]
    else if t = 1 then [Snapshot] else []"
  let ?s = "locked_start (feed_new 2) False ?progs"
  have "?s = locked_start (feed_new 2) False ?progs \<and> calm ?s \<and> few_threads 2 ?s"
    by (simp add: calm_def few_threads_def locked_start_def)
  from calm_feed.can_finish [OF calm_feed.inv_start [OF this]] obtain s where
    s: "(feed_step cmp_sort)\<^sup>*\<^sup>* ?s s" "all_returned s" by blast
  from feed_linearizable [OF s(1), of 1] s show ?thesis by (intro exI [of _ s]) (simp add: takes_lock_def)
qed

text \<open>
  C9. Preservation and progress. If no callback calls the feed, every state the threads reach is a
  proper one: with the mutex free both books are sorted, with distinct ids and at most
  \<open>maxLevels\<close> orders, and so is every snapshot that was returned; unless all calls have returned some
  thread can go on; no run is longer than \<open>work_left\<close>, and from every state a run leads to the end.
\<close>

theorem feed_calls_return:
  assumes "std_sort srt" "feed_ok fd" "\<And>t cb. Set_Callback cb True \<notin> set (progs t)"
    and "\<And>t. n \<le> t \<Longrightarrow> progs t = []" "(feed_step srt)\<^sup>*\<^sup>* (locked_start fd False progs) s"
  shows "(lf_mutex s = None \<longrightarrow> feed_ok (lf_feed s))
    \<and> (\<forall>e \<in> set (lf_returned s). snap_ok (fd_maxLevels fd) (snd e))
    \<and> (all_returned s \<or> (\<exists>s'. feed_step srt s s'))
    \<and> (\<forall>k s'. (feed_step srt ^^ k) s s' \<longrightarrow> k \<le> work_left n s)
    \<and> (\<exists>s'. (feed_step srt)\<^sup>*\<^sup>* s s' \<and> all_returned s')"
proof -
  let ?s = "locked_start fd False progs"
  have "?s = locked_start fd False progs \<and> calm ?s \<and> few_threads n ?s"
    using assms(3,4) by (simp add: calm_def few_threads_def locked_start_def)
  from calm_feed.reachable_inv [OF this assms(5)]
  have inv: "(lock_inv srt fd s \<and> order_inv progs s) \<and> calm s \<and> few_threads n s" .
  have "feed_ok (lf_feed s)" if "lf_mutex s = None"
    using inv that same_books_ok seq_feed_ok [OF assms(1,2)] by (auto simp: lock_inv_def)
  moreover have "snap_ok (fd_maxLevels fd) (snd e)" if "e \<in> set (lf_returned s)" for e
  proof -
    obtain h where "lf_returned s = seq_returned srt h fd"
      using lock_inv_returned inv by blast
    with that show ?thesis using seq_returned_ok [OF assms(1,2)] by simp
  qed
  moreover have "k \<le> work_left n s" if "(feed_step srt ^^ k) s s'" for k s'
    using calm_feed.run_bounded [OF that inv] by simp
  ultimately show ?thesis using calm_feed.progress [OF inv] calm_feed.can_finish [OF inv] by blast
qed

theorem feed_calls_return_witness:
  "\<exists>s'. (feed_step cmp_sort)\<^sup>*\<^sup>* (locked_start (feed_new 2 :: int feed) False
      (\<lambda>t. if t < 3 then [Remove True 7, Snapshot] else [])) s' \<and> all_returned s'"
proof -
  let ?p = "\<lambda>t. if t < (3 :: nat) then [Remove True 7, Snapshot] else [] :: int feed_call list"
  have "(feed_step cmp_sort)\<^sup>*\<^sup>* (locked_start (feed_new 2 :: int feed) False ?p) (locked_start (feed_new 2) False ?p)"
    by simp
  from feed_calls_return [where n = 3, OF std_sort_cmp_sort feed_ok_new _ _ this] show ?thesis by simp
qed

text \<open>
  C30. A callback that calls the feed blocks it for ever: with such a callback in place at most one
  update ever takes the mutex; from then on the mutex stays with that thread and no call of any
  thread takes it any more.
\<close>

theorem feed_callback_deadlock:
  assumes "fd_callback fd" "\<And>t cb r. Set_Callback cb r \<notin> set (progs t)"
    and "(feed_step srt)\<^sup>*\<^sup>* (locked_start fd True progs) s" "e \<in> set (lf_locked s)" "is_update (snd e)"
    and "(feed_step srt)\<^sup>*\<^sup>* s s'"
  shows "lf_mutex s' = Some (fst e) \<and> lf_locked s' = lf_locked s
    \<and> (\<forall>u. u \<noteq> fst e \<longrightarrow> outside (lf_pc s' u))"
proof -
  let ?s = "locked_start fd True progs"
  have start: "?s = locked_start fd True progs \<and> reentrant ?s"
    using assms(1,2) by (simp add: reentrant_def locked_start_def)
  have "(feed_step srt)\<^sup>*\<^sup>* ?s s'" using assms(3,6) by (rule rtranclp_trans)
  with start assms(3) have inv: "lock_inv srt fd s" "reentrant s" "lock_inv srt fd s'" "reentrant s'"
    using reentrant_feed.reachable_inv [OF start] by blast+
  have pre: "prefix (lf_locked s) (lf_locked s')" by (rule locked_grows [OF assms(6)])
  from reentrant_updates [OF inv(1,2)] assms(4,5) obtain t c h where
    h: "lf_locked s = h @ [(t, c)]" "is_update c" "\<forall>e \<in> set h. \<not> is_update (snd e)" by blast
  with assms(4,5) have e: "e = (t, c)" by auto
  from reentrant_updates [OF inv(3,4)] pre h(1,2) obtain t' c' h' where
    h': "lf_mutex s' = Some t'" "lf_locked s' = h' @ [(t', c')]" "\<forall>e \<in> set h'. \<not> is_update (snd e)"
    by (fastforce simp: prefix_def)
  have "\<not> prefix (h @ [(t, c)]) h'"
  proof
    assume "prefix (h @ [(t, c)]) h'"
    from set_mono_prefix [OF this] have "(t, c) \<in> set h'" by simp
    with h(2) h'(3) show False by auto
  qed
  with pre have "lf_locked s' = lf_locked s" unfolding h(1) h'(2) prefix_snoc by simp
  with h'(1,2) h(1) e inv(3) show ?thesis by (auto simp: lock_inv_def)
qed

theorem feed_callback_deadlock_witness:
  "\<exists>s. (feed_step cmp_sort)\<^sup>*\<^sup>* (locked_start ((feed_new 2 :: int feed)\<lparr>fd_callback := True\<rparr>) True
      (\<lambda>t. if t = 0 then [Remove True 7] else [Snapshot])) s
    \<and> lf_mutex s = Some 0 \<and> (\<forall>s'. (feed_step cmp_sort)\<^sup>*\<^sup>* s s' \<longrightarrow> lf_mutex s' = Some 0)"
proof -
  let ?s = "locked_start ((feed_new 2 :: int feed)\<lparr>fd_callback := True\<rparr>) True (\<lambda>t. if t = 0 then [Remove True 7] else [Snapshot])"
  let ?s1 = "?s\<lparr>lf_mutex := Some 0, lf_pc := (lf_pc ?s)(0 := F_Erase True 7), lf_todo := (lf_todo ?s)(0 := []),
      lf_locked := lf_locked ?s @ [(0, Remove True 7)]\<rparr>"
  have "feed_step cmp_sort ?s ?s1" by (rule fs_lock) (simp_all add: locked_start_def)
  then have 1: "(feed_step cmp_sort)\<^sup>*\<^sup>* ?s ?s1" by simp
  have "lf_mutex s' = Some 0" if s': "(feed_step cmp_sort)\<^sup>*\<^sup>* ?s1 s'" for s'
    using feed_callback_deadlock [where e = "(0, Remove True 7)", OF _ _ 1 _ _ s']
    by (simp add: locked_start_def)
  with 1 show ?thesis by (intro exI [of _ ?s1]) simp
qed

text \<open>
  C21. \<open>upsert\<close> sorts the whole book, and is still insertion into a sorted book, compared with the function
  that takes the old entry out and puts the new one in its place. The prices of the side are the same, in
  the same order, with any \<open>std::sort\<close>. The book is the same when no two of the order and the old orders
  with other ids have one price; of orders with one price \<open>std::sort\<close> may put any first, and there are
  a sort and a book for which the orders then differ.
\<close>

theorem upsert_is_insertion:
  assumes "std_sort srt" "feed_ok fd"
  shows "map fo_price (fd_book side (upsert srt side ord fd)) = map fo_price (fd_book side (ref_upsert side ord fd))
    \<and> (inj_on fo_price (insert ord {x \<in> set (fd_book side fd). fo_id x \<noteq> fo_id ord})
        \<longrightarrow> upsert srt side ord fd = ref_upsert side ord fd)
    \<and> (\<exists>srt (fd :: int feed) ord. std_sort srt \<and> feed_ok fd \<and> upsert srt True ord fd \<noteq> ref_upsert True ord fd)"
  using upsert_prices_ref [OF assms] upsert_is_ref [OF assms] equal_prices_differ by blast

theorem upsert_is_insertion_witness:
  "upsert cmp_sort True \<lparr>fo_id = 7, fo_price = 100 :: int, fo_quantity = 5\<rparr> (feed_new 2)
    = ref_upsert True \<lparr>fo_id = 7, fo_price = 100, fo_quantity = 5\<rparr> (feed_new 2)"
  using upsert_is_insertion [OF std_sort_cmp_sort feed_ok_new, of True "\<lparr>fo_id = 7, fo_price = 100 :: int, fo_quantity = 5\<rparr>" 2]
  by (simp add: fd_book_def feed_new_def)

text \<open>
  \<open>processOrder\<close> of the market data pipeline stops on a null pointer when the pool gives none.
  Otherwise the index has the entry, the depth book is updated with the pool's order and stays
  well-formed, and the callback, if there is one, is called once with that order.
\<close>

theorem process_order_correct:
  assumes "std_sort srt" "feed_ok (md_feed md)"
  shows "case alloc order_id price quantity (md_pool md) of
      (None, pool) \<Rightarrow> processOrder srt alloc insert_index order_id price quantity side md = None
    | (Some (ord, i), pool) \<Rightarrow>
        \<exists>md'. processOrder srt alloc insert_index order_id price quantity side md = Some md'
          \<and> feed_ok (md_feed md') \<and> md_pool md' = pool
          \<and> md_index md' = insert_index order_id i (md_index md)
          \<and> set (fd_book side (md_feed md'))
              \<subseteq> insert ord {x \<in> set (fd_book side (md_feed md)). fo_id x \<noteq> fo_id ord}
          \<and> md_calls md' = md_calls md @ (if md_callback md then [ord] else [])"
  using upsert_ok [OF assms] upsert_kept(1) [OF assms]
  by (auto simp: processOrder_def split: prod.splits option.splits)

theorem process_order_correct_witness:
  "\<exists>md'. processOrder cmp_sort (\<lambda>i p q n. (Some (\<lparr>fo_id = i, fo_price = p, fo_quantity = q\<rparr>, n), Suc n))
      (\<lambda>i n m. m(i \<mapsto> n)) 5 (100 :: int) 3 True
      \<lparr>md_pool = 0, md_index = Map.empty, md_feed = feed_new 4, md_callback = True, md_calls = []\<rparr> = Some md'
    \<and> md_calls md' = [\<lparr>fo_id = 5, fo_price = 100, fo_quantity = 3\<rparr>] \<and> md_index md' = [5 \<mapsto> 0]"
  using process_order_correct [where srt = cmp_sort
      and md = "\<lparr>md_pool = 0 :: nat, md_index = Map.empty, md_feed = feed_new 4 :: int feed, md_callback = True, md_calls = []\<rparr>"
      and alloc = "\<lambda>i p q n. (Some (\<lparr>fo_id = i, fo_price = p, fo_quantity = q\<rparr>, n), Suc n)"
      and order_id = 5 and price = 100 and quantity = 3 and insert_index = "\<lambda>i n m. m(i \<mapsto> n)" and side = True]
  by (auto simp: feed_ok_new std_sort_cmp_sort)

section \<open>Threads and their objects\<close>

text \<open>
  C8. A consumer that is started once: in every state that producer, owner and consumer thread
  can reach, the items the buffer took are those the callback was called with, at most one on its
  way to the callback, and those still in the buffer, in order; they are items of the input, in
  its order. Once the destructor has returned, no consumer thread takes a step any more.
\<close>

theorem consumer_exactly_once:
  assumes "ring_wf r" "ring_items r = []" "starts ops \<le> 1"
    and "(consumer_moves env)\<^sup>*\<^sup>* (consumer_new r ops input) s"
  shows "(\<exists>taken. cn_accepted s = cn_called s @ taken @ ring_items (cn_buffer s) \<and> length taken \<le> 1)
    \<and> subseq (cn_accepted s) input
    \<and> (cn_owner s = O_Ready \<and> cn_pinned s = None \<longrightarrow> (\<forall>t. consumer_next env (Consumer t) s = None))"
proof -
  have single: "single_inv s" by (rule single_consumer.reachable_inv [OF _ assms(4)]) (use assms(1-3) in blast)
  have owner: "owner_inv s" by (rule consumers.reachable_inv [OF _ assms(4)]) blast
  have inp: "input_inv input s" by (rule consumer_input.reachable_inv [OF _ assms(4)]) blast
  have "length (concat (map (in_flight \<circ> pt_state) (cn_threads s))) \<le> 1"
    by (rule in_flight_one [OF single])
  with single have "\<exists>taken. cn_accepted s = cn_called s @ taken @ ring_items (cn_buffer s) \<and> length taken \<le> 1"
    by (auto simp: single_inv_def)
  moreover have "subseq (cn_accepted s) input"
    using inp by (auto simp: input_inv_def intro: list_emb_append2 subseq_order.order_trans)
  ultimately show ?thesis using destroyed_silent [OF owner] by blast
qed

theorem consumer_exactly_once_witness:
  "\<exists>s taken. (consumer_moves (Linux, \<lambda>_. 0))\<^sup>*\<^sup>* (consumer_new (ring_new [0 :: nat, 0]) [Do_Start 2] [7]) s
    \<and> cn_accepted s = [7] \<and> [7] = cn_called s @ taken @ ring_items (cn_buffer s)"
proof -
  obtain s where s: "consumer_run (Linux, \<lambda>_. 0) [Producer, Owner] (consumer_new (ring_new [0 :: nat, 0]) [Do_Start 2] [7]) = Some s"
    "cn_accepted s = [7]"
    by (simp add: consumer_new_def ring_new_def tryPush_def Let_def increment_def capacity_def
        updateHighWaterMark_def consumer_start_def)
  have "ring_wf (ring_new [0 :: nat, 0])" by (simp add: ring_wf_new)
  from consumer_exactly_once [OF this ring_items_new _ consumer_run_steps [OF s(1)]]
  obtain taken where "cn_accepted s = cn_called s @ taken @ ring_items (cn_buffer s)" by auto
  with s consumer_run_steps [OF s(1)] show ?thesis by metis
qed

text \<open>
  However often the consumer is started, at most one thread is alive between the owner's
  calls and two inside one. Two are too many: \<open>start\<close> lets the new thread run before the old one is
  joined, and a run of start, stop, start gives an item the buffer took once to the callback twice.
\<close>

theorem consumer_restart_duplicates:
  shows "((consumer_moves env)\<^sup>*\<^sup>* (consumer_new r ops input) s
      \<longrightarrow> card (alive s) \<le> (if cn_owner s = O_Ready then 1 else 2))
    \<and> (\<exists>ms s'. consumer_run env ms (consumer_new (ring_new [a, b]) [Do_Start (-1), Do_Stop, Do_Start (-1)] [x]) = Some s'
        \<and> cn_accepted s' = [x] \<and> cn_called s' = [x, x])"
proof -
  have "card (alive s) \<le> (if cn_owner s = O_Ready then 1 else 2)"
    if "(consumer_moves env)\<^sup>*\<^sup>* (consumer_new r ops input) s"
    by (rule alive_bound, rule consumers.reachable_inv [OF _ that]) blast
  moreover have "\<exists>ms s'. consumer_run env ms (consumer_new (ring_new [a, b]) [Do_Start (-1), Do_Stop, Do_Start (-1)] [x]) = Some s'
      \<and> cn_accepted s' = [x] \<and> cn_called s' = [x, x]"
    using restart_run [of env a b x] by blast
  ultimately show ?thesis by blast
qed

theorem consumer_restart_duplicates_witness:
  "card (alive (consumer_new (ring_new [0 :: nat, 0]) [] [])) \<le> 1"
proof -
  let ?s = "consumer_new (ring_new [0 :: nat, 0]) [] []"
  have "card (alive ?s) \<le> (if cn_owner ?s = O_Ready then 1 else 2)"
    by (rule mp [OF conjunct1 [OF consumer_restart_duplicates [of "(Linux, \<lambda>_. 0)" "ring_new [0, 0]" "[]" "[]"]]]) simp
  then show ?thesis by (simp add: consumer_new_def)
qed

text \<open>
  C19. A consumer thread that has been told to stop ends, whatever the others do: it takes at most
  six more steps, its flag stays set, and while it has not ended its next step is possible, if
  its CPU can be set. Then the join of the destructor returns.
\<close>

theorem consumer_stops:
  assumes "consumer_run env ms s = Some s'" "t < length (cn_threads s)" "pt_stopFlag (cn_threads s ! t)"
  shows "count_list ms (Consumer t) \<le> 6
    \<and> t < length (cn_threads s') \<and> pt_stopFlag (cn_threads s' ! t)
    \<and> (count_list ms (Consumer t) = 6 \<longrightarrow> joins (cn_threads s' ! t))
    \<and> (affinity_works env (pt_targetCpu (cn_threads s' ! t)) \<longrightarrow>
        joins (cn_threads s' ! t) \<or> (\<exists>s''. consumer_next env (Consumer t) s' = Some s''))
    \<and> (cn_owner s' = O_Join t \<and> joins (cn_threads s' ! t) \<longrightarrow> (\<exists>s''. consumer_next env Owner s' = Some s''))"
proof -
  let ?rank = "\<lambda>s. thread_rank consume_rank K_Check (cn_threads s ! t)"
  have r: "count_list ms (Consumer t) + ?rank s' \<le> ?rank s" "t < length (cn_threads s')" "pt_stopFlag (cn_threads s' ! t)"
    using stopped_run [OF assms] by blast+
  moreover have "?rank s \<le> 6" by (rule thread_rank_bound)
  ultimately have "count_list ms (Consumer t) = 6 \<longrightarrow> ?rank s' = 0" "count_list ms (Consumer t) \<le> 6" by linarith+
  with r running_thread_moves [of t s' env] show ?thesis by (auto simp: thread_rank_0)
qed

theorem consumer_stops_witness:
  "\<exists>s'. consumer_run (Linux, \<lambda>_. 0) [Owner, Owner, Consumer 0]
      (consumer_new (ring_new [0 :: nat, 0]) [Do_Start (-1), Do_Stop] []) = Some s' \<and> pt_stopFlag (cn_threads s' ! 0)"
proof -
  let ?s0 = "consumer_new (ring_new [0 :: nat, 0]) [Do_Start (-1), Do_Stop] []"
  obtain s where s: "consumer_run (Linux, \<lambda>_. 0) [Owner, Owner] ?s0 = Some s" "length (cn_threads s) = 1"
    "pt_stopFlag (cn_threads s ! 0)" "pt_state (cn_threads s ! 0) = Booting" "pt_targetCpu (cn_threads s ! 0) = -1"
    by (simp add: consumer_new_def consumer_start_def consumer_stop_def stop_thread_def)
  obtain s' where s': "consumer_run (Linux, \<lambda>_. 0) [Consumer 0] s = Some s'"
    using s by (simp add: boot_step)
  from consumer_stops [OF this, of 0] s have "pt_stopFlag (cn_threads s' ! 0)" by simp
  moreover have "consumer_run (Linux, \<lambda>_. 0) [Owner, Owner, Consumer 0] ?s0 = Some s'"
    using consumer_run_append [OF s(1) s'] by (simp only: append.simps)
  ultimately show ?thesis by blast
qed

text \<open>
  C25. \<open>OrderBookPool::allocate\<close> is correct for calls that do not overlap, by whichever threads: in every
  schedule in which a thread moves only while no other is inside \<open>allocate\<close>, the calls that have returned
  were given, in the order of their returns, what the same number of calls one after the other gives:
  \<open>0, 1, ..., n - 1\<close> from a new pool, and then that it is empty. It is not for calls that do overlap,
  although its members are atomics: two threads inside \<open>allocate\<close> can both be given entry 0.
\<close>

theorem pool_allocate_threads:
  assumes "0 < n" "n < NO_FREE_INDEX"
  shows "(calls_apart sched (pool_threads_start (pool_new raw n)) \<longrightarrow>
      (\<exists>s'. alloc_run sched (pool_threads_start (pool_new raw n)) = Some s'
        \<and> (let k = length (pa_got s')
           in map snd (pa_got s') = [0..<min k n] @ replicate (k - n) NO_FREE_INDEX
            \<and> allocate_many k (pool_new raw n) = Some (map snd (pa_got s'), pa_pool s'))))
    \<and> (t \<noteq> u \<longrightarrow> (\<exists>s'. alloc_run [t, u, t, t, u, u] (pool_threads_start (pool_new raw n)) = Some s'
      \<and> pa_got s' = [(t, 0), (u, 0)]))"
proof -
  let ?s = "pool_threads_start (pool_new raw n)"
  have "p_freeIndex (pa_pool ?s) = 0" "0 < length (p_entries (pa_pool ?s))" "pa_got ?s = []"
    using assms(1) by (simp_all add: pool_threads_start_def pool_new_def)
  moreover have "pa_pc ?s v = A_Outside" for v by (simp add: pool_threads_start_def)
  moreover have "0 \<noteq> NO_FREE_INDEX" by (simp add: NO_FREE_INDEX_def)
  ultimately have "t \<noteq> u \<longrightarrow> (\<exists>s'. alloc_run [t, u, t, t, u, u] ?s = Some s' \<and> pa_got s' = [(t, 0), (u, 0)])"
    using alloc_race [of t u ?s 0] by (metis append_Nil)
  then show ?thesis using apart_fresh [OF assms] by blast
qed

text \<open>Three calls by two threads on a pool of two entries; and two calls at once.\<close>

theorem pool_allocate_threads_witness:
  "(\<exists>s'. alloc_run [0, 0, 0, 1, 1, 1, 0] (pool_threads_start (pool_new (replicate 16 0) 2)) = Some s'
      \<and> map snd (pa_got s') = [0, 1, NO_FREE_INDEX])
    \<and> (\<exists>s'. alloc_run [0, 1, 0, 0, 1, 1] (pool_threads_start (pool_new (replicate 16 0) 2)) = Some s'
      \<and> pa_got s' = [(0, 0), (1, 0)])"
proof -
  let ?s = "pool_threads_start (pool_new (replicate 16 0) 2)" and ?sched = "[0, 0, 0, 1, 1, 1, 0]"
  have apart: "calls_apart ?sched ?s" and three: "\<exists>s'. alloc_run ?sched ?s = Some s' \<and> length (pa_got s') = 3"
    by (simp_all add: pool_threads_start_def pool_new_def alloc_next_def NO_FREE_INDEX_def array_get_def Let_def upt_rec)
  from pool_allocate_threads [of 2 ?sched "replicate 16 0" 0 1] apart three show ?thesis
    by (auto simp: NO_FREE_INDEX_def upt_rec Let_def)
qed

text \<open>
  C26. The whole pool between threads that allocate, free, and write the orders of its entries, each
  access a step. Whatever they do, as long as they free and write entries of the pool: no access is
  out of range and only entries of the pool, or the end marker, are handed out. A \<open>free\<close> that is
  not interrupted is the sequential one. But it publishes the entry before it resets it: a thread
  that is given the entry in between and fills it finds its order wiped.
\<close>

theorem pool_threads_in_range:
  assumes "0 < n" "(pool_moves raw n)\<^sup>*\<^sup>* (pool_users_start (pool_new raw n)) s"
  shows "(can_move m s \<and> move_ok n m \<longrightarrow> pool_next raw m s \<noteq> None)
    \<and> (\<forall>(v, i) \<in> set (pa_got s). i < n \<or> i = NO_FREE_INDEX)
    \<and> (pf_pc s t = PF_Outside \<and> pa_pc s t = A_Outside \<and> i < n
      \<longrightarrow> (\<exists>p. free_entry raw i (pa_pool s) = Some p
          \<and> pool_run raw (replicate 5 (Free_Step t i)) s = Some (s\<lparr>pa_pool := p\<rparr>))
        \<and> (t \<noteq> u \<and> pf_pc s u = PF_Outside \<and> pa_pc s u = A_Outside \<and> i \<noteq> NO_FREE_INDEX
          \<longrightarrow> (\<exists>s'. pool_run raw (late_reset t u i ord) s = Some s' \<and> pa_got s' = pa_got s @ [(u, i)]
            \<and> map_option entry_isEmpty (pool_entry i (pa_pool s')) = Some True)))"
proof -
  have inv: "users_inv n s" by (rule users.reachable_inv [OF _ assms(2)]) (use assms(1) in simp)
  then have len: "length (p_entries (pa_pool s)) = n" by (simp add: users_inv_def sound_pool_def)
  have "\<exists>p. free_entry raw i (pa_pool s) = Some p" if "i < n"
    using that len by (simp add: free_entry_def array_get_in Let_def)
  moreover have "\<forall>(v, i) \<in> set (pa_got s). i < n \<or> i = NO_FREE_INDEX"
    using inv by (simp add: users_inv_def sound_def)
  ultimately show ?thesis
    using sound_move [OF inv, of m raw] free_alone [of s t raw i] late_reset_run [of t u s i raw ord] len by blast
qed

theorem pool_threads_in_range_witness:
  "\<exists>s. pool_run (replicate 16 0) (late_reset 0 1 2 (order_new (replicate 16 65)\<lparr>o_orderId := 7\<rparr>))
      (pool_users_start (pool_new (replicate 16 0) 3)) = Some s
    \<and> pa_got s = [(1, 2)] \<and> map_option entry_isEmpty (pool_entry 2 (pa_pool s)) = Some True"
  using pool_threads_in_range [of 3 "replicate 16 0" "pool_users_start (pool_new (replicate 16 0) 3)" _ 0 2 1]
  by (auto simp: pool_users_start_def NO_FREE_INDEX_def)

text \<open>
  The server, the two pipelines and the generator survive exactly the sequences of \<open>start\<close> and
  \<open>stop\<close> in which no \<open>start\<close> follows a \<open>start\<close> without a \<open>stop\<close> between: that assigns a thread to a
  joinable one, which ends the program. Otherwise the object runs a thread at the end if the last
  call was \<open>start\<close>. (The loops end when they are told to.)
\<close>

theorem start_stop_cycles:
  "(run_worker server_start (server_stop Exited (\<lambda>fd. Exited)) ops (tcp_server_new port backlog) \<noteq> None
      \<longleftrightarrow> no_double_start False ops)
   \<and> (run_worker pipeline_start (pipeline_stop Exited) ops (pipeline_new dec enc) \<noteq> None
      \<longleftrightarrow> no_double_start False ops)
   \<and> (run_worker udp_pipeline_start (udp_pipeline_stop Exited) ops (udp_pipeline_new rc sd dec enc) \<noteq> None
      \<longleftrightarrow> no_double_start False ops)
   \<and> (run_worker injector_start (\<lambda>s. Some (injector_stop s)) ops injector_new \<noteq> None
      \<longleftrightarrow> no_double_start False ops)
   \<and> (\<forall>p. run_worker udp_pipeline_start (udp_pipeline_stop Exited) ops (udp_pipeline_new rc sd dec enc) = Some p
      \<longrightarrow> up_joinable p = ends_started False ops \<and> up_running p = up_joinable p)
   \<and> (\<forall>p. run_worker server_start (server_stop Exited (\<lambda>fd. Exited)) ops (tcp_server_new port backlog) = Some p
      \<longrightarrow> sv_acceptJoinable p = ends_started False ops \<and> sv_running p = sv_acceptJoinable p)"
  using server_cycle.run_defined [of ops "tcp_server_new port backlog"] tcp_cycle.run_defined [of ops "pipeline_new dec enc"]
    udp_cycle.run_defined [of ops "udp_pipeline_new rc sd dec enc"] injector_cycle.run_defined [of ops injector_new]
    udp_cycle.run_final [of ops "udp_pipeline_new rc sd dec enc"] server_cycle.run_final [of ops "tcp_server_new port backlog"]
  by (simp add: tcp_server_new_def pipeline_new_def udp_pipeline_new_def injector_new_def)

theorem start_stop_cycles_witness:
  "run_worker injector_start (\<lambda>s. Some (injector_stop s)) [Start, Stop, Start] injector_new \<noteq> None
    \<and> run_worker injector_start (\<lambda>s. Some (injector_stop s)) [Start, Start] injector_new = None"
  using start_stop_cycles [of "[Start, Stop, Start]" 80 5 stage_new stage_new]
    start_stop_cycles [of "[Start, Start]" 80 5 stage_new stage_new] by simp

text \<open>
  Scopes. A server, a pipeline or a generator that is used and then destroyed leaves no thread
  and a cleared flag, whatever the calls were, as long as it was not started twice in a row; and
  the destructor is what it takes: after it nothing is joinable even if the last call was \<open>start\<close>.
  A server also has no client thread left. The sockets a constructor returned with are closed by
  their destructors, each once.
\<close>

theorem scopes_leave_nothing:
  assumes "no_double_start False ops"
  shows "(\<exists>s. Option.bind (run_worker server_start (server_stop Exited (\<lambda>fd. Exited)) ops (tcp_server_new port backlog))
        (server_delete Exited (\<lambda>fd. Exited)) = Some s \<and> \<not> sv_acceptJoinable s \<and> \<not> sv_running s \<and> sv_clientThreads s = [])
    \<and> (\<exists>s. Option.bind (run_worker pipeline_start (pipeline_stop Exited) ops (pipeline_new dec enc)) (pipeline_delete Exited)
        = Some s \<and> \<not> pp_joinable s \<and> \<not> pp_running s)
    \<and> (\<exists>s. Option.bind (run_worker udp_pipeline_start (udp_pipeline_stop Exited) ops (udp_pipeline_new rc sd dec enc))
        (udp_pipeline_delete Exited) = Some s \<and> \<not> up_joinable s \<and> \<not> up_running s)
    \<and> (\<exists>s. Option.bind (run_worker injector_start (\<lambda>s. Some (injector_stop s)) ops injector_new) (\<lambda>s. Some (injector_delete s))
        = Some s \<and> \<not> in_joinable s \<and> \<not> in_running s)
    \<and> (\<forall>c calls. tcp_client_new env host tport nd sb rb = (Inr c, calls) \<longrightarrow> open_fds (calls @ tcp_client_delete c) = {})
    \<and> (\<forall>u calls. udp_socket_new uenv address uport = (Inr u, calls) \<longrightarrow> open_fds (calls @ udp_socket_delete u) = {})
    \<and> (\<forall>u calls. udp_sender_new uenv address uport ttl = (Inr u, calls) \<longrightarrow> open_fds (calls @ udp_sender_delete u) = {})
    \<and> (\<forall>u calls. udp_receiver_new reuseport uenv address uport bufSize = (Inr u, calls) \<longrightarrow> open_fds (calls @ udp_receiver_delete u) = {})"
proof -
  let ?server = "Option.bind (run_worker server_start (server_stop Exited (\<lambda>fd. Exited)) ops (tcp_server_new port backlog))
    (server_delete Exited (\<lambda>fd. Exited))"
  obtain s where s: "?server = Some s" "\<not> sv_acceptJoinable s" "\<not> sv_running s"
    using server_scope.scope_ends [of "tcp_server_new port backlog" ops] assms by (auto simp: tcp_server_new_def)
  then obtain s0 where "server_delete Exited (\<lambda>fd. Exited) s0 = Some s" by (auto simp: bind_eq_Some_conv)
  then have "sv_clientThreads s = []" by (auto simp: server_delete_def server_stop_def Let_def split: if_splits)
  moreover have "\<not> pp_joinable (pipeline_new dec enc)" "\<not> up_joinable (udp_pipeline_new rc sd dec enc)" "\<not> in_joinable injector_new"
    by (simp_all add: pipeline_new_def udp_pipeline_new_def injector_new_def)
  ultimately show ?thesis
    using s tcp_scope.scope_ends [OF _ assms] udp_scope.scope_ends [OF _ assms] injector_scope.scope_ends [OF _ assms]
      tcp_client_new_fds [of env host tport nd sb rb] udp_socket_new_fds [of uenv address uport]
      udp_sender_new_fds [of uenv address uport ttl] udp_receiver_new_fds [of reuseport uenv address uport bufSize]
    by (intro conjI) fastforce+
qed

theorem scopes_leave_nothing_witness:
  "\<exists>s. Option.bind (run_worker injector_start (\<lambda>s. Some (injector_stop s)) [Start, Stop, Start] injector_new)
      (\<lambda>s. Some (injector_delete s)) = Some s \<and> \<not> in_joinable s \<and> \<not> in_running s"
  using scopes_leave_nothing [of "[Start, Stop, Start]"] by simp

section \<open>Datagrams and connections\<close>

text \<open>
  The read loop of \<open>UdpPipeline\<close>, told to stop when its flag is tested for the \<open>n\<close>-th time after
  the first: it has handed the decoder each of the first \<open>n\<close> datagrams that is not empty, as one
  message cut at 4096 bytes, and no error of \<open>recv\<close> ended it. It ends only if \<open>n\<close> datagrams or
  errors arrive at all: otherwise it is blocked in \<open>recv\<close>, and \<open>stop\<close> does not return.
\<close>

theorem udp_pipeline_datagrams:
  assumes "st_callback (up_decoder p)" "\<And>j. j < n \<Longrightarrow> running j" "\<not> running n" "up_joinable p"
  shows "st_calls (up_decoder (snd (udp_pipeline_readLoop running ds p)))
      = st_calls (up_decoder p) @ payloads (take n ds)
    \<and> (udp_pipeline_stop (fst (udp_pipeline_readLoop running ds p)) p = None \<longleftrightarrow> length ds < n)"
  using udp_pipeline_until [of p n running, OF assms(1-3)] assms(4) by (simp add: udp_pipeline_stop_def)

theorem udp_pipeline_datagrams_witness:
  "\<exists>p. st_calls (up_decoder (snd (udp_pipeline_readLoop (\<lambda>j. j < 3) [Datagram [1, 2], Recv_Error, Datagram [3]] p)))
      = [[1, 2], [3]]"
proof -
  let ?p = "\<lparr>up_receiver = \<lparr>us_socket = 3, us_address = ''239.0.0.1'', us_port = 5000\<rparr>,
    up_sender = \<lparr>us_socket = 4, us_address = ''239.0.0.1'', us_port = 5000,
      us_destAddr = \<lparr>sin_port = htons True 5000, sin_addr = [239, 0, 0, 1]\<rparr>\<rparr>,
    up_decoder = subscribe stage_new, up_encoder = stage_new, up_running = True, up_joinable = True\<rparr>"
  have "st_calls (up_decoder (snd (udp_pipeline_readLoop (\<lambda>j. j < 3) [Datagram [1, 2], Recv_Error, Datagram [3]] ?p)))
      = st_calls (up_decoder ?p) @ payloads (take 3 [Datagram [1, 2], Recv_Error, Datagram [3]])"
    by (rule conjunct1 [OF udp_pipeline_datagrams]) (simp_all add: subscribe_def)
  then show ?thesis by (intro exI [of _ ?p]) (simp add: subscribe_def stage_new_def)
qed

text \<open>
  The references of the receive threads. A connection that is added leaves them valid exactly
  when no thread runs or the vector has room for it; when it has none, every running thread is
  left with a reference to an element that has been moved away. When connections are added only
  while no thread runs, no reference ever dangles.
\<close>

theorem connection_references:
  assumes "\<And>c. c < grow c" "refs_valid m" "addConnection grow env host port m = (Inr m', calls)"
  shows "(refs_valid m' \<longleftrightarrow> cm_threads m = [] \<or> length (cm_clients m) < cm_capacity m)
    \<and> (length (cm_clients m) = cm_capacity m \<longrightarrow> (\<forall>t \<in> set (cm_threads m'). thread_client m' t = None))
    \<and> (quiet_adds False ops \<longrightarrow> (\<exists>m. cm_run grow ops conn_manager_new = Some m \<and> refs_valid m))"
proof -
  obtain c where m': "m' = emplace_client grow c m"
    using assms(3) by (auto simp: addConnection_def split: prod.splits sum.splits)
  have "cm_threads conn_manager_new = []" by (simp add: conn_manager_new_def)
  then show ?thesis
    using emplace_client_refs [OF assms(1,2), of c] emplace_client_dangles [OF assms(2), of _ grow c]
      cm_run_valid [where ops = ops and started = False, OF assms(1) refs_valid_new]
    by (auto simp: m')
qed

theorem connection_references_witness:
  "\<exists>m m' calls. addConnection Suc \<lparr>te_le = True, te_socket = 4, te_pton = 1, te_addr = [127, 0, 0, 1], te_connect = 0\<rparr> ''h'' 80 m = (Inr m', calls)
    \<and> refs_valid m \<and> \<not> refs_valid m'"
proof -
  let ?env = "\<lparr>te_le = True, te_socket = 4, te_pton = 1, te_addr = [127, 0, 0, 1], te_connect = 0\<rparr>"
  let ?m = "startAll (emplace_client Suc \<lparr>tc_socket = 3, tc_host = ''h'', tc_port = 80\<rparr> conn_manager_new)"
  have "refs_valid (emplace_client Suc \<lparr>tc_socket = 3, tc_host = ''h'', tc_port = 80\<rparr> conn_manager_new)"
    using emplace_client_refs [of Suc, OF _ refs_valid_new] by (simp add: conn_manager_new_def)
  then have ok: "refs_valid ?m" by (rule refs_valid_startAll)
  obtain m' calls where a: "addConnection Suc ?env ''h'' 80 ?m = (Inr m', calls)"
    by (simp add: addConnection_def tcp_client_new_def Let_def)
  have "cm_threads ?m \<noteq> []" "\<not> length (cm_clients ?m) < cm_capacity ?m"
    by (simp_all add: startAll_def emplace_client_def conn_manager_new_def)
  with connection_references [OF _ ok a, of "[]"] have "\<not> refs_valid m'" by simp
  with ok a show ?thesis by blast
qed

section \<open>The generator with readers\<close>

text \<open>
  The synthetic generator in one thread and readers in others: every snapshot a reader gets is the
  depth book after a prefix of the generator's calls, so both sides are sorted, hold at most
  \<open>levels\<close> orders and at most \<open>maxLevels\<close>; and when the generator's calls are done and the mutex is
  free, the book is the one the sequential \<open>injectLoop\<close> leaves.
\<close>

theorem injector_readers:
  assumes "std_sort srt" "levels \<le> 2 ^ 64"
    and "progs w = injector_calls bidAt askAt levels draws shift rounds 0 mid"
    and "\<And>t c. t \<noteq> w \<Longrightarrow> c \<in> set (progs t) \<Longrightarrow> c = Snapshot"
    and "(feed_step srt)\<^sup>*\<^sup>* (locked_start (feed_new maxLevels) reenters progs) s"
  shows "(\<forall>e \<in> set (lf_returned s). snap_ok maxLevels (snd e)
      \<and> length (fst (snd e)) \<le> levels \<and> length (snd (snd e)) \<le> levels
      \<and> (\<exists>p. prefix p (progs w) \<and> snd e = snapshot (fold (seq_call srt) p (feed_new maxLevels))))
    \<and> (lf_mutex s = None \<and> lf_todo s w = [] \<longrightarrow> snapshot (lf_feed s)
        = snapshot (snd (injectLoop srt bidAt askAt levels draws shift rounds 0 mid (feed_new maxLevels))))"
proof -
  let ?fd = "feed_new maxLevels :: 'a feed"
  have inv: "lock_inv srt ?fd s" "order_inv progs s"
    using fl.reachable_inv [of "locked_start ?fd reenters progs" ?fd progs srt s] assms(5) by auto
  have inj: "injects levels c" if "c \<in> set (progs w)" for c
    using that unfolding assms(3) by (rule injector_calls_inject)
  then have all: "filter takes_lock (progs w) = progs w"
    by (auto simp: filter_id_conv dest: injects_locks)
  have "injected_ids levels ?fd" by (simp add: injected_ids_def feed_new_def)
  then have new: "generated levels ?fd" by (simp add: generated_def feed_ok_new)
  obtain h where h: "prefix h (lf_locked s)" "lf_returned s = seq_returned srt h ?fd"
    using lock_inv_returned [OF inv(1)] by blast
  have "snap_ok maxLevels (snd e) \<and> length (fst (snd e)) \<le> levels \<and> length (snd (snd e)) \<le> levels
      \<and> (\<exists>p. prefix p (progs w) \<and> snd e = snapshot (fold (seq_call srt) p ?fd))"
    if e: "e \<in> set (lf_returned s)" for e
  proof -
    have "e \<in> set (seq_returned srt h ?fd)" using e h(2) by simp
    then obtain p where p: "prefix p (progs w)" "snd e = snapshot (fold (seq_call srt) p ?fd)"
      using readers_see_prefixes [where w = w, OF inv(2) _ all h(1)] assms(4) by blast
    have "generated levels (fold (seq_call srt) p ?fd)"
      using generated_fold [OF assms(1) new] inj set_mono_prefix [OF p(1)] by blast
    from generated_few [OF this assms(2)] have "length (fst (snd e)) \<le> levels" "length (snd (snd e)) \<le> levels"
      by (simp_all add: p(2) snapshot_def)
    moreover have "snap_ok maxLevels (snd e)"
      using seq_returned_ok [OF assms(1) feed_ok_new, of e h] e h(2) by (simp add: feed_new_def)
    ultimately show ?thesis using p by blast
  qed
  moreover have "snapshot (lf_feed s) = snapshot (snd (injectLoop srt bidAt askAt levels draws shift rounds 0 mid ?fd))"
    if free: "lf_mutex s = None" and rest: "lf_todo s w = []"
  proof -
    have "map snd (filter (\<lambda>e. fst e = w) (lf_locked s)) @ filter takes_lock (lf_todo s w) = filter takes_lock (progs w)"
      using inv(2) by (simp add: order_inv_def)
    then have calls: "map snd (filter (\<lambda>e. fst e = w) (lf_locked s)) = progs w" by (simp add: rest all)
    have "snd e = Snapshot" if "e \<in> set (lf_locked s)" "fst e \<noteq> w" for e
      using order_inv_locked [OF inv(2) that(1)] assms(4) that(2) by blast
    from seq_feed_writer [OF this, where w = w and srt = srt and fd = ?fd] calls
    have "seq_feed srt (lf_locked s) ?fd = fold (seq_call srt) (progs w) ?fd" by simp
    then show ?thesis
      using inv(1) free by (simp add: lock_inv_def same_books_def assms(3) injector_calls_run)
  qed
  ultimately show ?thesis by blast
qed

theorem injector_readers_witness:
  "\<exists>s. (feed_step cmp_sort)\<^sup>*\<^sup>* (locked_start (feed_new 4) False
      (\<lambda>t. if t = 0 then injector_calls (\<lambda>m i. m - int i) (\<lambda>m i. m + int i) 2 (\<lambda>_ _. 7) (\<lambda>m _. m + 1) 3 0 10000
           else if t = 1 then [Snapshot] else [])) s
    \<and> (\<forall>e \<in> set (lf_returned s). length (fst (snd e)) \<le> 2)"
proof -
  let ?p = "\<lambda>t. if t = 0 then injector_calls (\<lambda>m i. m - int i) (\<lambda>m i. m + int i) 2 (\<lambda>_ _. 7) (\<lambda>m _. m + 1) 3 0 10000
           else if t = (1 :: nat) then [Snapshot] else []"
  let ?s = "locked_start (feed_new 4) False ?p"
  have "Set_Callback cb True \<notin> set (?p t)" for t cb
    using injects_not_set [of _ cb True] by (auto dest: injector_calls_inject)
  then have "?s = locked_start (feed_new 4) False ?p \<and> calm ?s \<and> few_threads 2 ?s"
    by (simp add: calm_def few_threads_def locked_start_def)
  from calm_feed.can_finish [OF calm_feed.inv_start [OF this]] obtain s where
    s: "(feed_step cmp_sort)\<^sup>*\<^sup>* ?s s" by blast
  have "\<forall>e \<in> set (lf_returned s). snap_ok 4 (snd e) \<and> length (fst (snd e)) \<le> 2 \<and> length (snd (snd e)) \<le> 2
      \<and> (\<exists>p. prefix p (?p 0) \<and> snd e = snapshot (fold (seq_call cmp_sort) p (feed_new 4)))"
    by (rule conjunct1 [OF injector_readers [OF std_sort_cmp_sort _ _ _ s, where w = 0]])
      (auto split: if_splits)
  with s show ?thesis by blast
qed

text \<open>
  C35. A multicast sender and the read loop of a pipeline, on hosts of any byte order and with any kernel that
  keeps what is documented for \<open>bind\<close> and \<open>IP_ADD_MEMBERSHIP\<close>: the receiver is handed what the sender's
  successful calls send when both have the same group and the same port, and nothing when the ports
  differ. When only the groups differ kernels differ too: the receiver gets nothing from one that compares
  the group, and all of it, by the default of \<open>IP_MULTICAST_ALL\<close>, when another socket of its host has
  joined the sender's group, since the code binds to \<open>INADDR_ANY\<close> and does not set the option. If the
  network delivers what is handed over in order, the decoder is given the payloads that are not empty, in
  order, each cut at 4096 bytes; whatever the network loses, repeats or reorders, it is given nothing else.
\<close>

theorem udp_multicast_delivery:
  assumes "udp_sender_new senv addr port ttl = (Inr s, calls)"
    and "udp_receiver_new reuseport renv addr' port' bufSize = (Inr (up_receiver p), rcalls)"
    and "multicast_kernel hands" "st_callback (up_decoder p)" "\<And>j. j < n \<Longrightarrow> running j" "\<not> running n"
    and "sent = map fst (filter (\<lambda>(data, k). k \<ge> 0) sends)" "pks = sent_packets (ue_le senv) (sender_calls s sends)"
    and "inbox = delivered hands (ue_le renv) rcalls (up_receiver p) pks"
    and "after = st_calls (up_decoder (snd (udp_pipeline_readLoop running ds p)))"
  shows "(port = port' \<and> ue_addr senv = ue_addr renv \<longrightarrow> inbox = sent) \<and> (port \<noteq> port' \<longrightarrow> inbox = [])
    \<and> (port = port' \<and> ue_addr senv \<noteq> ue_addr renv \<longrightarrow>
        delivered strict_kernel (ue_le renv) rcalls (up_receiver p) pks = []
        \<and> delivered (multicast_all [ue_addr senv]) (ue_le renv) rcalls (up_receiver p) pks = sent)
    \<and> (ds = map Datagram inbox \<and> n = length inbox \<longrightarrow>
        after = st_calls (up_decoder p) @ map (take 4096) (filter (\<lambda>b. b \<noteq> []) inbox))
    \<and> ((\<forall>b. Datagram b \<in> set ds \<longrightarrow> b \<in> set inbox) \<longrightarrow>
        (\<exists>msgs. after = st_calls (up_decoder p) @ msgs \<and> set msgs \<subseteq> take 4096 ` (set inbox - {[]})))"
proof -
  have after: "after = st_calls (up_decoder p) @ payloads (take n ds)"
    using udp_pipeline_until [of p n running ds, OF assms(4-6)] assms(10) by simp
  have "set (payloads (take n ds)) \<subseteq> take 4096 ` (set inbox - {[]})"
    if "\<forall>b. Datagram b \<in> set ds \<longrightarrow> b \<in> set inbox"
    using that set_take_subset [of n ds] by (auto simp: set_payloads)
  then show ?thesis
    using multicast_delivered [OF assms(1,2,7,8)] assms(3,9) after by (auto simp: payloads_Datagram)
qed

theorem udp_multicast_delivery_witness:
  "\<exists>s calls. udp_sender_new \<lparr>ue_le = True, ue_socket = 4, ue_reuseaddr = 0, ue_ttl = 0, ue_loopback = 0,
      ue_bind = 0, ue_pton = 1, ue_addr = [239, 0, 0, 1], ue_membership = 0\<rparr> ''239.0.0.1'' 5000 1 = (Inr s, calls)
    \<and> (\<exists>r rcalls. udp_receiver_new True \<lparr>ue_le = False, ue_socket = 3, ue_reuseaddr = 0, ue_ttl = 0, ue_loopback = 0,
      ue_bind = 0, ue_pton = 1, ue_addr = [239, 0, 0, 1], ue_membership = 0\<rparr> ''239.0.0.1'' 5000 4096 = (Inr r, rcalls)
    \<and> delivered (multicast_all [[239, 0, 0, 2]]) False rcalls r
        (sent_packets True (sender_calls s [([1, 2], 2), ([3], - 1), ([4], 1)])) = [[1, 2], [4]])"
proof -
  let ?senv = "\<lparr>ue_le = True, ue_socket = 4, ue_reuseaddr = 0, ue_ttl = 0, ue_loopback = 0,
      ue_bind = 0, ue_pton = 1, ue_addr = [239, 0, 0, 1], ue_membership = 0\<rparr>"
  let ?renv = "\<lparr>ue_le = False, ue_socket = 3, ue_reuseaddr = 0, ue_ttl = 0, ue_loopback = 0,
      ue_bind = 0, ue_pton = 1, ue_addr = [239, 0, 0, 1], ue_membership = 0\<rparr>"
  obtain s calls where s: "udp_sender_new ?senv ''239.0.0.1'' 5000 1 = (Inr s, calls)"
    by (simp add: udp_sender_new_def Let_def)
  obtain r rcalls where r: "udp_receiver_new True ?renv ''239.0.0.1'' 5000 4096 = (Inr r, rcalls)"
    by (simp add: udp_receiver_new_def Let_def)
  let ?p = "\<lparr>up_receiver = r, up_sender = s, up_decoder = subscribe stage_new, up_encoder = stage_new,
    up_running = True, up_joinable = True\<rparr>"
  have "udp_receiver_new True ?renv ''239.0.0.1'' 5000 4096 = (Inr (up_receiver ?p), rcalls)" using r by simp
  from conjunct1 [OF udp_multicast_delivery [OF s this kernels_ok(2) [of "[[239, 0, 0, 2]]"] _ _ _ refl refl refl refl, where n = 0
    and running = "\<lambda>_. False" and sends = "[([1, 2], 2), ([3], - 1), ([4], 1)]"]] s r
  show ?thesis by (auto simp: subscribe_def)
qed

text \<open>
  C39. Sizes and cache lines. A \<open>MatchResult\<close> has the size and alignment its header asserts. Each
  entry of the pool's array lies on a line of its own, so threads that work on two entries do not
  share one. In the ring buffer \<open>_head\<close>, \<open>_tail\<close> and the elements are on different lines, but the
  counters \<open>_dropped\<close> and \<open>_highWaterMark\<close>, which the producer writes, are on the line of \<open>_tail\<close>,
  which the consumer writes.
\<close>

theorem cache_lines:
  assumes "0 < al" "0 < cap" "0 < sz" "64 dvd base"
  shows "struct_size 32 match_result_fields = 32 \<and> struct_align 32 match_result_fields = 32
    \<and> (\<forall>i. lines_at (base + i * struct_size 64 entry_fields) (struct_size 64 entry_fields) = {base div 64 + i})
    \<and> field_lines base ''_buffer'' (ring_fields cap sz al) \<inter> field_lines base ''_head'' (ring_fields cap sz al) = {}
    \<and> field_lines base ''_buffer'' (ring_fields cap sz al) \<inter> field_lines base ''_tail'' (ring_fields cap sz al) = {}
    \<and> field_lines base ''_head'' (ring_fields cap sz al) \<inter> field_lines base ''_tail'' (ring_fields cap sz al) = {}
    \<and> field_lines base ''_dropped'' (ring_fields cap sz al) = field_lines base ''_tail'' (ring_fields cap sz al)
    \<and> field_lines base ''_highWaterMark'' (ring_fields cap sz al) = field_lines base ''_tail'' (ring_fields cap sz al)"
  using ring_lines [OF assms] entry_line [OF assms(4)] struct_sizes(1,2) by blast

theorem cache_lines_witness:
  "field_lines 128 ''_highWaterMark'' (ring_fields 3 48 8) = field_lines 128 ''_tail'' (ring_fields 3 48 8)
    \<and> field_lines 128 ''_tail'' (ring_fields 3 48 8) = {6}"
  using cache_lines [of 8 3 48 128] by (simp add: field_lines_def ring_fields_def align_up_def lines_at_def Let_def)

text \<open>
  C28. The server with all its threads. However the owner, the accept thread and the client threads
  interleave, the open descriptors are exactly those that some thread still has to close, each
  once: none leaks, none is closed twice or used after it was closed. Each connection's messages
  reach the callback in the order they were read, with at most the last one on its way, and when
  \<open>stop\<close> has returned no thread and no descriptor is left.
\<close>

theorem server_threads_safe:
  assumes "server_moves\<^sup>*\<^sup>* (live_new ops) s"
  shows "distinct (accept_fds (lv_accept s) @ client_fds (lv_clients s))
    \<and> lv_open s = set (accept_fds (lv_accept s) @ client_fds (lv_clients s))
    \<and> (\<exists>rest. of_conn k (lv_received s) = of_conn k (lv_called s) @ rest \<and> length rest \<le> 1)
    \<and> (stopped s \<longrightarrow> lv_clients s = [] \<and> lv_open s = {})"
proof -
  have inv: "server_inv s" using server.reachable_inv [OF _ assms] by blast
  then show ?thesis
    using log_inv_conn [of s k] stopped_clients [OF inv] by (simp add: server_inv_def fds_inv_def)
qed

text \<open>Two clients whose messages are in the callback at the same time.\<close>

theorem server_threads_safe_witness:
  "\<exists>s. server_moves\<^sup>*\<^sup>* (live_new [Serve_Start]) s \<and> map ct_pc (lv_clients s) = [L_InCall, L_InCall] \<and> lv_open s = {3, 4, 5}
    \<and> of_conn 0 (lv_called s) = [[1]]"
proof -
  let ?ms = "[By_Owner, By_Accept 3, By_Accept 0, By_Accept 0, By_Accept 0, By_Accept 0, By_Accept 4, By_Accept 0,
    By_Accept 0, By_Accept 5, By_Accept 0, By_Client 0 No_Data, By_Client 0 (Received [1]), By_Client 0 No_Data,
    By_Client 1 No_Data, By_Client 1 (Received [2]), By_Client 1 No_Data]"
  obtain s where s: "server_run ?ms (live_new [Serve_Start]) = Some s"
    and pcs: "map ct_pc (lv_clients s) = [L_InCall, L_InCall]" "accept_fds (lv_accept s) = [3]"
      "client_fds (lv_clients s) = [4, 5]" "of_conn 0 (lv_called s) = [[1]]"
    by (simp add: server_next_def serve_owner_def serve_start_def live_new_def client_next_def client_fds_def
        of_conn_def Let_def)
  have "lv_open s = set (accept_fds (lv_accept s) @ client_fds (lv_clients s))"
    using server_threads_safe [OF server_run_steps [OF s], of 0] by blast
  with pcs server_run_steps [OF s] show ?thesis by (intro exI [of _ s]) simp
qed

text \<open>
  C29. \<open>stop\<close> of the server. From every reachable state in which the last call is a \<open>stop\<close> under way,
  all threads together take at most \<open>stop_rank\<close> further steps, and there is a way on at which \<open>stop\<close>
  returns with every thread joined and every descriptor closed. But it returns only after every
  client thread has moved: a client that is connected and silent, whose \<open>read\<close> does not return,
  holds it up for ever.
\<close>

theorem server_stop_returns:
  assumes "server_moves\<^sup>*\<^sup>* (live_new ops) s" "lv_ops s = []" "joining (lv_owner s)"
  shows "((server_moves ^^ n) s s' \<longrightarrow> n \<le> stop_rank s)
    \<and> (\<exists>s'. server_moves\<^sup>*\<^sup>* s s' \<and> stopped s' \<and> lv_clients s' = [] \<and> lv_open s' = {})
    \<and> (i < length (lv_clients s) \<and> ct_pc (lv_clients s ! i) \<noteq> L_Done \<and> (\<forall>r. By_Client i r \<notin> set ms)
        \<and> server_run ms s = Some s'' \<longrightarrow> \<not> stopped s'')"
proof -
  have inv: "server_inv s" using server.reachable_inv [OF _ assms(1)] by blast
  then have st: "stopping s" using assms(2,3) by (simp add: stopping_def)
  obtain s1 where s1: "server_moves\<^sup>*\<^sup>* s s1" "stopped s1" using server_ends.can_finish [OF st] by blast
  have "lv_clients s1 = [] \<and> lv_open s1 = {}"
    using stopped_clients [OF server.inv_steps [OF s1(1) inv] s1(2)] .
  with s1 show ?thesis
    using server_ends.run_bounded [OF _ st, of n s'] silent_client [OF _ inv, of ms s'' i] by auto
qed

theorem server_stop_returns_witness:
  "\<exists>s. map ct_pc (lv_clients s) = [L_Read] \<and> (\<exists>s'. server_moves\<^sup>*\<^sup>* s s' \<and> stopped s' \<and> lv_open s' = {})
    \<and> \<not> stopped s"
proof -
  let ?ms = "[By_Owner, By_Accept 3, By_Accept 0, By_Accept 0, By_Accept 0, By_Accept 0, By_Accept 4, By_Accept 0,
    By_Client 0 No_Data, By_Owner]"
  obtain s where s: "server_run ?ms (live_new [Serve_Start, Serve_Stop]) = Some s"
    and p: "map ct_pc (lv_clients s) = [L_Read]" "lv_ops s = []" "lv_owner s = W_JoinAccept"
    by (simp add: server_next_def serve_owner_def serve_start_def serve_stop_def live_new_def client_next_def Let_def)
  have "joining (lv_owner s)" by (simp add: p)
  from server_stop_returns [OF server_run_steps [OF s] p(2) this]
  have "\<exists>s'. server_moves\<^sup>*\<^sup>* s s' \<and> stopped s' \<and> lv_open s' = {}" by blast
  with p show ?thesis by (intro exI [of _ s]) (simp add: stopped_def)
qed

section \<open>Memory orders\<close>

text \<open>
  C3. The ring buffer under the memory model of C++, where a thread may read an index that is out of
  date. In every reachable state what was published is what was popped followed by the queue, the
  queue leaves one cell free, no access of a cell is a data race, and every step of either thread
  is a step of a bounded queue: the acquire and release orders of the code make up for stale reads.
\<close>

theorem relacq_refines_queue:
  assumes "b \<noteq> []" "(weak_step code_orders)\<^sup>*\<^sup>* (weak_new b) s"
  shows "wr_pushed s = wr_popped s @ wr_queue s \<and> length (wr_queue s) \<le> length b - 1 \<and> \<not> data_race s
    \<and> (weak_step code_orders s s' \<longrightarrow> queue_step (length b - 1) (wr_queue s) (wr_queue s'))"
proof -
  have inv: "0 < length b \<and> weak_inv (length b) s"
    by (rule weak_ring.reachable_inv [OF _ assms(2)]) (use assms(1) in blast)
  then show ?thesis
    using weak_inv_queue [of "length b" s] weak_inv_no_race [of "length b" s] weak_step_queue [of "length b" s s'] by auto
qed

text \<open>The consumer takes the buffer for empty after an item was published, and misses nothing.\<close>

theorem relacq_refines_queue_witness:
  "\<exists>s. (weak_step code_orders)\<^sup>*\<^sup>* (weak_new [0 :: nat, 0]) s \<and> wr_pushed s = [7] \<and> wr_queue s = [7]
    \<and> (\<forall>s'. weak_step code_orders s s' \<longrightarrow> queue_step 1 (wr_queue s) (wr_queue s'))"
proof -
  let ?ms = "[moveP 0, moveP 0, moveP 0, moveP 0, moveP 0, By_Consumer 0, By_Consumer 0]"
  obtain s where s: "weak_run code_orders ?ms (weak_new [0, 0]) = Some s"
    and p: "wr_pushed s = [7]" "wr_popped s = []"
    by (simp add: weak_eval code_orders_def)
  have "wr_pushed s = wr_popped s @ wr_queue s \<and> length (wr_queue s) \<le> length [0 :: nat, 0] - 1 \<and> \<not> data_race s
    \<and> (weak_step code_orders s s' \<longrightarrow> queue_step (length [0 :: nat, 0] - 1) (wr_queue s) (wr_queue s'))" for s'
    by (rule relacq_refines_queue [OF _ weak_run_steps [OF s]]) simp
  with p weak_run_steps [OF s] show ?thesis by (intro exI [of _ s]) simp
qed

text \<open>
  C13. Which memory orders the ring buffer needs. Let the two loads and two stores by which the threads
  synchronise have any orders the standard permits for them. Then a state with a data race on a cell can
  be reached exactly when one of the loads is weaker than \<open>acquire\<close> (neither it nor \<open>seq_cst\<close>) or one of the
  stores is weaker than \<open>release\<close>; and then also in a run on two cells where every load reads the last
  store. So those in the code are strong enough, and none of the four can be replaced by \<open>relaxed\<close> or
  \<open>consume\<close>.
\<close>

theorem memory_orders_needed:
  assumes "permitted order"
  shows "(race_reachable order \<longleftrightarrow>
      \<not> (or_loadTail order \<in> {Acquire, Seq_Cst} \<and> or_loadHead order \<in> {Acquire, Seq_Cst}
        \<and> or_storeHead order \<in> {Release, Seq_Cst} \<and> or_storeTail order \<in> {Release, Seq_Cst}))
    \<and> (last_store_race order \<longleftrightarrow> race_reachable order) \<and> \<not> race_reachable code_orders"
proof -
  have "synchronised code_orders" by (simp add: synchronised_def code_orders_def)
  then show ?thesis using race_free_orders permitted_synchronised [OF assms] by auto
qed

text \<open>Without \<open>release\<close> on the store of \<open>_tail\<close> there is a race, with \<open>seq_cst\<close> everywhere there is none.\<close>

theorem memory_orders_needed_witness:
  "race_reachable (code_orders\<lparr>or_storeTail := Relaxed\<rparr>)
    \<and> \<not> race_reachable \<lparr>or_loadTail = Seq_Cst, or_storeHead = Seq_Cst, or_loadHead = Seq_Cst, or_storeTail = Seq_Cst\<rparr>"
  using memory_orders_needed [of "code_orders\<lparr>or_storeTail := Relaxed\<rparr>"]
    memory_orders_needed [of "\<lparr>or_loadTail = Seq_Cst, or_storeHead = Seq_Cst, or_loadHead = Seq_Cst, or_storeTail = Seq_Cst\<rparr>"]
  by (simp add: permitted_def code_orders_def load_order_def store_order_def)

text \<open>
  C4. The engine behind the ring buffer, under release and acquire. A thread publishes orders, the consumer
  pops them and calls \<open>submitOrder\<close>. In every reachable state the published orders are those submitted,
  the one in hand and the queue, in this order: none is lost, doubled or overtaken. The books and the
  reports are those of the specification on the submitted orders the pool had room for, all of them when it
  is large enough; their quantity rests in the books or was traded twice, resting orders are in their
  place and every reported trade is a proper one. There is no data race, and the consumer can go on until it
  has seen a request to stop: no call of the engine is undefined.
\<close>

theorem weak_orders_reach_engine:
  assumes "b \<noteq> []" "(engine_moves acquire release)\<^sup>*\<^sup>* (engine_threads_new b e) s"
    and "pool_spec acquire release live" "engine_inv live e" "en_log e = []" "book_view e = no_books"
  shows "\<exists>submitted. wr_pushed (et_queue s) = submitted @ to_submit (et_pc s) @ wr_queue (et_queue s)
    \<and> book_view (et_engine s) = snd (run_books (accepted acquire release submitted e) no_books)
    \<and> en_log (et_engine s) = fst (run_books (accepted acquire release submitted e) no_books)
    \<and> submitted_qty (accepted acquire release submitted e)
        = total_resting (book_view (et_engine s)) + 2 * executed (en_log (et_engine s))
    \<and> books_ok (book_view (et_engine s)) \<and> (\<forall>t \<in> set (en_log (et_engine s)). good_trade t)
    \<and> ((\<forall>p. fst (acquire p) = None \<longrightarrow> N \<le> card (live p)) \<and> finite (live (en_pool e))
        \<and> card (live (en_pool e)) + length (wr_pushed (et_queue s)) \<le> N
        \<longrightarrow> accepted acquire release submitted e = submitted)
    \<and> \<not> data_race (et_queue s) \<and> ((\<exists>ts. loop_next acquire release ts False s \<noteq> None) \<longleftrightarrow> et_pc s \<noteq> Loop_Done)"
proof -
  have inv: "engine_threads_inv acquire release (length b) e s"
    by (rule conjunct2 [OF engine_behind_ring.reachable_inv [OF _ assms(2)]]) (use assms(1) in blast)
  obtain submitted where q: "wr_pushed (et_queue s) = submitted @ to_submit (et_pc s) @ wr_queue (et_queue s)"
    and run: "submit_all acquire release submitted e = Some (et_engine s)"
    and ok: "\<And>ord. ord \<in> set (submitted @ to_submit (et_pc s)) \<Longrightarrow> proper_order ord" and "\<not> data_race (et_queue s)"
    by (rule engine_threads_orders [OF inv]) (rule that)
  let ?acc = "accepted acquire release submitted e"
  have wf: "symbol_wf (eo_symbol ord)" if "ord \<in> set submitted" for ord using ok [of ord] that by (simp add: proper_order_def)
  have "0 < eo_quantity ord" if "ord \<in> set ?acc" for ord
    using ok [of ord] that set_accepted [of acquire release submitted e] by (auto simp: proper_order_def)
  then have "\<forall>t \<in> set (fst (run_books ?acc no_books)). good_trade t" by (rule run_books_trades [OF books_ok_empty])
  moreover have "accepted acquire release submitted e = submitted"
    if "\<forall>p. fst (acquire p) = None \<longrightarrow> N \<le> card (live p)" "finite (live (en_pool e))"
      "card (live (en_pool e)) + length (wr_pushed (et_queue s)) \<le> N"
    by (rule accepted_all [OF assms(4,3) wf, where N = N]) (use that q in auto)
  moreover obtain e' where e': "submit_all acquire release submitted e = Some e'"
    "book_view e' = snd (run_books ?acc no_books)" "en_log e' = fst (run_books ?acc no_books)"
    "submitted_qty ?acc = total_resting (book_view e') + 2 * executed (en_log e')"
    using accepted_balance [OF assms(3,5,4,6), of submitted] wf by blast
  moreover have "e' = et_engine s" using e'(1) run by simp
  ultimately show ?thesis
    using run_books_ok [OF books_ok_empty, of ?acc] q \<open>\<not> data_race (et_queue s)\<close> loop_enabled [OF inv assms(4,3)]
    by (intro exI [of _ submitted]) simp
qed

text \<open>A sell that was submitted, with a buy in hand.\<close>

theorem weak_orders_reach_engine_witness:
  "\<exists>s. (engine_moves (slot_acquire 4) slot_release)\<^sup>*\<^sup>* (engine_threads_new [hd sell_buy, hd sell_buy] engine0) s
    \<and> wr_pushed (et_queue s) = sell_buy \<and> to_submit (et_pc s) = [last sell_buy]
    \<and> book_view (et_engine s) = snd (run_books [hd sell_buy] no_books)"
proof -
  let ?x = "hd sell_buy" and ?y = "last sell_buy"
  have xy: "sell_buy = [?x, ?y]" "?x \<in> set sell_buy" "?y \<in> set sell_buy" by (simp_all add: sell_buy_def)
  have ok: "proper_order ?x" "proper_order ?y" using runs_ok(1) [OF xy(2)] runs_ok(1) [OF xy(3)] by (simp_all add: proper_order_def)
  obtain e' where "submitOrder (slot_acquire 4) slot_release ?x engine0 = Some e'"
    using submitOrder_step [OF engine0_ok(1) slot_pool_spec [of 4]] ok(1) by (auto simp: proper_order_def)
  from order_through_run [OF this, of ?y] obtain s where
    s: "engine_run (slot_acquire 4) slot_release (order_through ?x 0 @ [By_Loop 0 False] @ order_through ?y 1)
        (engine_threads_new [?x, ?x] engine0) = Some s"
      "et_pc s = Loop_Call ?y" "wr_pushed (et_queue s) = [?x, ?y]" "wr_queue (et_queue s) = []" by blast
  have steps: "(engine_moves (slot_acquire 4) slot_release)\<^sup>*\<^sup>* (engine_threads_new [?x, ?x] engine0) s"
    by (rule engine_run_steps [OF s(1)]) (use ok order_through_proper in auto)
  from weak_orders_reach_engine [OF _ steps slot_pool_spec engine0_ok(1,5,3), of 4]
  obtain submitted where sub: "wr_pushed (et_queue s) = submitted @ to_submit (et_pc s) @ wr_queue (et_queue s)"
    "book_view (et_engine s) = snd (run_books (accepted (slot_acquire 4) slot_release submitted engine0) no_books)"
    "accepted (slot_acquire 4) slot_release submitted engine0 = submitted"
    using slot_pool_room s(3) by (auto simp: engine0_ok)
  from sub(1) have "submitted @ [?y] = [?x] @ [?y]" by (simp add: s(2-4))
  then have "submitted = [?x]" by simp
  with sub s steps xy(1) show ?thesis by (intro exI [of _ s]) (simp del: run_books.simps)
qed

text \<open>
  The high-water mark stays below the number of cells, and no more can be said of it: in one run
  it is 0 although the buffer held an item, in another, where the producer reads a tail that is out
  of date, it is 2 although the buffer never held two.
\<close>

theorem high_water_mark:
  assumes "b \<noteq> []" "(weak_step code_orders)\<^sup>*\<^sup>* (weak_new b) s"
  shows "wr_highWaterMark s < length b
    \<and> (\<exists>s. weak_run code_orders missed_run (weak_new [0, 0, 0]) = Some s \<and> wr_ppc s = P_Idle \<and> wr_highWaterMark s = 0
        \<and> weak_peak code_orders missed_run (weak_new [0, 0, 0]) = 1)
    \<and> (\<exists>s. weak_run code_orders stale_run (weak_new [0, 0, 0]) = Some s \<and> wr_ppc s = P_Idle \<and> wr_highWaterMark s = 2
        \<and> weak_peak code_orders stale_run (weak_new [0, 0, 0]) = 1)"
proof -
  have "0 < length b \<and> weak_inv (length b) s"
    by (rule weak_ring.reachable_inv [OF _ assms(2)]) (use assms(1) in blast)
  then show ?thesis using watermark_misses watermark_overstates by (simp add: weak_inv_def cells_inv_def)
qed

theorem high_water_mark_witness:
  "\<exists>s. (weak_step code_orders)\<^sup>*\<^sup>* (weak_new [0 :: nat, 0, 0]) s \<and> wr_highWaterMark s < 3"
  using high_water_mark [of "[0 :: nat, 0, 0]" "weak_new [0, 0, 0]"] by auto

text \<open>
  C17. Every call returns, whatever the other thread does. In every reachable state under release and
  acquire each thread can take a step, and a step of one leaves the other's position alone. In a run during
  which the producer stays inside one call and does not go round in \<open>push\<close> for a full buffer, it takes at
  most six steps and one for each failure of \<open>compare_exchange_weak\<close> without a reason: a failure
  because the mark has another value does not happen. In a run during which the consumer stays inside one
  call it takes at most three steps. The step that enters a call is not counted.
\<close>

theorem ring_calls_return:
  assumes "b \<noteq> []" "(weak_step code_orders)\<^sup>*\<^sup>* (weak_new b) s"
  shows "(\<exists>ts. weak_producer code_orders item ts full fails s \<noteq> None) \<and> (\<exists>ts. weak_consumer code_orders ts s \<noteq> None)
    \<and> (weak_producer code_orders item ts full fails s = Some p \<longrightarrow> wr_cpc p = wr_cpc s)
    \<and> (weak_consumer code_orders ts s = Some q \<longrightarrow> wr_ppc q = wr_ppc s)
    \<and> (weak_run code_orders ms s = Some s' \<and> (\<forall>m \<in> set ms. \<not> retries m)
        \<and> (\<forall>k < length ms. \<forall>s1. weak_run code_orders (take k ms) s = Some s1 \<longrightarrow> wr_ppc s1 \<noteq> P_Idle)
        \<longrightarrow> length (filter is_producer ms) \<le> 6 + length (filter spurious ms))
    \<and> (weak_run code_orders ms s = Some s'
        \<and> (\<forall>k < length ms. \<forall>s1. weak_run code_orders (take k ms) s = Some s1 \<longrightarrow> wr_cpc s1 \<noteq> C_Idle)
        \<longrightarrow> length (filter (\<lambda>m. \<not> is_producer m) ms) \<le> 3)"
proof -
  have inv: "0 < length b" "weak_inv (length b) s"
    using weak_ring.reachable_inv [OF _ assms(2), of "length b"] assms(1) by auto
  show ?thesis
  proof (intro conjI impI)
    show "\<exists>ts. weak_producer code_orders item ts full fails s \<noteq> None" "\<exists>ts. weak_consumer code_orders ts s \<noteq> None"
      using weak_always_enabled [OF inv(2)] by simp_all
    show "wr_cpc p = wr_cpc s" if "weak_producer code_orders item ts full fails s = Some p" by (rule weak_other_pc(1) [OF that])
    show "wr_ppc q = wr_ppc s" if "weak_consumer code_orders ts s = Some q" by (rule weak_other_pc(2) [OF that])
    show "length (filter is_producer ms) \<le> 6 + length (filter spurious ms)"
      if "weak_run code_orders ms s = Some s' \<and> (\<forall>m \<in> set ms. \<not> retries m)
        \<and> (\<forall>k < length ms. \<forall>s1. weak_run code_orders (take k ms) s = Some s1 \<longrightarrow> wr_ppc s1 \<noteq> P_Idle)"
      using push_steps_bounded [OF inv(2,1), of ms s'] that ranks_bounded(1) [of "wr_ppc s"] by auto
    show "length (filter (\<lambda>m. \<not> is_producer m) ms) \<le> 3"
      if "weak_run code_orders ms s = Some s'
        \<and> (\<forall>k < length ms. \<forall>s1. weak_run code_orders (take k ms) s = Some s1 \<longrightarrow> wr_cpc s1 \<noteq> C_Idle)"
      using pop_steps_bounded [of code_orders ms s s'] that ranks_bounded(2) [of "wr_cpc s"] by auto
  qed
qed

text \<open>
  A call of \<open>tryPush\<close> after the step that enters it: six steps and two exchanges that fail for no
  reason.
\<close>

theorem ring_calls_return_witness:
  "\<exists>ms s s'. (weak_step code_orders)\<^sup>*\<^sup>* (weak_new [0 :: nat, 0]) s \<and> weak_run code_orders ms s = Some s'
    \<and> wr_ppc s \<noteq> P_Idle \<and> wr_ppc s' = P_Idle \<and> length (filter is_producer ms) = 6 + length (filter spurious ms)
    \<and> length (filter spurious ms) = 2 \<and> length (filter is_producer ms) \<le> 6 + length (filter spurious ms)"
proof -
  let ?fail = "By_Producer 7 0 Give_Up True"
  let ?ms = "[moveP 0, moveP 0, moveP 0, moveP 0, moveP 0, ?fail, ?fail, moveP 0]"
  obtain s where s: "weak_run code_orders [moveP 0] (weak_new [0, 0]) = Some s" by (simp add: weak_eval)
  then obtain s' where s': "weak_run code_orders ?ms s = Some s'" "wr_ppc s' = P_Idle"
    and inside: "\<forall>k < length ?ms. \<forall>s1. weak_run code_orders (take k ?ms) s = Some s1 \<longrightarrow> wr_ppc s1 \<noteq> P_Idle"
    by (auto simp: weak_eval code_orders_def mod_Suc less_Suc_eq)
  from ring_calls_return [OF _ weak_run_steps [OF s]] s' inside
  have "length (filter is_producer ?ms) \<le> 6 + length (filter spurious ?ms)" by fastforce
  moreover have "wr_ppc s \<noteq> P_Idle" using s by (auto simp: weak_eval)
  ultimately show ?thesis using weak_run_steps [OF s] s' by (intro exI [of _ ?ms] exI [of _ s] exI [of _ s']) simp
qed

section \<open>The prices of the generator\<close>



section \<open>Framed messages through the server\<close>

text \<open>
  C24. Clients that send encoded messages to \<open>TcpServer\<close>. However its threads interleave, a framer for
  every connection gives a prefix of what that client encoded, and all of it once all chunks were
  handed on; with a single connection the callback sees exactly its chunks. But the callback is
  not told the connection: one framer behind it, for two clients, gives a frame nobody sent.
\<close>

theorem server_frames:
  assumes "server_moves\<^sup>*\<^sup>* (live_new ops) s" "65536 + 1024 \<le> n"
    and "concat (of_conn k (lv_received s)) @ more_bytes = fold (encode le) ps []" "\<And>p. p \<in> set ps \<Longrightarrow> frame_fits p"
  shows "(\<exists>frames f. receive le (of_conn k (lv_called s)) (framer_new n) = Inr (frames, f)
      \<and> (\<exists>later. ps = frames @ later)
      \<and> (more_bytes = [] \<and> of_conn k (lv_called s) = of_conn k (lv_received s) \<longrightarrow> frames = ps \<and> fr_buffer f = []))
    \<and> (lv_conns s \<le> 1 \<longrightarrow> map snd (lv_called s) = of_conn 0 (lv_called s))
    \<and> (\<exists>s. server_moves\<^sup>*\<^sup>* (live_new [Serve_Start]) s
        \<and> concat (of_conn 0 (lv_called s)) = encode True [65, 66] [] \<and> concat (of_conn 1 (lv_called s)) = encode True [67] []
        \<and> (\<exists>f. receive True (map snd (lv_called s)) (framer_new 66560) = Inr ([[1, 0]], f)))"
proof -
  have log: "log_inv s" using server.reachable_inv [OF _ assms(1)] by (auto simp: server_inv_def)
  obtain s2 where s2: "server_run two_clients (live_new [Serve_Start]) = Some s2"
    "lv_called s2 = [(0, [2, 0]), (1, [1, 0, 67]), (0, [65, 66])]" using two_clients_run by blast
  have "server_moves\<^sup>*\<^sup>* (live_new [Serve_Start]) s2" by (rule server_run_steps [OF s2(1)])
  moreover have "concat (of_conn 0 (lv_called s2)) = encode True [65, 66] []"
    "concat (of_conn 1 (lv_called s2)) = encode True [67] []"
    by (simp_all add: s2(2) of_conn_def encode_append u16_bytes_def)
  ultimately show ?thesis
    using server_frames_conn [OF log assms(3,4,2)] single_conn_called [OF log] two_clients_frames s2(2) by auto
qed

theorem server_frames_witness:
  "\<exists>s f. server_moves\<^sup>*\<^sup>* (live_new [Serve_Start]) s
    \<and> receive True (of_conn 0 (lv_called s)) (framer_new 66560) = Inr ([[65, 66]], f)"
proof -
  obtain s where s: "server_run two_clients (live_new [Serve_Start]) = Some s"
    "lv_called s = [(0, [2, 0]), (1, [1, 0, 67]), (0, [65, 66])]" "lv_received s = lv_called s"
    using two_clients_run by blast
  have "concat (of_conn 0 (lv_received s)) @ [] = fold (encode True) [[65, 66]] []"
    by (simp add: s(2,3) of_conn_def encode_append u16_bytes_def)
  from server_frames [OF server_run_steps [OF s(1)] _ this, of 66560] show ?thesis
    using server_run_steps [OF s(1)] s(3) by (auto simp: frame_fits_def)
qed

section \<open>The connection manager with its threads\<close>

text \<open>
  C33. \<open>TcpConnectionManager\<close>, in every interleaving of its owner and its receive threads. When
  connections are added only while no thread runs, no dangling reference is ever used and every
  thread has its connection. When no \<open>startAll\<close> follows a \<open>startAll\<close> without a \<open>stopAll\<close> between,
  each connection has one thread and its messages reach the callback in the order they were
  received, with at most one on its way. Neither holds otherwise: with a vector that doubles, a
  connection added to a running manager is followed by the use of a reference that dangles, and
  after a second \<open>startAll\<close> two messages of one connection change places.
\<close>

theorem manager_threads_safe:
  assumes "\<And>c. c < grow c" "(manager_moves grow)\<^sup>*\<^sup>* (live_manager_new ops) s"
  shows "(quiet_adds False ops \<longrightarrow> \<not> lm_fault s
      \<and> (\<forall>t \<in> set (cm_threads (lm_manager s)). thread_client (lm_manager s) t \<noteq> None))
    \<and> (single_starts False ops \<longrightarrow> distinct (map snd (cm_threads (lm_manager s)))
      \<and> (\<exists>rest. of_conn k (lm_received s) = of_conn k (lm_called s) @ rest \<and> length rest \<le> 1))
    \<and> (\<exists>s. (manager_moves doubling)\<^sup>*\<^sup>* (live_manager_new [Add (client_at 3), Start_All, Add (client_at 4)]) s \<and> lm_fault s)
    \<and> (\<exists>s. (manager_moves doubling)\<^sup>*\<^sup>* (live_manager_new [Add (client_at 3), Start_All, Start_All]) s
      \<and> of_conn 0 (lm_received s) = [[1], [2]] \<and> of_conn 0 (lm_called s) = [[2], [1]])"
proof -
  have "\<not> lm_fault s \<and> refs_valid (lm_manager s)" if "quiet_adds False ops"
    using quiet_manager.reachable_inv [OF _ assms(2)] that assms(1) by (auto simp: mgr_refs_inv_def)
  moreover have "mgr_owner_inv s \<and> mgr_order_inv s" if "single_starts False ops"
    using ordered_manager.reachable_inv [OF _ assms(2)] that by blast
  ultimately show ?thesis
    using mgr_order_inv_conn [of s k] late_connection_faults second_start_reorders
    by (simp add: refs_valid_def mgr_order_inv_def)
qed

theorem manager_threads_safe_witness:
  "\<exists>s. (manager_moves doubling)\<^sup>*\<^sup>* (live_manager_new [Add (client_at 3), Add (client_at 4), Start_All, Stop_All]) s
    \<and> lm_pcs s = [M_Check, M_Check] \<and> \<not> lm_fault s \<and> distinct (map snd (cm_threads (lm_manager s)))"
proof -
  let ?ops = "[Add (client_at 3), Add (client_at 4), Start_All, Stop_All]"
  obtain s where s: "manager_run doubling [Owner_Moves, Owner_Moves, Owner_Moves, Owner_Moves, Owner_Moves]
      (live_manager_new ?ops) = Some s" "lm_pcs s = [M_Check, M_Check]"
    by (simp add: manager_eval)
  have "quiet_adds False ?ops" "single_starts False ?ops" by simp_all
  with manager_threads_safe [OF doubling_grows manager_run_steps [OF s(1)], of 0] show ?thesis
    using manager_run_steps [OF s(1)] s(2) by blast
qed

text \<open>
  C34. \<open>stopAll\<close> of the connection manager, when connections were added only while no thread ran: once
  it has cleared the flag, all threads together take at most \<open>manager_rank\<close> further steps, and there
  is always a way on at which \<open>stopAll\<close> returns with no thread left. But it returns only after every
  thread has moved: a peer that is connected and silent holds it, and the destructor, up for ever.
\<close>

theorem manager_stop_returns:
  assumes "\<And>c. c < grow c" "(manager_moves grow)\<^sup>*\<^sup>* (live_manager_new ops) s" "quiet_adds False ops"
    and "lm_ops s = []" "lm_owner s = M_Joining j" "j \<le> length (lm_pcs s)"
  shows "((manager_moves grow ^^ n) s s' \<longrightarrow> n \<le> manager_rank s)
    \<and> (\<exists>s'. (manager_moves grow)\<^sup>*\<^sup>* s s' \<and> manager_stopped s')
    \<and> (i < length (lm_pcs s) \<and> lm_pcs s ! i \<noteq> M_Done \<and> (\<forall>r. Reader_Moves i r \<notin> set ms)
        \<and> manager_run grow ms s = Some s'' \<longrightarrow> \<not> manager_stopped s'')"
proof -
  have inv: "mgr_owner_inv s \<and> mgr_refs_inv s" using quiet_manager.reachable_inv [OF _ assms(2)] assms(1,3) by blast
  then have st: "(\<forall>c. c < grow c) \<and> manager_stopping s" using assms(1,4-6) by (auto simp: manager_stopping_def)
  show ?thesis
    using manager_ends.can_finish [OF st] manager_ends.run_bounded [OF _ st, of n s'] silent_peer [of grow ms s s'' i] inv
    by auto
qed

theorem manager_stop_returns_witness:
  "\<exists>s. (manager_moves doubling)\<^sup>*\<^sup>* (live_manager_new [Add (client_at 3), Start_All, Stop_All]) s
    \<and> lm_pcs s = [M_InRecv] \<and> (\<exists>s'. (manager_moves doubling)\<^sup>*\<^sup>* s s' \<and> manager_stopped s')"
proof -
  let ?ops = "[Add (client_at 3), Start_All, Stop_All]"
  let ?ms = "[Owner_Moves, Owner_Moves, Owner_Moves, Owner_Moves, Reader_Moves 0 No_Data, Reader_Moves 0 No_Data,
    Reader_Moves 0 No_Data, Owner_Moves]"
  obtain s where s: "manager_run doubling ?ms (live_manager_new ?ops) = Some s"
    "lm_pcs s = [M_InRecv]" "lm_ops s = []" "lm_owner s = M_Joining 0"
    by (simp add: manager_eval)
  have "quiet_adds False ?ops" by simp
  from manager_stop_returns [OF doubling_grows manager_run_steps [OF s(1)] this s(3,4)] show ?thesis
    using manager_run_steps [OF s(1)] s(2) by (intro exI [of _ s]) simp
qed

section \<open>Threads with an owner\<close>

text \<open>
  C36. \<open>start\<close> and \<open>stop\<close> in every interleaving with the thread they start. For \<open>TcpPipeline\<close>,
  \<open>UdpPipeline\<close> and \<open>SyntheticDataInjector\<close> some run ends the program exactly when in the sequence of
  calls a \<open>start\<close> follows a \<open>start\<close> without a \<open>stop\<close> between; for \<open>TcpHeartbeat\<close>, which looks at its
  flag first, none does. At every moment the generator's book is sorted, bounded and has only the
  generator's ids, and heartbeats are at least the interval apart, over all starts and stops. The generator's
  price starts again from \<open>mid\<close> at every start, the book does not.
\<close>

theorem owned_threads_safe:
  assumes "std_sort srt"
  shows "((\<exists>s. (owned_moves False R_Check tcp_body)\<^sup>*\<^sup>* (owned_new ops read_new) s \<and> ow_owner s = Is_Terminated)
      \<longleftrightarrow> \<not> no_double_start False ops)
    \<and> ((\<exists>s. (owned_moves False R_Check udp_body)\<^sup>*\<^sup>* (owned_new ops read_new) s \<and> ow_owner s = Is_Terminated)
      \<longleftrightarrow> \<not> no_double_start False ops)
    \<and> ((\<exists>s. (owned_moves False G_Init (inject_body srt bidAt askAt shift mid levels))\<^sup>*\<^sup>*
          (owned_new ops (inject_new mid maxLevels)) s \<and> ow_owner s = Is_Terminated)
      \<longleftrightarrow> \<not> no_double_start False ops)
    \<and> ((owned_moves False G_Init (inject_body srt bidAt askAt shift mid levels))\<^sup>*\<^sup>*
          (owned_new ops (inject_new mid maxLevels)) g \<longrightarrow>
        feed_ok (gs_feed (ow_data g)) \<and> injected_ids levels (gs_feed (ow_data g)))
    \<and> ((owned_moves True H_Check (heartbeat_body interval))\<^sup>*\<^sup>* (owned_new ops (heartbeat_state_new now)) h \<longrightarrow>
        ow_owner h \<noteq> Is_Terminated \<and> successively (\<lambda>a b. a + interval \<le> b) (hs_beats (ow_data h)))"
proof -
  note gen = inject_looping [OF assms]
  have "feed_ok (gs_feed (ow_data g)) \<and> injected_ids levels (gs_feed (ow_data g))"
    if "(owned_moves False G_Init (inject_body srt bidAt askAt shift mid levels))\<^sup>*\<^sup>* (owned_new ops (inject_new mid maxLevels)) g"
    using looping.fine_reachable [OF gen inject_fine_new that] by (simp add: owned_fine_def inject_fine_def generated_def)
  moreover have "ow_owner h \<noteq> Is_Terminated \<and> successively (\<lambda>a b. a + interval \<le> b) (hs_beats (ow_data h))"
    if r: "(owned_moves True H_Check (heartbeat_body interval))\<^sup>*\<^sup>* (owned_new ops (heartbeat_state_new now)) h"
  proof -
    have "owned_safe True h" using safe_owner.reachable_inv [OF _ r] by blast
    with heartbeat_thread.fine_reachable [OF heartbeat_fine_new r] show ?thesis
      by (simp add: owned_safe_def owned_fine_def heartbeat_fine_def)
  qed
  ultimately show ?thesis
    using tcp_loop.terminated_iff [OF read_fine_new, where ops = ops] udp_loop.terminated_iff [OF read_fine_new, where ops = ops]
      looping.terminated_iff [OF gen inject_fine_new, where ops = ops] by blast
qed

theorem owned_threads_safe_witness:
  "(\<exists>s. (owned_moves False R_Check tcp_body)\<^sup>*\<^sup>* (owned_new [Start, Start] read_new) s \<and> ow_owner s = Is_Terminated)
    \<and> \<not> (\<exists>s. (owned_moves False R_Check tcp_body)\<^sup>*\<^sup>* (owned_new [Start, Stop, Start] read_new) s \<and> ow_owner s = Is_Terminated)"
proof -
  have "(\<exists>s. (owned_moves False R_Check tcp_body)\<^sup>*\<^sup>* (owned_new ops read_new) s \<and> ow_owner s = Is_Terminated)
    \<longleftrightarrow> \<not> no_double_start False ops" for ops
    by (rule conjunct1 [OF owned_threads_safe [OF std_sort_cmp_sort]])
  from this [of "[Start, Start]"] this [of "[Start, Stop, Start]"] show ?thesis by simp
qed

text \<open>
  C37. \<open>stop\<close> of the same four classes, from every state in which it has cleared the flag and joins:
  the thread and the owner take at most 4 further steps for the pipelines and \<open>2 * levels + 6\<close> for the
  generator; for the heartbeat at most 50007 and one for each at which the clock shows the time that it
  showed before, for \<open>steady_clock\<close> may do so any number of times. \<open>stop\<close> can always be completed, and it is
  not completed as long as a thread that still runs does not move, blocked in \<open>recv\<close> for example.
\<close>

theorem owned_threads_stop:
  assumes "std_sort srt"
  shows "((owned_moves False R_Check tcp_body)\<^sup>*\<^sup>* (owned_new ops read_new) s \<and> told_to_stop s
        \<longrightarrow> stop_returns (\<lambda>_. False) False R_Check tcp_body 4 s)
    \<and> ((owned_moves False R_Check udp_body)\<^sup>*\<^sup>* (owned_new ops read_new) u \<and> told_to_stop u
        \<longrightarrow> stop_returns (\<lambda>_. False) False R_Check udp_body 4 u)
    \<and> ((owned_moves False G_Init (inject_body srt bidAt askAt shift mid levels))\<^sup>*\<^sup>* (owned_new ops (inject_new mid maxLevels)) g
          \<and> told_to_stop g
        \<longrightarrow> stop_returns (\<lambda>_. False) False G_Init (inject_body srt bidAt askAt shift mid levels) (2 * levels + 6) g)
    \<and> ((owned_moves True H_Check (heartbeat_body interval))\<^sup>*\<^sup>* (owned_new ops (heartbeat_state_new now)) h \<and> told_to_stop h
        \<longrightarrow> stop_returns (\<lambda>advance. advance = 0) True H_Check (heartbeat_body interval) 50007 h)"
proof (intro conjI impI; elim conjE)
  assume "(owned_moves False R_Check tcp_body)\<^sup>*\<^sup>* (owned_new ops read_new) s" "told_to_stop s"
  then show "stop_returns (\<lambda>_. False) False R_Check tcp_body 4 s"
    using tcp_loop.stop_returns_within [OF tcp_loop.fine_reachable [OF read_fine_new] _ read_rank_bound] by fastforce
next
  assume "(owned_moves False R_Check udp_body)\<^sup>*\<^sup>* (owned_new ops read_new) u" "told_to_stop u"
  then show "stop_returns (\<lambda>_. False) False R_Check udp_body 4 u"
    using udp_loop.stop_returns_within [OF udp_loop.fine_reachable [OF read_fine_new] _ read_rank_bound] by fastforce
next
  let ?body = "inject_body srt bidAt askAt shift mid levels"
  note gen = inject_looping [OF assms, of bidAt askAt shift mid levels]
  assume "(owned_moves False G_Init ?body)\<^sup>*\<^sup>* (owned_new ops (inject_new mid maxLevels)) g" and stop: "told_to_stop g"
  from looping.fine_reachable [OF gen inject_fine_new this(1)] have "owned_fine (inject_fine levels) g" .
  from looping.stop_returns_within [OF gen this stop inject_rank_bound, where checked = False]
  show "stop_returns (\<lambda>_. False) False G_Init ?body (2 * levels + 6) g" by (simp add: ac_simps)
next
  let ?body = "heartbeat_body interval"
  assume "(owned_moves True H_Check ?body)\<^sup>*\<^sup>* (owned_new ops (heartbeat_state_new now)) h" and stop: "told_to_stop h"
  from heartbeat_thread.fine_reachable [OF heartbeat_fine_new this(1)] have "owned_fine (heartbeat_fine interval) h" .
  from heartbeat_thread.stop_returns_within [OF this stop heartbeat_rank_bound]
  show "stop_returns (\<lambda>advance. advance = 0) True H_Check ?body 50007 h" by simp
qed

text \<open>A reader that is inside \<open>recv\<close> when it is told to stop.\<close>

theorem owned_threads_stop_witness:
  "\<exists>s. (owned_moves False R_Check tcp_body)\<^sup>*\<^sup>* (owned_new [Start, Stop] read_new) s \<and> ow_thread s = Runs R_Recv
    \<and> stop_returns (\<lambda>_. False) False R_Check tcp_body 4 s"
proof -
  obtain s where s: "owned_run False R_Check tcp_body [Owner_Step, Body_Step No_Data, Owner_Step]
      (owned_new [Start, Stop] read_new) = Some s" "ow_thread s = Runs R_Recv" "told_to_stop s"
    by (simp add: owned_next_def owned_owner_def owned_start_def owned_stop_def owned_new_def tcp_body_def told_to_stop_def Let_def)
  from owned_threads_stop [OF std_sort_cmp_sort] owned_run_steps [OF s(1)] s(3) have "stop_returns (\<lambda>_. False) False R_Check tcp_body 4 s"
    by blast
  with owned_run_steps [OF s(1)] s(2) show ?thesis by blast
qed

text \<open>
  C23. What the two pipelines hand on, in every interleaving and over all starts and stops: the
  decoder's callback has been called with all that \<open>recv\<close> gave, in order, but for at most one
  message in hand. When over TCP the bytes so far are a part of a stream of encoded messages, a
  framer behind the callback gives the first of these messages, and all of them when the stream is
  complete and no chunk is in hand.
\<close>

theorem pipelines_deliver:
  assumes "(owned_moves False R_Check tcp_body)\<^sup>*\<^sup>* (owned_new ops read_new) s"
    and "(owned_moves False R_Check udp_body)\<^sup>*\<^sup>* (owned_new ops' read_new) u"
    and "concat (rs_received (ow_data s)) @ more_bytes = fold (encode le) ps []" "\<And>p. p \<in> set ps \<Longrightarrow> frame_fits p"
    and "65536 + 4096 \<le> n"
  shows "(\<exists>rest. rs_received (ow_data u) = st_calls (rs_decoder (ow_data u)) @ rest \<and> length rest \<le> 1)
    \<and> (\<exists>rest. rs_received (ow_data s) = st_calls (rs_decoder (ow_data s)) @ rest \<and> length rest \<le> 1)
    \<and> (\<exists>frames f. receive le (st_calls (rs_decoder (ow_data s))) (framer_new n) = Inr (frames, f)
        \<and> (\<exists>later. ps = frames @ later)
        \<and> (more_bytes = [] \<and> in_hand (thread_pc (ow_thread s)) = [] \<longrightarrow> frames = ps))"
proof -
  have s: "read_fine (thread_pc (ow_thread s)) (ow_data s)"
    using tcp_loop.fine_reachable [OF read_fine_new assms(1)] by (simp add: owned_fine_def)
  have "read_fine (thread_pc (ow_thread u)) (ow_data u)"
    using udp_loop.fine_reachable [OF read_fine_new assms(2)] by (simp add: owned_fine_def)
  with s show ?thesis using read_fine_calls read_fine_frames [OF s assms(3-5)] by blast
qed

theorem pipelines_deliver_witness:
  "\<exists>s f. (owned_moves False R_Check tcp_body)\<^sup>*\<^sup>* (owned_new [Start, Stop] read_new) s \<and> ow_owner s = Is_Joining
    \<and> receive True (st_calls (rs_decoder (ow_data s))) (framer_new 69632) = Inr ([[65, 66]], f)"
proof -
  let ?ms = "[Owner_Step, Body_Step No_Data, Body_Step (Received [2, 0, 65]), Body_Step No_Data, Body_Step No_Data,
    Owner_Step, Body_Step (Received [66]), Body_Step No_Data]"
  obtain s where s: "owned_run False R_Check tcp_body ?ms (owned_new [Start, Stop] read_new) = Some s"
    "ow_owner s = Is_Joining" "rs_received (ow_data s) = [[2, 0, 65], [66]]" "ow_thread s = Runs R_Check"
    by (simp add: owned_next_def owned_owner_def owned_start_def owned_stop_def owned_new_def tcp_body_def take_in_def
        BUFFER_SIZE_def read_new_def Let_def)
  have "concat (rs_received (ow_data s)) @ [] = fold (encode True) [[65, 66]] []"
    by (simp add: s(3) encode_append u16_bytes_def)
  from pipelines_deliver [OF owned_run_steps [OF s(1)] rtranclp.rtrancl_refl [of _ "owned_new [] read_new"] this, of 69632]
  obtain f where "receive True (st_calls (rs_decoder (ow_data s))) (framer_new 69632) = Inr ([[65, 66]], f)"
    using s(4) by (auto simp: frame_fits_def)
  with owned_run_steps [OF s(1)] s(2) show ?thesis by blast
qed

section \<open>The hash of a symbol\<close>

text \<open>
  C15. The book of a symbol. For an ASCII symbol with a terminator \<open>hashSymbol\<close> is the published FNV-1a
  hash of its characters modulo 1024; on a byte from 128 on it is not, since \<open>char\<close> is signed. Of
  the 64 bits it computes with, only ten matter: a hash with ten bits of state gives the same book
  for every symbol. So of any 1025 symbols two share a book, where they trade with each other.
\<close>

theorem hash_is_fnv1a:
  assumes "symbol_wf s"
  shows "((\<forall>c \<in> set s. c < 128) \<longrightarrow> hashSymbol s = Some (unat (reference_fnv1a (takeWhile (\<lambda>c. c \<noteq> 0) s) mod 1024)))
    \<and> (symbol_wf sym_high \<and> hashSymbol sym_high \<noteq> Some (unat (reference_fnv1a (takeWhile (\<lambda>c. c \<noteq> 0) sym_high) mod 1024)))
    \<and> hashSymbol s = Some (small_hash s)
    \<and> (finite S \<and> 1024 < card S \<and> (\<forall>s \<in> S. symbol_wf s)
        \<longrightarrow> (\<exists>s \<in> S. \<exists>s' \<in> S. s \<noteq> s' \<and> hashSymbol s = hashSymbol s'))"
  using hashSymbol_reference [OF assms] hashSymbol_high hashSymbol_small [OF assms] symbols_share [of S] by blast

theorem hash_is_fnv1a_witness:
  "hashSymbol sym_WMT = Some (unat (reference_fnv1a [87, 77, 84] mod 1024)) \<and> small_hash sym_WMT = 495"
proof -
  have "\<forall>c \<in> set sym_WMT. c < 128" "takeWhile (\<lambda>c. c \<noteq> 0) sym_WMT = [87, 77, 84]" by (simp_all add: sym_WMT_def)
  with hash_is_fnv1a [OF symbols_wf(1)] hash_WMT show ?thesis by simp
qed

end
